(* ===== verification/Prelude.thy ===== *)
theory Prelude
  imports Main "HOL-Library.Word" "HOL-Library.Sublist" "HOL-Library.Char_ord"
begin

text \<open>
  Shared vocabulary of the development. A Rust \<open>&str\<close> or \<open>&[u8]\<close> is the list of its bytes; a byte
  is a \<^typ>\<open>char\<close>, whose value is \<open>of_char\<close>. The operations of the Rust standard library that the
  modelled code calls (splitting, joining, prefix tests, ASCII case folding, decimal parsing,
  saturating arithmetic) are defined here once, with the lemmas the components share.
\<close>

section \<open>Types and lemma collections\<close>

type_synonym byte = char
type_synonym bytes = "char list"
type_synonym u8 = "8 word"
type_synonym u16 = "16 word"
type_synonym u32 = "32 word"
type_synonym u64 = "64 word"

named_theorems ascii_simps \<open>facts on ASCII case folding\<close>
named_theorems split_simps \<open>facts on splitting and joining at a separator\<close>

abbreviation byte_val :: "byte \<Rightarrow> nat" where
  "byte_val c \<equiv> of_char c"

abbreviation u8_of :: "byte \<Rightarrow> u8" where
  "u8_of c \<equiv> of_nat (of_char c)"

section \<open>ASCII classes and case folding\<close>

definition is_ascii_uppercase :: "byte \<Rightarrow> bool" where
  "is_ascii_uppercase c \<longleftrightarrow> 65 \<le> byte_val c \<and> byte_val c \<le> 90"

definition is_ascii_lowercase :: "byte \<Rightarrow> bool" where
  "is_ascii_lowercase c \<longleftrightarrow> 97 \<le> byte_val c \<and> byte_val c \<le> 122"

definition is_ascii_digit :: "byte \<Rightarrow> bool" where
  "is_ascii_digit c \<longleftrightarrow> 48 \<le> byte_val c \<and> byte_val c \<le> 57"

definition is_ascii_alphanumeric :: "byte \<Rightarrow> bool" where
  "is_ascii_alphanumeric c \<longleftrightarrow> is_ascii_uppercase c \<or> is_ascii_lowercase c \<or> is_ascii_digit c"

definition is_ascii_whitespace :: "byte \<Rightarrow> bool" where
  "is_ascii_whitespace c \<longleftrightarrow> c \<in> {CHR '' '', CHR 0x09, CHR 0x0A, CHR 0x0C, CHR 0x0D}"

definition to_ascii_lower :: "byte \<Rightarrow> byte" where
  "to_ascii_lower c = (if is_ascii_uppercase c then char_of (byte_val c + 32) else c)"

definition to_ascii_lowercase :: "bytes \<Rightarrow> bytes" where
  "to_ascii_lowercase s = map to_ascii_lower s"

definition eq_ignore_case :: "byte \<Rightarrow> byte \<Rightarrow> bool" where
  "eq_ignore_case a b \<longleftrightarrow> to_ascii_lower a = to_ascii_lower b"

definition eq_ignore_ascii_case :: "bytes \<Rightarrow> bytes \<Rightarrow> bool" where
  "eq_ignore_ascii_case s t \<longleftrightarrow> length s = length t \<and> list_all2 eq_ignore_case s t"

lemma byte_val_bound: "byte_val c < 256"
  by simp

lemma byte_val_inj: "byte_val c = byte_val d \<longleftrightarrow> c = d"
  by simp

lemma to_ascii_lower_idem [ascii_simps, simp]:
  "to_ascii_lower (to_ascii_lower c) = to_ascii_lower c"
  by (auto simp: to_ascii_lower_def is_ascii_uppercase_def)

lemma to_ascii_lowercase_idem [ascii_simps, simp]:
  "to_ascii_lowercase (to_ascii_lowercase s) = to_ascii_lowercase s"
  by (simp add: to_ascii_lowercase_def)

lemma length_to_ascii_lowercase [simp]: "length (to_ascii_lowercase s) = length s"
  by (simp add: to_ascii_lowercase_def)

lemma to_ascii_lowercase_Nil [simp]: "to_ascii_lowercase [] = []"
  and to_ascii_lowercase_Cons [simp]:
    "to_ascii_lowercase (c # s) = to_ascii_lower c # to_ascii_lowercase s"
  and to_ascii_lowercase_append [simp]:
    "to_ascii_lowercase (s @ t) = to_ascii_lowercase s @ to_ascii_lowercase t"
  and to_ascii_lowercase_eq_Nil [simp]: "to_ascii_lowercase s = [] \<longleftrightarrow> s = []"
  by (simp_all add: to_ascii_lowercase_def)

text \<open>Case-insensitive comparison of byte strings is equality of their folded forms.\<close>

lemma eq_ignore_ascii_case_iff [ascii_simps]:
  "eq_ignore_ascii_case s t \<longleftrightarrow> to_ascii_lowercase s = to_ascii_lowercase t"
  by (auto simp: eq_ignore_ascii_case_def to_ascii_lowercase_def eq_ignore_case_def
      list_all2_conv_all_nth list_eq_iff_nth_eq)

lemma to_ascii_lowercase_id:
  "(\<forall>c \<in> set s. \<not> is_ascii_uppercase c) \<Longrightarrow> to_ascii_lowercase s = s"
  by (induction s) (auto simp: to_ascii_lower_def)

text \<open>A byte that is no letter is its own folded form, and nothing else folds to it.\<close>

lemma to_ascii_lower_fixed:
  assumes "byte_val d < 65 \<or> 90 < byte_val d \<and> byte_val d < 97 \<or> 122 < byte_val d"
  shows "to_ascii_lower c = d \<longleftrightarrow> c = d"
proof (cases "is_ascii_uppercase c")
  case True
  then have "byte_val (to_ascii_lower c) = byte_val c + 32"
    by (simp add: to_ascii_lower_def is_ascii_uppercase_def)
  moreover from True have "65 \<le> byte_val c" "byte_val c \<le> 90"
    by (simp_all add: is_ascii_uppercase_def)
  ultimately show ?thesis using assms by auto
next
  case False
  then show ?thesis by (simp add: to_ascii_lower_def)
qed

lemma to_ascii_lower_star [ascii_simps]: "to_ascii_lower c = CHR ''*'' \<longleftrightarrow> c = CHR ''*''"
  by (rule to_ascii_lower_fixed) simp

lemma to_ascii_lower_slash [ascii_simps]: "to_ascii_lower c = CHR ''/'' \<longleftrightarrow> c = CHR ''/''"
  by (rule to_ascii_lower_fixed) simp

section \<open>Splitting, joining and stripping\<close>

text \<open>\<open>split\<close> at one byte: \<open>str::split\<close> always yields at least one piece.\<close>

fun split_on :: "'a \<Rightarrow> 'a list \<Rightarrow> 'a list list" where
  "split_on c [] = [[]]"
| "split_on c (x # xs) =
     (if x = c then [] # split_on c xs
      else (x # hd (split_on c xs)) # tl (split_on c xs))"

fun join_with :: "'a list \<Rightarrow> 'a list list \<Rightarrow> 'a list" where
  "join_with sep [] = []"
| "join_with sep [x] = x"
| "join_with sep (x # y # ys) = x @ sep @ join_with sep (y # ys)"

fun split_once :: "'a \<Rightarrow> 'a list \<Rightarrow> ('a list \<times> 'a list) option" where
  "split_once c [] = None"
| "split_once c (x # xs) =
     (if x = c then Some ([], xs)
      else map_option (\<lambda>(a, b). (x # a, b)) (split_once c xs))"

definition rsplit_once :: "'a \<Rightarrow> 'a list \<Rightarrow> ('a list \<times> 'a list) option" where
  "rsplit_once c xs = map_option (\<lambda>(a, b). (rev b, rev a)) (split_once c (rev xs))"

definition strip_prefix :: "'a list \<Rightarrow> 'a list \<Rightarrow> 'a list option" where
  "strip_prefix p xs = (if take (length p) xs = p then Some (drop (length p) xs) else None)"

definition strip_suffix :: "'a list \<Rightarrow> 'a list \<Rightarrow> 'a list option" where
  "strip_suffix p xs =
     (if length p \<le> length xs \<and> drop (length xs - length p) xs = p
      then Some (take (length xs - length p) xs) else None)"

definition str_starts_with :: "'a list \<Rightarrow> 'a list \<Rightarrow> bool" where
  "str_starts_with xs p \<longleftrightarrow> take (length p) xs = p"

definition str_ends_with :: "'a list \<Rightarrow> 'a list \<Rightarrow> bool" where
  "str_ends_with xs p \<longleftrightarrow> length p \<le> length xs \<and> drop (length xs - length p) xs = p"

fun windows :: "nat \<Rightarrow> 'a list \<Rightarrow> 'a list list" where
  "windows n [] = (if n = 0 then [[]] else [])"
| "windows n (x # xs) = (if n \<le> Suc (length xs) then take n (x # xs) # windows n xs else [])"

definition str_contains :: "'a list \<Rightarrow> 'a list \<Rightarrow> bool" where
  "str_contains xs p \<longleftrightarrow> p \<in> set (windows (length p) xs)"

lemma split_on_not_Nil [simp, split_simps]: "split_on c xs \<noteq> []"
  by (induction xs) auto

lemma split_on_no_sep [split_simps]: "c \<notin> set xs \<Longrightarrow> split_on c xs = [xs]"
  by (induction xs) auto

lemma split_on_append [split_simps]:
  "c \<notin> set xs \<Longrightarrow> split_on c (xs @ c # ys) = xs # split_on c ys"
  by (induction xs) auto

lemma split_on_pieces: "p \<in> set (split_on c xs) \<Longrightarrow> c \<notin> set p"
proof (induction xs arbitrary: p)
  case Nil
  then show ?case by simp
next
  case (Cons x xs)
  obtain y ys where y: "split_on c xs = y # ys"
    using split_on_not_Nil [of c xs] by (cases "split_on c xs") auto
  then have "c \<notin> set y" using Cons.IH by simp
  with Cons y show ?case by (cases "x = c") auto
qed

lemma split_on_Cons_cases:
  obtains y ys where "split_on c xs = y # ys"
  using split_on_not_Nil [of c xs] by (cases "split_on c xs") auto

lemma set_split_on: "p \<in> set (split_on c xs) \<Longrightarrow> set p \<subseteq> set xs"
proof (induction xs arbitrary: p)
  case Nil
  then show ?case by simp
next
  case (Cons x xs)
  obtain y ys where y: "split_on c xs = y # ys" by (rule split_on_Cons_cases)
  then have sub: "z \<in> set (y # ys) \<Longrightarrow> set z \<subseteq> set xs" for z
    using Cons.IH by simp
  from Cons.prems y have "p = [] \<or> p = x # y \<or> p \<in> set (y # ys)"
    by (auto split: if_splits)
  with sub [of y] sub [of p] show ?case by auto
qed

lemma split_on_sep: "split_on c (xs @ c # ys) = split_on c xs @ split_on c ys"
proof (induction xs)
  case (Cons x xs)
  obtain y zs where "split_on c xs = y # zs" by (rule split_on_Cons_cases)
  with Cons show ?case by simp
qed simp

lemma join_with_concat: "join_with sep (x # xs) = x @ concat (map (\<lambda>y. sep @ y) xs)"
  by (induction xs arbitrary: x) auto

lemma join_with_Cons: "ys \<noteq> [] \<Longrightarrow> join_with sep (x # ys) = x @ sep @ join_with sep ys"
  by (cases ys) auto

lemma join_split [split_simps]: "join_with [c] (split_on c xs) = xs"
proof (induction xs)
  case Nil
  then show ?case by simp
next
  case (Cons x xs)
  obtain y ys where "split_on c xs = y # ys"
    using split_on_not_Nil [of c xs] by (cases "split_on c xs") auto
  with Cons show ?case by (cases ys) auto
qed

lemma split_join [split_simps]:
  "xs \<noteq> [] \<Longrightarrow> (\<forall>x \<in> set xs. c \<notin> set x) \<Longrightarrow> split_on c (join_with [c] xs) = xs"
proof (induction xs rule: list_nonempty_induct)
  case (single x)
  then show ?case by (simp add: split_on_no_sep)
next
  case (cons x xs)
  then show ?case by (simp add: join_with_Cons split_on_append)
qed

lemma split_once_Some: "split_once c xs = Some (a, b) \<longleftrightarrow> xs = a @ c # b \<and> c \<notin> set a"
proof (induction xs arbitrary: a)
  case Nil
  then show ?case by simp
next
  case (Cons x xs)
  note IH = Cons.IH
  show ?case
  proof (cases "x = c")
    case True
    then show ?thesis by (cases a) auto
  next
    case False
    then show ?thesis
    proof (cases a)
      case Nil
      with False show ?thesis by auto
    next
      case (Cons y a')
      have "split_once c (x # xs) = Some (a, b) \<longleftrightarrow> y = x \<and> split_once c xs = Some (a', b)"
        using False Cons by auto
      then show ?thesis using IH False Cons by auto
    qed
  qed
qed

lemma split_once_None: "split_once c xs = None \<longleftrightarrow> c \<notin> set xs"
  by (induction xs) auto

lemma rsplit_once_Some:
  "rsplit_once c xs = Some (a, b) \<longleftrightarrow> xs = a @ c # b \<and> c \<notin> set b"
proof -
  have "xs = a @ c # b \<longleftrightarrow> rev xs = rev b @ c # rev a"
    by (metis append.assoc append_Cons append_Nil rev.simps(2) rev_append rev_rev_ident)
  moreover have "rsplit_once c xs = Some (a, b) \<longleftrightarrow> split_once c (rev xs) = Some (rev b, rev a)"
    unfolding rsplit_once_def by (cases "split_once c (rev xs)") auto
  ultimately show ?thesis by (simp add: split_once_Some)
qed

lemma rsplit_once_None: "rsplit_once c xs = None \<longleftrightarrow> c \<notin> set xs"
  by (simp add: rsplit_once_def split_once_None)

lemma str_starts_with_prefix: "str_starts_with xs p \<longleftrightarrow> prefix p xs"
  unfolding str_starts_with_def prefix_def by (metis append_eq_conv_conj append_take_drop_id)

lemma str_ends_with_suffix: "str_ends_with xs p \<longleftrightarrow> suffix p xs"
proof
  assume "str_ends_with xs p"
  then show "suffix p xs"
    unfolding str_ends_with_def by (metis suffix_drop)
next
  assume "suffix p xs"
  then show "str_ends_with xs p"
    by (auto simp: str_ends_with_def suffix_def)
qed

lemma strip_prefix_Some: "strip_prefix p xs = Some r \<longleftrightarrow> xs = p @ r"
  unfolding strip_prefix_def
  by (metis append_eq_conv_conj append_take_drop_id option.distinct(1) option.inject)

lemma strip_suffix_Some: "strip_suffix p xs = Some r \<longleftrightarrow> xs = r @ p"
  unfolding strip_suffix_def
  by (auto simp: append_eq_conv_conj) (metis append_take_drop_id)

lemma set_windows: "set (windows n xs) = {w. \<exists>a b. xs = a @ w @ b \<and> length w = n}"
proof (induction xs)
  case Nil
  then show ?case by auto
next
  case (Cons x xs)
  show ?case
  proof (cases "n \<le> Suc (length xs)")
    case True
    have "(\<exists>a b. x # xs = a @ w @ b \<and> length w = n) \<longleftrightarrow>
        w = take n (x # xs) \<or> (\<exists>a b. xs = a @ w @ b \<and> length w = n)" for w
    proof
      assume "\<exists>a b. x # xs = a @ w @ b \<and> length w = n"
      then obtain a b where ab: "x # xs = a @ w @ b" "length w = n" by blast
      show "w = take n (x # xs) \<or> (\<exists>a b. xs = a @ w @ b \<and> length w = n)"
      proof (cases a)
        case Nil
        with ab have "w = take n (x # xs)" by simp
        then show ?thesis ..
      next
        case (Cons y a')
        with ab have "xs = a' @ w @ b \<and> length w = n" by simp
        then show ?thesis by blast
      qed
    next
      assume "w = take n (x # xs) \<or> (\<exists>a b. xs = a @ w @ b \<and> length w = n)"
      then show "\<exists>a b. x # xs = a @ w @ b \<and> length w = n"
      proof
        assume w: "w = take n (x # xs)"
        then have "x # xs = [] @ w @ drop n (x # xs) \<and> length w = n"
          using True by simp
        then show ?thesis by blast
      next
        assume "\<exists>a b. xs = a @ w @ b \<and> length w = n"
        then show ?thesis by (metis append_Cons)
      qed
    qed
    with True Cons.IH show ?thesis by auto
  next
    case False
    have "\<not> (\<exists>a b. x # xs = a @ w @ b \<and> length w = n)" for w
    proof
      assume "\<exists>a b. x # xs = a @ w @ b \<and> length w = n"
      then obtain a b where "x # xs = a @ w @ b" "length w = n" by blast
      then have "Suc (length xs) = length a + n + length b"
        by (metis length_Cons length_append add.assoc)
      with False show False by simp
    qed
    with False show ?thesis by simp
  qed
qed

lemma str_contains_iff: "str_contains xs p \<longleftrightarrow> (\<exists>a b. xs = a @ p @ b)"
  by (auto simp: str_contains_def set_windows)

section \<open>Decimal numbers\<close>

text \<open>
  \<open>str::parse\<close> on an unsigned integer of \<open>w\<close> bits: an optional \<open>+\<close>, then at least one decimal digit,
  and the value must fit.
\<close>

fun parse_digits :: "nat \<Rightarrow> nat \<Rightarrow> bytes \<Rightarrow> nat option" where
  "parse_digits w acc [] = Some acc"
| "parse_digits w acc (c # cs) =
     (if is_ascii_digit c then
        (let n = acc * 10 + (byte_val c - 48) in
         if n < 2 ^ w then parse_digits w n cs else None)
      else None)"

definition parse_uint :: "nat \<Rightarrow> bytes \<Rightarrow> nat option" where
  "parse_uint w s =
     (let ds = (case s of [] \<Rightarrow> [] | c # cs \<Rightarrow> if c = CHR ''+'' then cs else s)
      in if ds = [] then None else parse_digits w 0 ds)"

lemma parse_digits_bound: "parse_digits w acc s = Some n \<Longrightarrow> acc < 2 ^ w \<Longrightarrow> n < 2 ^ w"
  by (induction w acc s rule: parse_digits.induct) (auto simp: Let_def split: if_splits)

lemma parse_uint_bound: "parse_uint w s = Some n \<Longrightarrow> n < 2 ^ w"
  by (auto simp: parse_uint_def Let_def split: if_splits list.splits dest!: parse_digits_bound)

section \<open>Printing numbers\<close>

definition digit_char :: "nat \<Rightarrow> byte" where
  "digit_char n = (if n < 10 then char_of (48 + n) else char_of (87 + n))"

text \<open>\<open>to_string\<close> of an unsigned integer, and the lower-case hexadecimal \<open>{:x}\<close>.\<close>

function show_base :: "nat \<Rightarrow> nat \<Rightarrow> bytes" where
  "show_base b n =
     (if n < b \<or> b < 2 then [digit_char n] else show_base b (n div b) @ [digit_char (n mod b)])"
  by pat_completeness auto
termination
  by (relation "measure snd") auto

declare show_base.simps [simp del]

definition show_nat :: "nat \<Rightarrow> bytes" where
  "show_nat n = show_base 10 n"

definition show_hex :: "nat \<Rightarrow> bytes" where
  "show_hex n = show_base 16 n"

lemma byte_val_digit_char: "n < 10 \<Longrightarrow> byte_val (digit_char n) = 48 + n"
  by (simp add: digit_char_def)

lemma is_ascii_digit_digit_char: "n < 10 \<Longrightarrow> is_ascii_digit (digit_char n)"
  by (simp add: is_ascii_digit_def byte_val_digit_char)

lemma show_nat_digits: "list_all is_ascii_digit (show_nat n)"
  unfolding show_nat_def
proof (induction n rule: less_induct)
  case (less n)
  then show ?case
    by (subst show_base.simps) (auto simp: is_ascii_digit_digit_char)
qed

lemma show_nat_not_Nil [simp]: "show_nat n \<noteq> []"
  unfolding show_nat_def by (subst show_base.simps) simp

lemma parse_digits_append:
  "parse_digits w acc (s @ t) = (case parse_digits w acc s of None \<Rightarrow> None | Some n \<Rightarrow> parse_digits w n t)"
  by (induction w acc s rule: parse_digits.induct) (auto simp: Let_def)

lemma parse_digits_show_nat: "n < 2 ^ w \<Longrightarrow> parse_digits w 0 (show_nat n) = Some n"
  unfolding show_nat_def
proof (induction n rule: less_induct)
  case (less n)
  show ?case
  proof (cases "n < 10")
    case True
    with less.prems show ?thesis
      by (subst show_base.simps)
        (simp add: is_ascii_digit_digit_char byte_val_digit_char Let_def)
  next
    case False
    moreover from less.prems have "n div 10 < 2 ^ w"
      by (meson div_le_dividend order_le_less_trans)
    ultimately show ?thesis using less.IH [of "n div 10"] less.prems
      by (subst show_base.simps)
        (simp add: parse_digits_append is_ascii_digit_digit_char byte_val_digit_char Let_def)
  qed
qed

text \<open>Printing a number and parsing it back at a width that holds it.\<close>

lemma show_nat_inj: "show_nat n = show_nat m \<longleftrightarrow> n = m"
proof
  have "parse_digits (n + m) 0 (show_nat n) = Some n" "parse_digits (n + m) 0 (show_nat m) = Some m"
    by (rule parse_digits_show_nat, rule le_less_trans [OF _ less_exp], simp)+
  then show "show_nat n = show_nat m \<Longrightarrow> n = m" by (metis option.inject)
qed simp

lemma parse_uint_show_nat: "n < 2 ^ w \<Longrightarrow> parse_uint w (show_nat n) = Some n"
proof -
  assume "n < 2 ^ w"
  moreover obtain c cs where "show_nat n = c # cs" by (cases "show_nat n") auto
  moreover have "is_ascii_digit c" using show_nat_digits [of n] calculation(2) by simp
  ultimately show ?thesis using parse_digits_show_nat [of n w]
    by (auto simp: parse_uint_def Let_def is_ascii_digit_def)
qed

section \<open>Searching a list\<close>

lemma find_SomeD: "find P xs = Some x \<Longrightarrow> x \<in> set xs \<and> P x"
  by (induction xs) (auto split: if_splits)

lemma find_append: "find P (xs @ ys) = (case find P xs of Some x \<Rightarrow> Some x | None \<Rightarrow> find P ys)"
  by (induction xs) auto

lemma find_weaken:
  "find P xs = Some x \<Longrightarrow> Q x \<Longrightarrow> (\<And>y. y \<in> set xs \<Longrightarrow> Q y \<Longrightarrow> P y) \<Longrightarrow> find Q xs = Some x"
  by (induction xs) (auto split: if_splits)

section \<open>Splitting on a string and big-endian numbers\<close>

function split_str_loop :: "'a list \<Rightarrow> 'a list \<Rightarrow> 'a list \<Rightarrow> 'a list list" where
  "split_str_loop sep cur s =
     (if s = [] then [cur]
      else if sep \<noteq> [] \<and> str_starts_with s sep then cur # split_str_loop sep [] (drop (length sep) s)
      else split_str_loop sep (cur @ [hd s]) (tl s))"
  by pat_completeness auto
termination
  by (relation "measure (\<lambda>(sep, cur, s). length s)") auto

declare split_str_loop.simps [simp del]

text \<open>\<open>str::split\<close> on a non-empty string.\<close>

definition split_str :: "'a list \<Rightarrow> 'a list \<Rightarrow> 'a list list" where
  "split_str sep s = split_str_loop sep [] s"

text \<open>\<open>to_be_bytes\<close> and \<open>from_be_bytes\<close> of 16 bits; writing truncates to the width.\<close>

definition be16 :: "nat \<Rightarrow> bytes" where
  "be16 n = [char_of (n div 256), char_of n]"

definition from_be16 :: "byte \<Rightarrow> byte \<Rightarrow> nat" where
  "from_be16 a b = byte_val a * 256 + byte_val b"

lemma length_be16 [simp]: "length (be16 n) = 2"
  by (simp add: be16_def)

lemma from_be16_be16: "n < 65536 \<Longrightarrow> from_be16 (be16 n ! 0) (be16 n ! 1) = n"
proof -
  assume "n < 65536"
  then have "n div 256 < 256" by (simp add: less_mult_imp_div_less)
  then show ?thesis by (simp add: from_be16_def be16_def)
qed

lemma from_be16_bound: "from_be16 a b < 65536"
  using byte_val_bound [of a] byte_val_bound [of b] unfolding from_be16_def by linarith

lemma length_windows: "0 < n \<Longrightarrow> length (windows n xs) = length xs + 1 - n"
  by (induction xs) auto

lemma nth_windows: "0 < n \<Longrightarrow> i + n \<le> length xs \<Longrightarrow> windows n xs ! i = take n (drop i xs)"
  by (induction xs arbitrary: i) (auto simp: nth_Cons split: nat.splits)

text \<open>\<open>slice::chunks\<close>\<close>

function chunks :: "nat \<Rightarrow> 'a list \<Rightarrow> 'a list list" where
  "chunks n xs = (if n = 0 \<or> xs = [] then [] else take n xs # chunks n (drop n xs))"
  by pat_completeness auto
termination
  by (relation "measure (\<lambda>(n, xs). length xs)") auto

declare chunks.simps [simp del]

lemma concat_chunks: "0 < n \<Longrightarrow> concat (chunks n xs) = xs"
  by (induction n xs rule: chunks.induct) (subst chunks.simps, auto)

lemma chunks_bounds: "c \<in> set (chunks n xs) \<Longrightarrow> c \<noteq> [] \<and> length c \<le> n"
proof (induction n xs rule: chunks.induct)
  case (1 n xs)
  from "1.prems" have "n \<noteq> 0" "xs \<noteq> []" "c = take n xs \<or> c \<in> set (chunks n (drop n xs))"
    by (subst (asm) chunks.simps, simp split: if_splits)+
  with "1.IH" show ?case by auto
qed

end
