(* ===== verification/Utf8.thy ===== *)
theory Utf8
  imports Prelude
begin

text \<open>
  The part of the standard library's UTF-8 handling that the modelled code relies on: the scan of
  one encoded character (\<open>str::from_utf8\<close>), validity of a byte string, the lossy conversion
  (\<open>String::from_utf8_lossy\<close>, one U+FFFD per maximal invalid run) and the code point of one encoded
  character (\<open>str::chars\<close>).
\<close>

definition is_cont :: "byte \<Rightarrow> bool" where
  "is_cont c \<longleftrightarrow> 128 \<le> byte_val c \<and> byte_val c \<le> 191"

definition between :: "nat \<Rightarrow> byte \<Rightarrow> nat \<Rightarrow> bool" where
  "between lo c hi \<longleftrightarrow> lo \<le> byte_val c \<and> byte_val c \<le> hi"

text \<open>The byte at an index, or 0 past the end, as the library's \<open>safe_get\<close>.\<close>

definition safe_get :: "bytes \<Rightarrow> nat \<Rightarrow> byte" where
  "safe_get bs i = (if i < length bs then bs ! i else char_of (0::nat))"

definition second_ok :: "byte \<Rightarrow> byte \<Rightarrow> bool" where
  "second_ok b c \<longleftrightarrow>
     (if byte_val b = 224 then between 160 c 191
      else if between 225 b 236 then between 128 c 191
      else if byte_val b = 237 then between 128 c 159
      else if between 238 b 239 then between 128 c 191
      else if byte_val b = 240 then between 144 c 191
      else if between 241 b 243 then between 128 c 191
      else if byte_val b = 244 then between 128 c 143
      else False)"

text \<open>
  One step of the scan over a non-empty input: whether a whole character stands in front, and how
  many bytes were inspected and accepted before the verdict.
\<close>

definition utf8_scan :: "bytes \<Rightarrow> bool \<times> nat" where
  "utf8_scan bs =
     (let b = safe_get bs 0 in
      if byte_val b < 128 then (True, 1)
      else if between 194 b 223 then
        (if is_cont (safe_get bs 1) then (True, 2) else (False, 1))
      else if between 224 b 239 then
        (if \<not> second_ok b (safe_get bs 1) then (False, 1)
         else if \<not> is_cont (safe_get bs 2) then (False, 2) else (True, 3))
      else if between 240 b 244 then
        (if \<not> second_ok b (safe_get bs 1) then (False, 1)
         else if \<not> is_cont (safe_get bs 2) then (False, 2)
         else if \<not> is_cont (safe_get bs 3) then (False, 3) else (True, 4))
      else (False, 1))"

lemma utf8_scan_pos: "utf8_scan bs = (ok, n) \<Longrightarrow> 0 < n \<and> n \<le> 4"
  by (auto simp: utf8_scan_def Let_def split: if_splits)

lemma safe_get_cont: "is_cont (safe_get bs i) \<Longrightarrow> i < length bs"
  by (auto simp: is_cont_def safe_get_def split: if_splits)

lemma second_ok_cont: "second_ok b c \<Longrightarrow> is_cont c"
  by (auto simp: second_ok_def between_def is_cont_def split: if_splits)

lemma utf8_scan_length:
  "bs \<noteq> [] \<Longrightarrow> utf8_scan bs = (ok, n) \<Longrightarrow> n \<le> length bs"
  by (auto simp: utf8_scan_def Let_def Suc_le_eq split: if_splits
      dest!: second_ok_cont safe_get_cont)

function utf8_valid :: "bytes \<Rightarrow> bool" where
  "utf8_valid [] = True"
| "utf8_valid (b # bs) =
     (case utf8_scan (b # bs) of (ok, n) \<Rightarrow> ok \<and> utf8_valid (drop n (b # bs)))"
  by pat_completeness auto
termination
  by (relation "measure length") (auto dest!: sym [THEN utf8_scan_pos])

definition replacement_char :: bytes where
  "replacement_char = [char_of (239::nat), char_of (191::nat), char_of (189::nat)]"

function utf8_lossy :: "bytes \<Rightarrow> bytes" where
  "utf8_lossy [] = []"
| "utf8_lossy (b # bs) =
     (case utf8_scan (b # bs) of (ok, n) \<Rightarrow>
        (if ok then take n (b # bs) else replacement_char) @ utf8_lossy (drop n (b # bs)))"
  by pat_completeness auto
termination
  by (relation "measure length") (auto dest!: sym [THEN utf8_scan_pos])

lemma utf8_lossy_valid: "utf8_valid bs \<Longrightarrow> utf8_lossy bs = bs"
proof (induction bs rule: utf8_lossy.induct)
  case 1
  then show ?case by simp
next
  case (2 b bs)
  obtain ok n where s: "utf8_scan (b # bs) = (ok, n)" by fastforce
  with "2.prems" have "ok" "utf8_valid (drop n (b # bs))" by auto
  with "2.IH" [OF s [symmetric]] s have
    "utf8_lossy (b # bs) = take n (b # bs) @ drop n (b # bs)"
    by simp
  then show ?case by simp
qed

lemma utf8_scan_ascii: "byte_val b < 128 \<Longrightarrow> utf8_scan (b # bs) = (True, 1)"
  by (simp add: utf8_scan_def safe_get_def)

lemma utf8_valid_ascii: "\<forall>c \<in> set bs. byte_val c < 128 \<Longrightarrow> utf8_valid bs"
  by (induction bs) (auto simp: utf8_scan_ascii)

text \<open>The code point of one encoded character of the given width.\<close>

definition utf8_code_point :: "bytes \<Rightarrow> nat \<Rightarrow> nat" where
  "utf8_code_point bs w =
     (let v = (\<lambda>i. byte_val (safe_get bs i)) in
      if w = 1 then v 0
      else if w = 2 then (v 0 mod 32) * 64 + v 1 mod 64
      else if w = 3 then (v 0 mod 16) * 4096 + (v 1 mod 64) * 64 + v 2 mod 64
      else (v 0 mod 8) * 262144 + (v 1 mod 64) * 4096 + (v 2 mod 64) * 64 + v 3 mod 64)"

text \<open>\<open>str::chars\<close> as code points, on a string (valid UTF-8).\<close>

function chars_of :: "bytes \<Rightarrow> nat list" where
  "chars_of [] = []"
| "chars_of (b # bs) =
     (case utf8_scan (b # bs) of (ok, n) \<Rightarrow>
        utf8_code_point (b # bs) n # chars_of (drop n (b # bs)))"
  by pat_completeness auto
termination
  by (relation "measure length") (auto dest!: sym [THEN utf8_scan_pos])

lemma chars_of_ascii: "\<forall>c \<in> set bs. byte_val c < 128 \<Longrightarrow> chars_of bs = map byte_val bs"
  by (induction bs) (auto simp: utf8_scan_ascii utf8_code_point_def safe_get_def)

text \<open>A scan only looks at the bytes of the character it accepts, and those are not ASCII unless
  it is one byte long.\<close>

lemma utf8_scan_cong:
  assumes "utf8_scan bs = (True, n)" "\<And>i. i < n \<Longrightarrow> safe_get xs i = safe_get bs i"
  shows "utf8_scan xs = (True, n)" "utf8_code_point xs n = utf8_code_point bs n"
proof -
  from utf8_scan_pos [OF assms(1)] assms(2) [of 0] have 0: "safe_get xs 0 = safe_get bs 0" by simp
  have "n = 1 \<or> n = 2 \<or> n = 3 \<or> n = 4" using utf8_scan_pos [OF assms(1)] by auto
  then consider "n = 1" | "n = 2" "safe_get xs 1 = safe_get bs 1"
    | "n = 3" "safe_get xs 1 = safe_get bs 1" "safe_get xs 2 = safe_get bs 2"
    | "n = 4" "safe_get xs 1 = safe_get bs 1" "safe_get xs 2 = safe_get bs 2" "safe_get xs 3 = safe_get bs 3"
    using assms(2) by fastforce
  then show "utf8_scan xs = (True, n)" "utf8_code_point xs n = utf8_code_point bs n"
    using 0 assms(1) by (cases; auto simp: utf8_scan_def utf8_code_point_def Let_def split: if_splits)+
qed

lemma utf8_scan_high:
  assumes "utf8_scan bs = (True, n)" "1 < n" "i < n"
  shows "128 \<le> byte_val (safe_get bs i)"
proof -
  from assms(1,2) have "128 \<le> byte_val (safe_get bs 0)" "is_cont (safe_get bs 1)"
    "2 < n \<Longrightarrow> is_cont (safe_get bs 2)" "3 < n \<Longrightarrow> is_cont (safe_get bs 3)" "n \<le> 4"
    by (auto simp: utf8_scan_def Let_def between_def dest: second_ok_cont split: if_splits)
  note bytes = this
  from assms(2,3) \<open>n \<le> 4\<close> consider "i = 0" | "i = 1" | "i = 2" "2 < n" | "i = 3" "3 < n"
    by linarith
  then show ?thesis by cases (use bytes in \<open>simp_all add: is_cont_def\<close>)
qed

lemma mod_offset: "m * k \<le> x \<Longrightarrow> x < m * k + k \<Longrightarrow> x mod k = x - m * (k::nat)"
proof -
  assume *: "m * k \<le> x" "x < m * k + k"
  then have "x = (x - m * k) + m * k" by simp
  then have "x mod k = (x - m * k) mod k" by (metis mod_mult_self1)
  with * show ?thesis by simp
qed

lemma utf8_code_point_high:
  assumes "utf8_scan bs = (True, n)" "1 < n"
  shows "128 \<le> utf8_code_point bs n"
proof -
  let ?v = "\<lambda>i. byte_val (safe_get bs i)"
  have m32: "2 \<le> x mod 32" if "194 \<le> x" "x \<le> 223" for x :: nat
    using that mod_offset [of 6 32 x] by simp
  have m16: "1 \<le> x mod 16" if "225 \<le> x" "x \<le> 239" for x :: nat
    using that mod_offset [of 14 16 x] by simp
  have m8: "1 \<le> x mod 8" if "241 \<le> x" "x \<le> 244" for x :: nat
    using that mod_offset [of 30 8 x] by simp
  have m64: "16 \<le> x mod 64" if "144 \<le> x" "x \<le> 191" for x :: nat
    using that mod_offset [of 2 64 x] by simp
  from assms consider "n = 2" "194 \<le> ?v 0" "?v 0 \<le> 223"
    | "n = 3" "225 \<le> ?v 0" "?v 0 \<le> 239" | "n = 3" "144 \<le> ?v 1" "?v 1 \<le> 191"
    | "n = 4" "241 \<le> ?v 0" "?v 0 \<le> 244" | "n = 4" "144 \<le> ?v 1" "?v 1 \<le> 191"
    by (auto simp: utf8_scan_def Let_def between_def second_ok_def split: if_splits)
  then show ?thesis
  proof cases
    case 1
    with m32 [of "?v 0"] show ?thesis by (simp add: utf8_code_point_def Let_def)
  next
    case 2
    with m16 [of "?v 0"] show ?thesis by (simp add: utf8_code_point_def Let_def)
  next
    case 3
    with m64 [of "?v 1"] show ?thesis by (simp add: utf8_code_point_def Let_def)
  next
    case 4
    with m8 [of "?v 0"] show ?thesis by (simp add: utf8_code_point_def Let_def)
  next
    case 5
    with m64 [of "?v 1"] show ?thesis by (simp add: utf8_code_point_def Let_def)
  qed
qed

text \<open>Lossy decoding always yields valid text.\<close>

lemma utf8_valid_char:
  assumes "utf8_scan bs = (True, n)" "n \<le> length bs" "utf8_valid rest"
  shows "utf8_valid (take n bs @ rest)"
proof -
  from utf8_scan_pos [OF assms(1)] assms(2) obtain c cs where c: "take n bs @ rest = c # cs"
    by (cases "take n bs @ rest") auto
  have "safe_get (take n bs @ rest) i = safe_get bs i" if "i < n" for i
    using that assms(2) by (simp add: safe_get_def nth_append)
  from utf8_scan_cong(1) [OF assms(1) this] c have "utf8_scan (c # cs) = (True, n)" by simp
  moreover have "drop n (c # cs) = rest" using c [symmetric] assms(2) by simp
  ultimately show ?thesis using assms(3) c by simp
qed

lemma utf8_valid_replacement: "utf8_valid rest \<Longrightarrow> utf8_valid (replacement_char @ rest)"
  using utf8_valid_char [of replacement_char 3 rest]
  by (simp add: replacement_char_def utf8_scan_def safe_get_def between_def is_cont_def second_ok_def)

lemma utf8_valid_lossy: "utf8_valid (utf8_lossy bs)"
proof (induction bs rule: utf8_lossy.induct)
  case (2 b bs)
  obtain ok n where s: "utf8_scan (b # bs) = (ok, n)" by fastforce
  note IH = "2.IH" [OF s [symmetric]]
  show ?case
  proof (cases ok)
    case True
    with utf8_valid_char [of "b # bs" n] IH s utf8_scan_length [OF _ s] show ?thesis by simp
  next
    case False
    with IH s utf8_valid_replacement show ?thesis by simp
  qed
qed simp

section \<open>Trimming\<close>

text \<open>\<open>char::is_whitespace\<close>, and \<open>str::trim\<close> by characters.\<close>

definition is_whitespace :: "nat \<Rightarrow> bool" where
  "is_whitespace c \<longleftrightarrow>
     (9 \<le> c \<and> c \<le> 13) \<or> c = 0x20 \<or> c = 0x85 \<or> c = 0xA0 \<or> c = 0x1680 \<or> (0x2000 \<le> c \<and> c \<le> 0x200A) \<or>
     c = 0x2028 \<or> c = 0x2029 \<or> c = 0x202F \<or> c = 0x205F \<or> c = 0x3000"

function utf8_chunks :: "bytes \<Rightarrow> bytes list" where
  "utf8_chunks [] = []"
| "utf8_chunks (b # bs) =
     (case utf8_scan (b # bs) of (ok, n) \<Rightarrow> take n (b # bs) # utf8_chunks (drop n (b # bs)))"
  by pat_completeness auto
termination
  by (relation "measure length") (auto dest!: sym [THEN utf8_scan_pos])

definition whitespace_chunk :: "bytes \<Rightarrow> bool" where
  "whitespace_chunk chunk \<longleftrightarrow> is_whitespace (utf8_code_point chunk (length chunk))"

definition str_trim_start :: "bytes \<Rightarrow> bytes" where
  "str_trim_start s = concat (dropWhile whitespace_chunk (utf8_chunks s))"

definition str_trim_end :: "bytes \<Rightarrow> bytes" where
  "str_trim_end s = concat (rev (dropWhile whitespace_chunk (rev (utf8_chunks s))))"

definition str_trim :: "bytes \<Rightarrow> bytes" where
  "str_trim s = str_trim_start (str_trim_end s)"

lemma concat_utf8_chunks: "concat (utf8_chunks bs) = bs"
proof (induction bs rule: utf8_chunks.induct)
  case (2 b bs)
  obtain ok n where s: "utf8_scan (b # bs) = (ok, n)" by fastforce
  from "2.IH" [OF s [symmetric]] s have "concat (utf8_chunks (b # bs)) = take n (b # bs) @ drop n (b # bs)"
    by simp
  then show ?case by (simp only: append_take_drop_id)
qed simp

lemma utf8_chunks_ascii: "list_all (\<lambda>c. byte_val c < 128) s \<Longrightarrow> utf8_chunks s = map (\<lambda>c. [c]) s"
  by (induction s) (auto simp: utf8_scan_def safe_get_def)

lemma whitespace_chunk_ascii: "byte_val c < 128 \<Longrightarrow> whitespace_chunk [c] \<longleftrightarrow> is_whitespace (byte_val c)"
  by (simp add: whitespace_chunk_def utf8_code_point_def safe_get_def)

lemma str_trim_plain:
  assumes "list_all (\<lambda>c. byte_val c < 128 \<and> \<not> is_whitespace (byte_val c)) s"
  shows "str_trim s = s"
proof -
  have "list_all (\<lambda>c. byte_val c < 128) s" using assms by (auto simp: list_all_iff)
  note chunks = utf8_chunks_ascii [OF this]
  have plain: "\<forall>c \<in> set s. \<not> whitespace_chunk [c]"
    using assms by (auto simp: list_all_iff whitespace_chunk_ascii)
  then have "dropWhile whitespace_chunk (map (\<lambda>c. [c]) s) = map (\<lambda>c. [c]) s"
    "dropWhile whitespace_chunk (rev (map (\<lambda>c. [c]) s)) = rev (map (\<lambda>c. [c]) s)"
    by (cases s, simp_all) (cases "rev s", auto simp: rev_eq_Cons_iff rev_map)
  then show ?thesis
    by (simp add: str_trim_def str_trim_start_def str_trim_end_def chunks concat_map_singleton)
qed

lemma utf8_scan_inside: "utf8_scan bs = (ok, n) \<Longrightarrow> 0 < i \<Longrightarrow> i < n \<Longrightarrow> is_cont (safe_get bs i)"
proof -
  assume a: "utf8_scan bs = (ok, n)" "0 < i" "i < n"
  then consider "i = 1" | "i = 2" | "i = 3" using utf8_scan_pos [OF a(1)] by linarith
  then show ?thesis
    using a(1,3) by cases (auto simp: utf8_scan_def Let_def dest: second_ok_cont split: if_splits)
qed

lemma last_utf8_chunk: "bs \<noteq> [] \<Longrightarrow> byte_val (last bs) < 128 \<Longrightarrow> last (utf8_chunks bs) = [last bs]"
proof (induction bs rule: utf8_chunks.induct)
  case (2 b bs)
  obtain ok n where s: "utf8_scan (b # bs) = (ok, n)" by fastforce
  have n: "0 < n" "n \<le> length (b # bs)" using utf8_scan_pos [OF s] utf8_scan_length [OF _ s] by simp_all
  have chunks: "utf8_chunks (b # bs) = take n (b # bs) # utf8_chunks (drop n (b # bs))" using s by simp
  show ?case
  proof (cases "n < length (b # bs)")
    case True
    then have rest: "drop n (b # bs) \<noteq> []" "last (drop n (b # bs)) = last (b # bs)" by (simp_all add: last_drop)
    then have "utf8_chunks (drop n (b # bs)) \<noteq> []" using concat_utf8_chunks [of "drop n (b # bs)"] by force
    then show ?thesis
      using "2.IH" [OF s [symmetric]] "2.prems"(2) rest unfolding chunks by simp
  next
    case False
    have "n = 1"
    proof (rule ccontr)
      assume "n \<noteq> 1"
      then have "is_cont (safe_get (b # bs) (n - 1))" using n(1) by (intro utf8_scan_inside [OF s]) simp_all
      moreover have "safe_get (b # bs) (n - 1) = last (b # bs)" using False n by (simp add: safe_get_def last_conv_nth)
      ultimately show False using "2.prems"(2) by (simp add: is_cont_def)
    qed
    then show ?thesis using False n unfolding chunks by simp
  qed
qed simp

end
