(* ===== verification/Percent.thy ===== *)
theory Percent
  imports Utf8
begin

text \<open>
  Percent escapes in request paths (\<open>pingclair-core/src/percent.rs\<close>): decoding one path component
  into filename bytes, decoding a request target for matching, resolving a request path below a
  root directory, and encoding filename bytes back into a URI path. A \<open>PathBuf\<close> is the list of
  its bytes and \<open>PathBuf::push\<close> is \<open>path_push\<close>.
\<close>

unbundle bit_operations_syntax

section \<open>Operations\<close>

definition hex_digit :: "byte \<Rightarrow> u8 option" where
  "hex_digit b =
     (if 48 \<le> byte_val b \<and> byte_val b \<le> 57 then Some (u8_of b - u8_of (CHR ''0''))
      else if 97 \<le> byte_val b \<and> byte_val b \<le> 102 then Some (u8_of b - u8_of (CHR ''a'') + 10)
      else if 65 \<le> byte_val b \<and> byte_val b \<le> 70 then Some (u8_of b - u8_of (CHR ''A'') + 10)
      else None)"

text \<open>The window \<open>bytes[index..index + 3]\<close>, when it is a well-formed escape.\<close>

definition decoded_byte :: "bytes \<Rightarrow> nat \<Rightarrow> byte option" where
  "decoded_byte bs index =
     (if index + 3 \<le> length bs then
        (case take 3 (drop index bs) of
           [p, high, low] \<Rightarrow>
             if p = CHR ''%'' then
               (case hex_digit high of
                  None \<Rightarrow> None
                | Some h \<Rightarrow>
                    (case hex_digit low of
                       None \<Rightarrow> None
                     | Some l \<Rightarrow> Some (char_of (unat (push_bit 4 h OR l)))))
             else None
         | _ \<Rightarrow> None)
      else None)"

function decode_component_loop :: "bytes \<Rightarrow> nat \<Rightarrow> bytes \<Rightarrow> bool \<times> bytes" where
  "decode_component_loop bs index out =
     (if index < length bs then
        (case decoded_byte bs index of
           Some b \<Rightarrow>
             if b = CHR ''/'' \<or> b = CHR 0x5C \<or> b = CHR 0x00 then (False, out)
             else decode_component_loop bs (index + 3) (out @ [b])
         | None \<Rightarrow> decode_component_loop bs (index + 1) (out @ [bs ! index]))
      else (True, out))"
  by pat_completeness auto
termination
  by (relation "measure (\<lambda>(bs, index, out). length bs - index)") auto

declare decode_component_loop.simps [simp del]

definition decode_path_component :: "bytes \<Rightarrow> bytes \<Rightarrow> bool \<times> bytes" where
  "decode_path_component component out = decode_component_loop component 0 out"

function decode_matching_loop :: "bytes \<Rightarrow> nat \<Rightarrow> bytes \<Rightarrow> bytes" where
  "decode_matching_loop bs index decoded =
     (if index < length bs then
        (case decoded_byte bs index of
           Some b \<Rightarrow> decode_matching_loop bs (index + 3) (decoded @ [b])
         | None \<Rightarrow> decode_matching_loop bs (index + 1) (decoded @ [bs ! index]))
      else decoded)"
  by pat_completeness auto
termination
  by (relation "measure (\<lambda>(bs, index, decoded). length bs - index)") auto

declare decode_matching_loop.simps [simp del]

definition decode_for_matching :: "bytes \<Rightarrow> bytes" where
  "decode_for_matching target =
     (let (path, query) =
        (case split_once (CHR ''?'') target of
           Some (path, _) \<Rightarrow> (path, drop (length path) target)
         | None \<Rightarrow> (target, []))
      in if CHR ''%'' \<notin> set path then target
         else (let decoded = decode_matching_loop path 0 [] @ query
               in if utf8_valid decoded then decoded else utf8_lossy decoded))"

text \<open>\<open>PathBuf::push\<close> on Unix: an absolute argument replaces the buffer.\<close>

definition path_push :: "bytes \<Rightarrow> bytes \<Rightarrow> bytes" where
  "path_push p c =
     (if c \<noteq> [] \<and> hd c = CHR ''/'' then c
      else if p = [] \<or> last p = CHR ''/'' then p @ c
      else p @ CHR ''/'' # c)"

definition component_os_str :: "bytes \<Rightarrow> bytes option" where
  "component_os_str component = Some component"

fun resolve_components :: "bytes \<Rightarrow> bytes list \<Rightarrow> bytes option" where
  "resolve_components resolved [] = Some resolved"
| "resolve_components resolved (component # rest) =
     (if component = [] \<or> component = ''.'' then resolve_components resolved rest
      else if component = ''..'' then None
      else if CHR ''%'' \<notin> set component then
        resolve_components (path_push resolved component) rest
      else
        (case decode_path_component component [] of
           (False, _) \<Rightarrow> None
         | (True, decoded) \<Rightarrow>
             if decoded = [] \<or> decoded = ''.'' then resolve_components resolved rest
             else if decoded = ''..'' then None
             else (case component_os_str decoded of
                     None \<Rightarrow> None
                   | Some other \<Rightarrow> resolve_components (path_push resolved other) rest)))"

definition resolve_under_root :: "bytes \<Rightarrow> bytes \<Rightarrow> bytes option" where
  "resolve_under_root root path = resolve_components root (split_on (CHR ''/'') path)"

definition hex_upper :: bytes where
  "hex_upper = ''0123456789ABCDEF''"

definition push_encoded_byte :: "byte \<Rightarrow> bytes" where
  "push_encoded_byte b =
     (if is_ascii_alphanumeric b \<or> b \<in> set (''-._~/!$&'' @ [CHR 0x27] @ ''()*+,;=:@'')
      then [b]
      else [CHR ''%'', hex_upper ! unat (drop_bit 4 (u8_of b)),
            hex_upper ! unat ((u8_of b) AND 15)])"

fun push_encoded_path :: "bytes \<Rightarrow> bytes \<Rightarrow> bytes" where
  "push_encoded_path out [] = out"
| "push_encoded_path out (b # bs) = push_encoded_path (out @ push_encoded_byte b) bs"

definition path_bytes :: "bytes \<Rightarrow> bytes option" where
  "path_bytes path = Some path"

section \<open>One escape\<close>

lemma hex_upper_digit: "n < 16 \<Longrightarrow> hex_digit (hex_upper ! n) = Some (of_nat n)"
proof -
  assume "n < 16"
  then have "n \<in> set [0..<16]" by simp
  moreover have "list_all (\<lambda>n. hex_digit (hex_upper ! n) = Some (of_nat n)) [0..<16]"
    by code_simp
  ultimately show ?thesis by (simp add: list_all_iff)
qed

lemma nibbles: "push_bit 4 (drop_bit 4 w) OR (w AND 15) = (w :: u8)"
proof -
  have "(15 :: u8) = mask 4" by (simp add: mask_eq_exp_minus_1)
  then have "w AND 15 = take_bit 4 w" by (simp add: take_bit_eq_mask)
  then show ?thesis
    by (auto intro!: bit_word_eqI simp: bit_simps)
qed

lemma unat_high_nibble: "unat (drop_bit 4 (w :: u8)) < 16"
proof -
  have "unat w < 256" using unsigned_less [of w, where 'a = nat] by simp
  then show ?thesis by (subst unat_drop_bit_eq) (simp add: drop_bit_eq_div)
qed

lemma unat_low_nibble: "unat ((w :: u8) AND 15) < 16"
proof -
  have "w AND 15 \<le> 15" by (rule word_and_le1)
  then have "unat (w AND 15) \<le> unat (15 :: u8)" by (simp add: word_le_nat_alt)
  then show ?thesis by simp
qed

lemma char_of_byte [simp]: "char_of (unat (u8_of b)) = b"
  by (simp add: unat_of_nat)

text \<open>Every byte's escape, written with upper-case digits, is read back as that byte.\<close>

lemma decoded_byte_escape:
  "decoded_byte (pre @ CHR ''%'' # hex_upper ! unat (drop_bit 4 (u8_of b))
      # hex_upper ! unat ((u8_of b) AND 15) # suf) (length pre) = Some b"
  by (simp add: decoded_byte_def hex_upper_digit unat_high_nibble unat_low_nibble nibbles
      numeral_3_eq_3)

lemma decoded_byte_literal:
  "c \<noteq> CHR ''%'' \<Longrightarrow> decoded_byte (pre @ c # suf) (length pre) = None"
  by (auto simp: decoded_byte_def numeral_3_eq_3 split: list.splits)

lemma push_encoded_path_concat:
  "push_encoded_path out bs = out @ concat (map push_encoded_byte bs)"
  by (induction bs arbitrary: out) auto

lemma push_encoded_byte_cases:
  obtains "push_encoded_byte b = [b]" "b \<noteq> CHR ''%''"
  | "push_encoded_byte b = [CHR ''%'', hex_upper ! unat (drop_bit 4 (u8_of b)),
       hex_upper ! unat ((u8_of b) AND 15)]" "b \<noteq> CHR ''/''"
proof (cases "push_encoded_byte b = [b]")
  case True
  then have "b \<noteq> CHR ''%''"
    by (auto simp: push_encoded_byte_def is_ascii_alphanumeric_def is_ascii_uppercase_def
        is_ascii_lowercase_def is_ascii_digit_def)
  with True that(1) show ?thesis by blast
next
  case False
  with that(2) show ?thesis by (simp add: push_encoded_byte_def split: if_splits)
qed

section \<open>Round trips\<close>

lemma decode_component_loop_encoded:
  assumes "CHR 0x5C \<notin> set bs" "CHR 0x00 \<notin> set bs"
  shows "decode_component_loop (pre @ concat (map push_encoded_byte bs)) (length pre) out
    = (True, out @ bs)"
  using assms
proof (induction bs arbitrary: pre out)
  case Nil
  then show ?case by (simp add: decode_component_loop.simps)
next
  case (Cons b bs)
  let ?rest = "concat (map push_encoded_byte bs)"
  let ?enc = "push_encoded_byte b"
  have IH: "decode_component_loop ((pre @ ?enc) @ ?rest) (length (pre @ ?enc)) (out @ [b])
      = (True, (out @ [b]) @ bs)"
    using Cons.prems by (intro Cons.IH) auto
  show ?case
  proof (cases rule: push_encoded_byte_cases [of b])
    case 1
    with IH show ?thesis
      by (subst decode_component_loop.simps) (simp add: decoded_byte_literal)
  next
    case 2
    with IH Cons.prems show ?thesis
      by (subst decode_component_loop.simps)
        (auto simp: decoded_byte_escape numeral_3_eq_3)
  qed
qed

lemma decode_matching_loop_encoded:
  "decode_matching_loop (pre @ concat (map push_encoded_byte bs)) (length pre) out = out @ bs"
proof (induction bs arbitrary: pre out)
  case Nil
  then show ?case by (simp add: decode_matching_loop.simps)
next
  case (Cons b bs)
  let ?enc = "push_encoded_byte b"
  have IH: "decode_matching_loop ((pre @ ?enc) @ concat (map push_encoded_byte bs))
      (length (pre @ ?enc)) (out @ [b]) = (out @ [b]) @ bs"
    by (rule Cons.IH)
  show ?case
  proof (cases rule: push_encoded_byte_cases [of b])
    case 1
    with IH show ?thesis
      by (subst decode_matching_loop.simps) (simp add: decoded_byte_literal)
  next
    case 2
    with IH show ?thesis
      by (subst decode_matching_loop.simps) (auto simp: decoded_byte_escape numeral_3_eq_3)
  qed
qed

lemma hex_upper_range: "n < 16 \<Longrightarrow> is_ascii_alphanumeric (hex_upper ! n)"
proof -
  assume "n < 16"
  then have "n \<in> set [0..<16]" by simp
  moreover have "list_all (\<lambda>n. is_ascii_alphanumeric (hex_upper ! n)) [0..<16]"
    by code_simp
  ultimately show ?thesis by (simp add: list_all_iff)
qed

text \<open>The bytes an encoded path consists of: the URI-safe ones and \<open>%\<close>.\<close>

definition uri_path_byte :: "byte \<Rightarrow> bool" where
  "uri_path_byte b \<longleftrightarrow> b = CHR ''%'' \<or> is_ascii_alphanumeric b \<or>
     b \<in> set (''-._~/!$&'' @ [CHR 0x27] @ ''()*+,;=:@'')"

lemma push_encoded_byte_uri: "c \<in> set (push_encoded_byte b) \<Longrightarrow> uri_path_byte c"
  by (auto simp: push_encoded_byte_def uri_path_byte_def hex_upper_range unat_high_nibble
      unat_low_nibble split: if_splits)

lemma encoded_no_query: "CHR ''?'' \<notin> set (push_encoded_path [] bs)"
proof
  assume "CHR ''?'' \<in> set (push_encoded_path [] bs)"
  then have "uri_path_byte (CHR ''?'')"
    by (auto simp: push_encoded_path_concat dest: push_encoded_byte_uri)
  then show False
    by (simp add: uri_path_byte_def is_ascii_alphanumeric_def is_ascii_uppercase_def
        is_ascii_lowercase_def is_ascii_digit_def)
qed

lemma push_encoded_no_escape:
  "CHR ''%'' \<notin> set (push_encoded_path [] bs) \<Longrightarrow> push_encoded_path [] bs = bs"
proof -
  assume "CHR ''%'' \<notin> set (push_encoded_path [] bs)"
  then have "concat (map push_encoded_byte bs) = bs"
  proof (induction bs)
    case (Cons b bs)
    from Cons.prems have "CHR ''%'' \<notin> set (push_encoded_byte b)"
      by (simp add: push_encoded_path_concat)
    then have "push_encoded_byte b = [b]"
      by (cases rule: push_encoded_byte_cases [of b]) auto
    with Cons show ?case by (simp add: push_encoded_path_concat)
  qed simp
  then show ?thesis by (simp add: push_encoded_path_concat)
qed

section \<open>Containment below a root\<close>

text \<open>What one component of a resolved path may be: no traversal, no separator.\<close>

definition safe_component :: "bytes \<Rightarrow> bool" where
  "safe_component c \<longleftrightarrow> c \<noteq> [] \<and> c \<noteq> ''.'' \<and> c \<noteq> ''..'' \<and> CHR ''/'' \<notin> set c"

lemma decode_component_loop_no_slash:
  "decode_component_loop bs index out = (ok, decoded) \<Longrightarrow>
    CHR ''/'' \<notin> set bs \<Longrightarrow> CHR ''/'' \<notin> set out \<Longrightarrow> CHR ''/'' \<notin> set decoded"
proof (induction bs index out rule: decode_component_loop.induct)
  case (1 bs index out)
  show ?case
  proof (cases "index < length bs")
    case True
    then have "bs ! index \<noteq> CHR ''/''"
      using "1.prems"(2) nth_mem by metis
    with True "1" show ?thesis
      by (subst (asm) (3) decode_component_loop.simps)
        (auto split: option.splits if_splits)
  next
    case False
    with "1.prems" show ?thesis by (simp add: decode_component_loop.simps)
  qed
qed

lemma path_push_safe: "safe_component c \<Longrightarrow> prefix p (path_push p c)"
  by (cases c) (auto simp: path_push_def safe_component_def)

lemma decode_path_component_no_slash:
  "decode_path_component c [] = (ok, decoded) \<Longrightarrow> CHR ''/'' \<notin> set c \<Longrightarrow> CHR ''/'' \<notin> set decoded"
  by (auto simp: decode_path_component_def dest: decode_component_loop_no_slash)

text \<open>One step of the resolution either skips the component or pushes a safe one.\<close>

lemma resolve_components_step:
  assumes "resolve_components resolved (c # rest) = Some p" "CHR ''/'' \<notin> set c"
  shows "resolve_components resolved rest = Some p \<or>
    (\<exists>d. safe_component d \<and> resolve_components (path_push resolved d) rest = Some p)"
proof -
  consider (skip) "c = [] \<or> c = ''.''" | (plain) "c \<notin> {[], ''.'', ''..''}" "CHR ''%'' \<notin> set c"
    | (esc) "c \<notin> {[], ''.'', ''..''}" "CHR ''%'' \<in> set c"
    using assms(1) by (cases "c = ''..''") auto
  then show ?thesis
  proof cases
    case skip
    with assms(1) show ?thesis by auto
  next
    case plain
    with assms have "safe_component c" "resolve_components (path_push resolved c) rest = Some p"
      by (auto simp: safe_component_def)
    then show ?thesis by blast
  next
    case esc
    obtain ok d where d: "decode_path_component c [] = (ok, d)" by fastforce
    with assms(2) have "CHR ''/'' \<notin> set d" by (rule decode_path_component_no_slash [rotated])
    with d esc assms(1) show ?thesis
      by (cases ok)
        (auto simp: component_os_str_def safe_component_def split: if_splits)
  qed
qed

lemma resolve_components_safe:
  "resolve_components root cs = Some p \<Longrightarrow> (\<forall>c \<in> set cs. CHR ''/'' \<notin> set c) \<Longrightarrow>
    \<exists>comps. p = foldl path_push root comps \<and> list_all safe_component comps"
proof (induction cs arbitrary: root)
  case Nil
  then show ?case by (auto intro!: exI [of _ "[]"])
next
  case (Cons c cs)
  from Cons.prems have "CHR ''/'' \<notin> set c" by simp
  from resolve_components_step [OF Cons.prems(1) this] show ?case
  proof
    assume "resolve_components root cs = Some p"
    with Cons show ?thesis by simp
  next
    assume "\<exists>d. safe_component d \<and> resolve_components (path_push root d) cs = Some p"
    then obtain d where d: "safe_component d" "resolve_components (path_push root d) cs = Some p"
      by blast
    with Cons obtain comps where "p = foldl path_push (path_push root d) comps"
      "list_all safe_component comps" by fastforce
    with d show ?thesis by (auto intro!: exI [of _ "d # comps"])
  qed
qed

lemma foldl_path_push_prefix:
  "list_all safe_component comps \<Longrightarrow> prefix root (foldl path_push root comps)"
proof (induction comps arbitrary: root)
  case Nil
  then show ?case by simp
next
  case (Cons c comps)
  then have "prefix (path_push root c) (foldl path_push (path_push root c) comps)" by simp
  with Cons.prems show ?case
    using path_push_safe [of c root] by (auto intro: prefix_order.trans)
qed

lemma encoded_no_slash:
  "CHR ''/'' \<notin> set bs \<Longrightarrow> CHR ''/'' \<notin> set (push_encoded_path [] bs)"
proof -
  have "CHR ''/'' \<in> set (push_encoded_byte b) \<Longrightarrow> b = CHR ''/''" for b
  proof (cases rule: push_encoded_byte_cases [of b])
    case 2
    assume "CHR ''/'' \<in> set (push_encoded_byte b)"
    with 2 have "is_ascii_alphanumeric (CHR ''/'')"
      using hex_upper_range [OF unat_high_nibble, of "u8_of b"]
        hex_upper_range [OF unat_low_nibble, of "u8_of b"]
      by auto
    then show ?thesis
      by (simp add: is_ascii_alphanumeric_def is_ascii_uppercase_def is_ascii_lowercase_def
          is_ascii_digit_def)
  qed auto
  then show "CHR ''/'' \<notin> set bs \<Longrightarrow> CHR ''/'' \<notin> set (push_encoded_path [] bs)"
    by (auto simp: push_encoded_path_concat)
qed

lemma decode_encoded_component:
  "CHR 0x5C \<notin> set bs \<Longrightarrow> CHR 0x00 \<notin> set bs \<Longrightarrow>
    decode_path_component (push_encoded_path [] bs) [] = (True, bs)"
  using decode_component_loop_encoded [of bs "[]" "[]"]
  by (simp add: decode_path_component_def push_encoded_path_concat)

lemma resolve_components_refuses:
  assumes "c \<in> set cs" "c \<noteq> []" "c \<noteq> ''.''"
    and "c = ''..'' \<or> CHR ''%'' \<in> set c \<and>
      (\<exists>ok d. decode_path_component c [] = (ok, d) \<and> (\<not> ok \<or> d = ''..''))"
  shows "resolve_components resolved cs = None"
  using assms(1)
proof (induction cs arbitrary: resolved)
  case Nil
  then show ?case by simp
next
  case (Cons x cs)
  show ?case
  proof (cases "x = c")
    case True
    with assms(2-4) show ?thesis by (auto split: bool.splits)
  next
    case False
    with Cons have "resolve_components r cs = None" for r by simp
    then show ?thesis by (auto split: prod.splits bool.splits option.splits)
  qed
qed

lemma utf8_valid_decode: "utf8_valid target \<Longrightarrow> utf8_valid (decode_for_matching target)"
  by (auto simp: decode_for_matching_def Let_def utf8_valid_lossy split: prod.splits)

section \<open>Properties\<close>

text \<open>
  C2: A request path that resolves below a root stays below it. The result is the root followed by
  pushed components, none of which is empty, a dot segment, absolute or contains a separator, so
  the root is a prefix of every resolved path.
\<close>

theorem resolve_under_root_contained:
  assumes "resolve_under_root root path = Some p"
  shows "prefix root p \<and>
    (\<exists>comps. p = foldl path_push root comps \<and> list_all safe_component comps)"
proof -
  have "\<forall>c \<in> set (split_on (CHR ''/'') path). CHR ''/'' \<notin> set c"
    using split_on_pieces by fastforce
  then obtain comps where "p = foldl path_push root comps" "list_all safe_component comps"
    using assms resolve_components_safe unfolding resolve_under_root_def by blast
  then show ?thesis using foldl_path_push_prefix by blast
qed

theorem resolve_under_root_contained_witness:
  "resolve_under_root ''/srv'' ''/a%20b//./c'' = Some ''/srv/a b/c'' \<and>
    prefix ''/srv'' ''/srv/a b/c'' \<and>
    (\<exists>comps. ''/srv/a b/c'' = foldl path_push ''/srv'' comps \<and> list_all safe_component comps)"
proof -
  have "resolve_under_root ''/srv'' ''/a%20b//./c'' = Some ''/srv/a b/c''"
    by code_simp
  from resolve_under_root_contained [OF this] this show ?thesis by blast
qed

text \<open>
  Every spelling of a climb is refused. If one component of the path is \<open>..\<close>, or carries an
  escape and decodes to \<open>..\<close>, to a separator or to a NUL, the whole path names no file.
\<close>

theorem resolve_under_root_refuses:
  assumes "c \<in> set (split_on (CHR ''/'') path)"
    and "c = ''..'' \<or> CHR ''%'' \<in> set c \<and>
      (\<not> fst (decode_path_component c []) \<or> snd (decode_path_component c []) = ''..'')"
  shows "resolve_under_root root path = None"
  unfolding resolve_under_root_def
  using assms by (intro resolve_components_refuses [of c]) (auto simp: prod_eq_iff)

theorem resolve_under_root_refuses_witness:
  "''%2e%2E'' \<in> set (split_on (CHR ''/'') ''/a/%2e%2E/b'') \<and>
    snd (decode_path_component ''%2e%2E'' []) = ''..'' \<and>
    resolve_under_root ''/srv'' ''/a/%2e%2E/b'' = None"
proof -
  have m: "''%2e%2E'' \<in> set (split_on (CHR ''/'') ''/a/%2e%2E/b'')" by simp
  have d: "snd (decode_path_component ''%2e%2E'' []) = ''..''" by code_simp
  from m d resolve_under_root_refuses [OF m, of "''/srv''"] show ?thesis by simp
qed

text \<open>
  C39: A filename survives the trip through a URL. Encoding the bytes of a name (any bytes but
  separators and NUL) as a URI path and resolving that path below a root asks the filesystem for
  exactly that name in the root.
\<close>

theorem encoded_name_resolves_to_itself:
  assumes "safe_component name" "CHR 0x5C \<notin> set name" "CHR 0x00 \<notin> set name"
  shows "resolve_under_root root (push_encoded_path [] name) = Some (path_push root name)"
proof -
  let ?enc = "push_encoded_path [] name"
  have dec: "decode_path_component ?enc [] = (True, name)"
    using assms decode_encoded_component by blast
  have split: "split_on (CHR ''/'') ?enc = [?enc]"
    using assms(1) by (intro split_on_no_sep encoded_no_slash) (simp add: safe_component_def)
  show ?thesis
  proof (cases "CHR ''%'' \<in> set ?enc")
    case True
    with dec split assms(1) show ?thesis
      by (auto simp: resolve_under_root_def safe_component_def component_os_str_def)
  next
    case False
    then have "?enc = name" by (rule push_encoded_no_escape)
    with False split assms(1) show ?thesis
      by (simp add: resolve_under_root_def safe_component_def)
  qed
qed

theorem encoded_name_resolves_to_itself_witness:
  "push_encoded_path [] (''caf'' @ [CHR 0xE9] @ ''%41.js'') = ''caf%E9%2541.js'' \<and>
    resolve_under_root ''/srv'' (push_encoded_path [] (''caf'' @ [CHR 0xE9] @ ''%41.js''))
      = Some (path_push ''/srv'' (''caf'' @ [CHR 0xE9] @ ''%41.js''))"
proof -
  have "push_encoded_path [] (''caf'' @ [CHR 0xE9] @ ''%41.js'') = ''caf%E9%2541.js''"
    by code_simp
  moreover have "safe_component (''caf'' @ [CHR 0xE9] @ ''%41.js'')"
    by (simp add: safe_component_def)
  ultimately show ?thesis
    using encoded_name_resolves_to_itself [of "''caf'' @ [CHR 0xE9] @ ''%41.js''" "''/srv''"]
    by simp
qed

end
