(* ===== verification/Star_Scan.thy ===== *)
theory Star_Scan
  imports Prelude
begin

text \<open>
  Two scanners of the program match a pattern with \<open>*\<close> against a text by remembering only the most
  recent star and retrying from there: \<open>segment_glob\<close> (\<open>path_pattern.rs\<close>) over bytes and
  \<open>Glob::matches\<close> (\<open>file_glob.rs\<close>) over characters of varying width. Their contract is one locale:
  the step equation of the scan and how the text is read unit by unit. The lemma proved in it is
  that the scan always returns and decides the declarative matching relation \<open>star_match\<close>.
\<close>

text \<open>The declarative relation: a star stands for any run of units, another token for one.\<close>

fun star_match :: "('t \<Rightarrow> bool) \<Rightarrow> ('t \<Rightarrow> 'u \<Rightarrow> bool) \<Rightarrow> 't list \<Rightarrow> 'u list \<Rightarrow> bool" where
  "star_match st fit [] us = (us = [])"
| "star_match st fit (t # ts) us =
     (if st t then
        star_match st fit ts us \<or> (case us of [] \<Rightarrow> False | u # us' \<Rightarrow> star_match st fit (t # ts) us')
      else (case us of [] \<Rightarrow> False | u # us' \<Rightarrow> fit t u \<and> star_match st fit ts us'))"

lemma star_match_star:
  "st t \<Longrightarrow> star_match st fit (t # ts) us \<longleftrightarrow> (\<exists>k \<le> length us. star_match st fit ts (drop k us))"
proof (induction us)
  case Nil
  then show ?case by simp
next
  case (Cons u us)
  have "(\<exists>k \<le> length (u # us). star_match st fit ts (drop k (u # us))) \<longleftrightarrow>
      star_match st fit ts (u # us) \<or> (\<exists>k \<le> length us. star_match st fit ts (drop k us))"
    (is "?L \<longleftrightarrow> ?R")
  proof
    assume ?L
    then obtain k where k: "k \<le> Suc (length us)" "star_match st fit ts (drop k (u # us))" by auto
    then show ?R by (cases k) auto
  next
    assume ?R
    then show ?L by (metis Suc_le_mono drop0 drop_Suc_Cons le0 length_Cons)
  qed
  with Cons show ?case by simp
qed

lemma star_match_Nil_text: "star_match st fit ts [] \<longleftrightarrow> list_all st ts"
  by (induction ts) auto

lemma star_match_literals:
  "list_all (\<lambda>t. \<not> st t) seg \<Longrightarrow> star_match st fit (seg @ ts) us \<Longrightarrow>
    length seg \<le> length us \<and> star_match st fit ts (drop (length seg) us)"
proof (induction seg arbitrary: us)
  case (Cons t seg)
  then show ?case by (cases us) auto
qed simp

locale star_scanner =
  fixes is_star :: "'t \<Rightarrow> bool"
    and fits :: "'t \<Rightarrow> 'u \<Rightarrow> bool"
    and fin :: "'s \<Rightarrow> bool"
    and unit_of :: "'s \<Rightarrow> 'u"
    and rest :: "'s \<Rightarrow> 's"
    and units :: "'s \<Rightarrow> 'u list"
    and scan :: "'t list \<Rightarrow> 's \<Rightarrow> ('t list \<times> 's) option \<Rightarrow> bool option"
  assumes units_fin: "fin s \<Longrightarrow> units s = []"
    and units_step: "\<not> fin s \<Longrightarrow> units s = unit_of s # units (rest s)"
    and scan_end: "fin s \<Longrightarrow> scan ts s star = Some (list_all is_star ts)"
    and scan_star: "\<not> fin s \<Longrightarrow> is_star t \<Longrightarrow> scan (t # ts) s star = scan ts s (Some (ts, s))"
    and scan_fits: "\<not> fin s \<Longrightarrow> \<not> is_star t \<Longrightarrow> fits t (unit_of s) \<Longrightarrow>
      scan (t # ts) s star = scan ts (rest s) star"
    and scan_retry: "\<not> fin s \<Longrightarrow> ts = [] \<or> \<not> is_star (hd ts) \<and> \<not> fits (hd ts) (unit_of s) \<Longrightarrow>
      scan ts s (Some (ps, ss)) = scan ps (rest ss) (Some (ps, rest ss))"
    and scan_fail: "\<not> fin s \<Longrightarrow> ts = [] \<or> \<not> is_star (hd ts) \<and> \<not> fits (hd ts) (unit_of s) \<Longrightarrow>
      scan ts s None = Some False"
begin

abbreviation matches_units :: "'t list \<Rightarrow> 'u list \<Rightarrow> bool" where
  "matches_units \<equiv> star_match is_star fits"

text \<open>
  What the remembered star can still achieve, and how it relates to the current position: the
  tokens since the star are no stars and have consumed one unit each.
\<close>

fun retries :: "('t list \<times> 's) option \<Rightarrow> bool" where
  "retries None = False"
| "retries (Some (ps, ss)) =
     (\<exists>k \<le> length (units ss). 0 < k \<and> matches_units ps (drop k (units ss)))"

fun since_star :: "'t list \<Rightarrow> 's \<Rightarrow> ('t list \<times> 's) option \<Rightarrow> bool" where
  "since_star ts s None = True"
| "since_star ts s (Some (ps, ss)) =
     (\<exists>seg. ps = seg @ ts \<and> list_all (\<lambda>t. \<not> is_star t) seg \<and>
        length seg \<le> length (units ss) \<and> units s = drop (length seg) (units ss))"

lemma retries_end:
  assumes "since_star ts s star" "units s = []"
  shows "\<not> retries star"
proof (cases star)
  case (Some a)
  obtain ps ss where a: "a = (ps, ss)" by fastforce
  with assms Some obtain seg where seg: "ps = seg @ ts" "list_all (\<lambda>t. \<not> is_star t) seg"
    "length (units ss) \<le> length seg" by auto
  have "\<not> matches_units ps (drop k (units ss))" if "k \<le> length (units ss)" "0 < k" for k
  proof
    assume "matches_units ps (drop k (units ss))"
    with seg have "length seg \<le> length (drop k (units ss))"
      using star_match_literals [of is_star seg fits ts "drop k (units ss)"] by simp
    with that seg(3) show False by simp
  qed
  with Some a show ?thesis by auto
qed simp

lemma retries_subsumed:
  assumes "since_star (t # ts) s star" "is_star t" "retries star"
  shows "matches_units (t # ts) (units s)"
proof -
  from assms(3) obtain ps ss where star: "star = Some (ps, ss)"
    by (cases star) auto
  from assms(1) star obtain seg where seg: "ps = seg @ t # ts" "list_all (\<lambda>t. \<not> is_star t) seg"
    "units s = drop (length seg) (units ss)" by auto
  from assms(3) star obtain k where k: "k \<le> length (units ss)" "matches_units ps (drop k (units ss))"
    by auto
  with seg have l: "length seg \<le> length (drop k (units ss))"
    and m: "matches_units (t # ts) (drop (length seg) (drop k (units ss)))"
    using star_match_literals [of is_star seg fits "t # ts" "drop k (units ss)"] by simp_all
  from m have "matches_units (t # ts) (drop k (units s))"
    by (simp add: seg(3) add.commute)
  then obtain j where j: "j \<le> length (drop k (units s))" "matches_units ts (drop j (drop k (units s)))"
    using star_match_star [of is_star t fits ts "drop k (units s)"] assms(2) by blast
  from l have "k \<le> length (units s)" using k(1) by (simp add: seg(3))
  with j have "j + k \<le> length (units s)" "matches_units ts (drop (j + k) (units s))"
    by (simp_all add: add.commute)
  then show ?thesis using star_match_star [of is_star t fits ts "units s"] assms(2) by blast
qed

lemma retries_or_now:
  "matches_units ps (units ss) \<or> retries (Some (ps, ss)) \<longleftrightarrow>
    (\<exists>k \<le> length (units ss). matches_units ps (drop k (units ss)))"
proof
  assume "matches_units ps (units ss) \<or> retries (Some (ps, ss))"
  then show "\<exists>k \<le> length (units ss). matches_units ps (drop k (units ss))"
  proof
    assume "matches_units ps (units ss)"
    then show ?thesis by (intro exI [of _ 0]) simp
  qed auto
next
  assume "\<exists>k \<le> length (units ss). matches_units ps (drop k (units ss))"
  then obtain k where "k \<le> length (units ss)" "matches_units ps (drop k (units ss))" by blast
  then show "matches_units ps (units ss) \<or> retries (Some (ps, ss))" by (cases k) auto
qed

lemma retries_step:
  assumes "\<not> fin ss"
  shows "retries (Some (ps, ss)) \<longleftrightarrow>
    matches_units ps (units (rest ss)) \<or> retries (Some (ps, rest ss))"
proof -
  have u: "units ss = unit_of ss # units (rest ss)" using assms by (rule units_step)
  have "retries (Some (ps, ss)) \<longleftrightarrow>
      (\<exists>j \<le> length (units (rest ss)). matches_units ps (drop (Suc j) (units ss)))"
  proof
    assume "retries (Some (ps, ss))"
    then obtain k where k: "k \<le> length (units ss)" "0 < k" "matches_units ps (drop k (units ss))"
      by auto
    then obtain j where "k = Suc j" by (cases k) auto
    with k u show "\<exists>j \<le> length (units (rest ss)). matches_units ps (drop (Suc j) (units ss))" by auto
  next
    assume "\<exists>j \<le> length (units (rest ss)). matches_units ps (drop (Suc j) (units ss))"
    then obtain j where "j \<le> length (units (rest ss))" "matches_units ps (drop (Suc j) (units ss))"
      by blast
    then show "retries (Some (ps, ss))" by (auto simp: u intro!: exI [of _ "Suc j"])
  qed
  also have "\<dots> \<longleftrightarrow> (\<exists>j \<le> length (units (rest ss)). matches_units ps (drop j (units (rest ss))))"
    by (simp add: u)
  finally show ?thesis by (simp only: retries_or_now)
qed

definition scan_order :: "(('t list \<times> 's \<times> ('t list \<times> 's) option) \<times> _) set" where
  "scan_order = measures
     [\<lambda>(ts, s, star). case star of None \<Rightarrow> Suc (length ts) | Some (ps, ss) \<Rightarrow> length ps,
      \<lambda>(ts, s, star). case star of None \<Rightarrow> 0 | Some (ps, ss) \<Rightarrow> length (units ss),
      \<lambda>(ts, s, star). length (units s)]"

lemma wf_scan_order: "wf scan_order"
  by (simp add: scan_order_def)

lemma scan_correct:
  "since_star ts s star \<Longrightarrow> scan ts s star = Some (matches_units ts (units s) \<or> retries star)"
proof (induction "(ts, s, star)" arbitrary: ts s star rule: wf_induct_rule [OF wf_scan_order])
  case (1 ts s star)
  note IH = "1.hyps" and inv = "1.prems"
  consider (stop) "fin s" | (star) t ts' where "\<not> fin s" "ts = t # ts'" "is_star t"
    | (fit) t ts' where "\<not> fin s" "ts = t # ts'" "\<not> is_star t" "fits t (unit_of s)"
    | (miss) "\<not> fin s" "ts = [] \<or> \<not> is_star (hd ts) \<and> \<not> fits (hd ts) (unit_of s)"
    by (cases ts) auto
  then show ?case
  proof cases
    case stop
    then show ?thesis
      using inv retries_end by (simp add: scan_end units_fin star_match_Nil_text)
  next
    case star
    have "scan ts' s (Some (ts', s)) =
        Some (matches_units ts' (units s) \<or> retries (Some (ts', s)))"
      using star inv by (intro IH) (auto simp: scan_order_def split: option.splits)
    moreover have "matches_units ts' (units s) \<or> retries (Some (ts', s)) \<longleftrightarrow>
        matches_units (t # ts') (units s)"
      by (simp only: retries_or_now star_match_star [of is_star t fits ts' "units s", OF star(3)])
    moreover have "matches_units (t # ts') (units s) \<or> retries star \<longleftrightarrow>
        matches_units (t # ts') (units s)"
      using star inv retries_subsumed by blast
    moreover have "scan ts s star = scan ts' s (Some (ts', s))"
      using scan_star [OF star(1,3)] star(2) by simp
    ultimately show ?thesis
      by (simp only: star(2))
  next
    case fit
    have "since_star ts' (rest s) star"
    proof (cases star)
      case (Some a)
      obtain ps ss where "a = (ps, ss)" by fastforce
      with Some inv fit obtain seg where seg: "ps = seg @ t # ts'"
        "list_all (\<lambda>t. \<not> is_star t) seg" "units s = drop (length seg) (units ss)" by auto
      from seg(3) units_step [OF fit(1)]
      have d: "drop (length seg) (units ss) = unit_of s # units (rest s)" by simp
      then have "length seg < length (units ss)" by (cases "length seg < length (units ss)") auto
      moreover from d have "units (rest s) = tl (drop (length seg) (units ss))" by simp
      then have "units (rest s) = drop (length (seg @ [t])) (units ss)"
        by (simp add: drop_Suc tl_drop)
      ultimately have "units (rest s) = drop (length (seg @ [t])) (units ss)"
        "length (seg @ [t]) \<le> length (units ss)" by simp_all
      with seg fit Some \<open>a = (ps, ss)\<close> show ?thesis
        by (auto intro!: exI [of _ "seg @ [t]"])
    qed simp
    then have "scan ts' (rest s) star = Some (matches_units ts' (units (rest s)) \<or> retries star)"
      using fit by (intro IH) (auto simp: scan_order_def units_step split: option.splits)
    with fit show ?thesis by (simp add: scan_fits units_step)
  next
    case miss
    then have no: "\<not> matches_units ts (units s)"
      by (cases ts) (auto simp: units_step)
    show ?thesis
    proof (cases star)
      case None
      with miss no show ?thesis by (simp add: scan_fail)
    next
      case (Some a)
      obtain ps ss where a: "a = (ps, ss)" by fastforce
      with Some inv miss have ne: "units ss \<noteq> []" by (auto simp: units_step)
      then have nf: "\<not> fin ss" using units_fin by blast
      have "scan ps (rest ss) (Some (ps, rest ss)) =
          Some (matches_units ps (units (rest ss)) \<or> retries (Some (ps, rest ss)))"
        using Some a nf by (intro IH) (auto simp: scan_order_def units_step intro!: exI [of _ "[]"])
      moreover have "scan ts s star = scan ps (rest ss) (Some (ps, rest ss))"
        using scan_retry [OF miss, of ps ss] Some a by simp
      ultimately show ?thesis
        using no Some a retries_step [OF nf, of ps] by (simp only:) simp
    qed
  qed
qed

text \<open>From the start, with no star remembered, the scan decides the relation.\<close>

lemma scan_decides: "scan ts s None = Some (matches_units ts (units s))"
  by (simp add: scan_correct)

end

end
