(* ===== verification/File_Glob.thy ===== *)
theory File_Glob
  imports Percent Star_Scan "HOL-Library.List_Lexorder"
begin

text \<open>
  Expanding a \<open>file\<close> matcher glob against the filesystem
  (\<open>pingclair-core/src/server/file_glob.rs\<close>): the compiled component pattern and its byte-wise
  matcher, and the bounded directory walk. A Rust \<open>char\<close> is its code point. The filesystem is a
  parameter: what \<open>metadata\<close> and \<open>read_dir\<close> answer for a path.
\<close>

section \<open>Compiled component patterns\<close>

datatype token =
    TStar
  | TOne
  | TLiteral nat
  | TSet bool "(nat \<times> nat) list"

definition has_meta :: "bytes \<Rightarrow> bool" where
  "has_meta component \<longleftrightarrow>
     list_ex (\<lambda>b. b = CHR ''*'' \<or> b = CHR ''?'' \<or> b = CHR ''['') component"

function find_close :: "bytes \<Rightarrow> nat \<Rightarrow> nat option" where
  "find_close pattern index =
     (if index < length pattern then
        (if pattern ! index = CHR '']'' then Some (index + 1) else find_close pattern (index + 1))
      else None)"
  by pat_completeness auto
termination
  by (relation "measure (\<lambda>(pattern, index). length pattern - index)") auto

declare find_close.simps [simp del]

definition byte_at :: "bytes \<Rightarrow> nat \<Rightarrow> byte option" where
  "byte_at bs i = (if i < length bs then Some (bs ! i) else None)"

definition class_end :: "bytes \<Rightarrow> nat \<Rightarrow> nat option" where
  "class_end pattern opening =
     (let index = opening + 1;
          index = (if byte_at pattern index = Some (CHR ''!'') then index + 1 else index);
          index = (if byte_at pattern index = Some (CHR '']'') then index + 1 else index)
      in find_close pattern index)"

fun set_ranges :: "nat list \<Rightarrow> (nat \<times> nat) list" where
  "set_ranges (a # d # b # members) =
     (if d = byte_val (CHR ''-'') then (a, b) # set_ranges members
      else (a, a) # set_ranges (d # b # members))"
| "set_ranges (a # members) = (a, a) # set_ranges members"
| "set_ranges [] = []"

definition parse_set :: "bytes \<Rightarrow> token" where
  "parse_set body =
     (let (negated, body) =
        (case strip_prefix ''!'' body of Some rest \<Rightarrow> (True, rest) | None \<Rightarrow> (False, body))
      in TSet negated (set_ranges (chars_of body)))"

lemma find_close_gt: "find_close pattern index = Some e \<Longrightarrow> index < e"
proof (induction pattern index rule: find_close.induct)
  case (1 pattern index)
  then show ?case by (subst (asm) (2) find_close.simps) (auto split: if_splits)
qed

lemma class_end_gt: "class_end pattern opening = Some e \<Longrightarrow> opening + 1 < e"
  by (auto simp: class_end_def Let_def dest!: find_close_gt split: if_splits)

function glob_compile_loop :: "bytes \<Rightarrow> nat \<Rightarrow> token list \<Rightarrow> token list option" where
  "glob_compile_loop pattern index tokens =
     (if index < length pattern then
        (if pattern ! index = CHR ''*'' then
           glob_compile_loop pattern (index + 1) (tokens @ [TStar])
         else if pattern ! index = CHR ''?'' then
           glob_compile_loop pattern (index + 1) (tokens @ [TOne])
         else if pattern ! index = CHR ''['' then
           (case class_end pattern index of
              None \<Rightarrow> None
            | Some e \<Rightarrow>
                glob_compile_loop pattern e
                  (tokens @ [parse_set (take (e - 1 - (index + 1)) (drop (index + 1) pattern))]))
         else
           (case utf8_scan (drop index pattern) of (_, width) \<Rightarrow>
              glob_compile_loop pattern (index + width)
                (tokens @ [TLiteral (utf8_code_point (drop index pattern) width)])))
      else Some tokens)"
  by pat_completeness auto
termination
  by (relation "measure (\<lambda>(pattern, index, tokens). length pattern - index)")
    (auto dest!: class_end_gt sym [THEN utf8_scan_pos])

declare glob_compile_loop.simps [simp del]

definition glob_compile :: "bytes \<Rightarrow> token list option" where
  "glob_compile pattern = glob_compile_loop pattern 0 []"

section \<open>Matching one name\<close>

definition next_unit :: "bytes \<Rightarrow> nat option \<times> nat" where
  "next_unit bs =
     (let width =
        (case bs of
           [] \<Rightarrow> None
         | b # _ \<Rightarrow>
             if byte_val b \<le> 0x7F then Some 1
             else if 0xC0 \<le> byte_val b \<and> byte_val b \<le> 0xDF then Some 2
             else if 0xE0 \<le> byte_val b \<and> byte_val b \<le> 0xEF then Some 3
             else if 0xF0 \<le> byte_val b \<and> byte_val b \<le> 0xF7 then Some 4
             else None)
      in case width of
           None \<Rightarrow> (None, 1)
         | Some w \<Rightarrow>
             if w \<le> length bs \<and> utf8_valid (take w bs)
             then (case chars_of (take w bs) of [] \<Rightarrow> None | c # _ \<Rightarrow> Some c, w)
             else (None, 1))"

fun token_fits :: "token \<Rightarrow> nat option \<Rightarrow> bool" where
  "token_fits TStar u = False"
| "token_fits TOne u = True"
| "token_fits (TLiteral literal) u = (u = Some literal)"
| "token_fits (TSet negated ranges) u =
     (case u of
        None \<Rightarrow> negated
      | Some c \<Rightarrow> list_ex (\<lambda>(low, high). low \<le> c \<and> c \<le> high) ranges \<noteq> negated)"

definition is_star :: "token \<Rightarrow> bool" where
  "is_star t \<longleftrightarrow> t = TStar"

partial_function (option) glob_matches_loop ::
    "token list \<Rightarrow> bytes \<Rightarrow> (token list \<times> bytes) option \<Rightarrow> bool option" where
  "glob_matches_loop tokens name star =
     (if name \<noteq> [] then
        (if tokens \<noteq> [] \<and> hd tokens = TStar then
           glob_matches_loop (tl tokens) name (Some (tl tokens, name))
         else if tokens \<noteq> [] \<and> token_fits (hd tokens) (fst (next_unit name)) then
           glob_matches_loop (tl tokens) (drop (snd (next_unit name)) name) star
         else (case star of
                 Some (star_t, star_n) \<Rightarrow>
                   glob_matches_loop star_t (drop (snd (next_unit star_n)) star_n)
                     (Some (star_t, drop (snd (next_unit star_n)) star_n))
               | None \<Rightarrow> Some False))
      else Some (list_all is_star tokens))"

definition glob_matches :: "token list \<Rightarrow> bytes \<Rightarrow> bool" where
  "glob_matches tokens name =
     (case glob_matches_loop tokens name None of Some result \<Rightarrow> result | None \<Rightarrow> False)"

definition component_glob_new :: "bytes \<Rightarrow> token list option" where
  "component_glob_new pattern = glob_compile pattern"

definition component_glob_matches :: "token list \<Rightarrow> bytes \<Rightarrow> bool" where
  "component_glob_matches g name =
     (case path_bytes name of None \<Rightarrow> False | Some name \<Rightarrow> glob_matches g name)"

text \<open>A name read unit by unit.\<close>

lemma next_unit_pos: "0 < snd (next_unit bs)"
  by (auto simp: next_unit_def Let_def split: option.splits list.splits if_splits)

function name_units :: "bytes \<Rightarrow> nat option list" where
  "name_units name =
     (if name = [] then []
      else fst (next_unit name) # name_units (drop (snd (next_unit name)) name))"
  by pat_completeness auto
termination
  by (relation "measure length") (auto simp: next_unit_pos)

declare name_units.simps [simp del]

interpretation name_scan: star_scanner
  is_star token_fits "\<lambda>name. name = []" "\<lambda>name. fst (next_unit name)"
  "\<lambda>name. drop (snd (next_unit name)) name" name_units glob_matches_loop
proof (unfold_locales, goal_cases)
  case (1 s)
  then show ?case by (simp add: name_units.simps)
next
  case (2 s)
  then show ?case by (subst name_units.simps) simp
next
  case (3 s tokens star)
  then show ?case by (subst glob_matches_loop.simps) simp
next
  case (4 s t tokens star)
  then show ?case by (subst glob_matches_loop.simps) (simp add: is_star_def)
next
  case (5 s t tokens star)
  then show ?case by (subst glob_matches_loop.simps) (simp add: is_star_def)
next
  case (6 s tokens star_t star_n)
  then show ?case by (subst glob_matches_loop.simps) (auto simp: is_star_def)
next
  case (7 s tokens)
  then show ?case by (subst glob_matches_loop.simps) (auto simp: is_star_def)
qed

lemma glob_matches_decides:
  "glob_matches_loop tokens name None = Some (star_match is_star token_fits tokens (name_units name))"
  by (rule name_scan.scan_decides)

lemma glob_matches_star_match:
  "glob_matches tokens name = star_match is_star token_fits tokens (name_units name)"
  by (simp add: glob_matches_def glob_matches_decides)

section \<open>The bounded walk\<close>

record file_meta =
  meta_is_dir :: bool
  meta_len :: nat
  meta_mtime :: "nat option"

record dir_entry =
  entry_file_name :: bytes
  entry_is_dir :: bool

record filesystem =
  fs_metadata :: "bytes \<Rightarrow> file_meta option"
  fs_read_dir :: "bytes \<Rightarrow> dir_entry list option"

record walk =
  walk_limit :: nat
  walk_visited :: nat
  walk_budget :: nat
  walk_found :: "bytes list"

definition max_visited_entries :: nat where
  "max_visited_entries = 16 * 1024"

definition walk_full :: "walk \<Rightarrow> bool" where
  "walk_full w \<longleftrightarrow> walk_limit w \<le> length (walk_found w)"

definition walk_spent :: "walk \<Rightarrow> bool" where
  "walk_spent w \<longleftrightarrow> walk_budget w \<le> walk_visited w"

fun read_entries :: "(dir_entry \<Rightarrow> bool) \<Rightarrow> dir_entry list \<Rightarrow> bytes list \<Rightarrow> walk \<Rightarrow> bytes list \<times> walk" where
  "read_entries keep [] names w = (names, w)"
| "read_entries keep (entry # entries) names w =
     (if walk_spent w then (names, w)
      else read_entries keep entries
             (if keep entry then names @ [entry_file_name entry] else names)
             (w\<lparr>walk_visited := walk_visited w + 1\<rparr>))"

definition sorted_entries ::
    "filesystem \<Rightarrow> bytes \<Rightarrow> (dir_entry \<Rightarrow> bool) \<Rightarrow> walk \<Rightarrow> bytes list \<times> walk" where
  "sorted_entries fs dir keep w =
     (case fs_read_dir fs dir of
        None \<Rightarrow> ([], w)
      | Some entries \<Rightarrow> (case read_entries keep entries [] w of (names, w) \<Rightarrow> (sort names, w)))"

definition matching_entries ::
    "filesystem \<Rightarrow> bytes \<Rightarrow> token list \<Rightarrow> walk \<Rightarrow> bytes list \<times> walk" where
  "matching_entries fs dir g w =
     sorted_entries fs dir
       (\<lambda>entry. case path_bytes (entry_file_name entry) of
                  None \<Rightarrow> False | Some name \<Rightarrow> glob_matches g name) w"

text \<open>
  The mutual recursion of \<open>walk_components\<close> and \<open>walk_recursive\<close> with their loops over directory
  entries. The first argument is fuel; \<open>walk_enough\<close> shows how much always suffices.
\<close>

function (sequential) walk_components :: "nat \<Rightarrow> filesystem \<Rightarrow> bytes \<Rightarrow> bytes list \<Rightarrow> walk \<Rightarrow> walk option"
  and component_loop :: "nat \<Rightarrow> filesystem \<Rightarrow> bytes \<Rightarrow> bytes list \<Rightarrow> bytes list \<Rightarrow> walk \<Rightarrow> walk option"
  and walk_recursive :: "nat \<Rightarrow> filesystem \<Rightarrow> bytes \<Rightarrow> bytes list \<Rightarrow> walk \<Rightarrow> walk option"
  and recursive_loop :: "nat \<Rightarrow> filesystem \<Rightarrow> bytes \<Rightarrow> bytes list \<Rightarrow> bytes list \<Rightarrow> walk \<Rightarrow> walk option"
where
  "walk_components 0 fs base rest w = None"
| "walk_components (Suc n) fs base rest w =
     (if walk_full w then Some w
      else
        (case rest of
           [] \<Rightarrow> Some (if fs_metadata fs base \<noteq> None
                      then w\<lparr>walk_found := walk_found w @ [base]\<rparr> else w)
         | component # after \<Rightarrow>
             if component = ''**'' then walk_recursive n fs base after w
             else if \<not> has_meta component then
               walk_components n fs (path_push base component) after w
             else
               (case glob_compile component of
                  None \<Rightarrow> Some w
                | Some g \<Rightarrow>
                    (case matching_entries fs base g w of
                       (names, w) \<Rightarrow> component_loop n fs base after names w))))"
| "component_loop n fs base after [] w = Some w"
| "component_loop n fs base after (name # names) w =
     (case walk_components n fs (path_push base name) after w of
        None \<Rightarrow> None
      | Some w \<Rightarrow> if walk_full w then Some w else component_loop n fs base after names w)"
| "walk_recursive 0 fs base rest w = None"
| "walk_recursive (Suc n) fs base rest w =
     (case walk_components n fs base rest w of
        None \<Rightarrow> None
      | Some w \<Rightarrow>
          (case sorted_entries fs base entry_is_dir w of
             (names, w) \<Rightarrow> recursive_loop n fs base rest names w))"
| "recursive_loop n fs base rest [] w = Some w"
| "recursive_loop n fs base rest (name # names) w =
     (if walk_full w then Some w
      else
        (case walk_recursive n fs (path_push base name) rest w of
           None \<Rightarrow> None
         | Some w \<Rightarrow> recursive_loop n fs base rest names w))"
  by pat_completeness auto
termination
  by (relation "measures
      [\<lambda>x. case x of Inl (Inl (n, _)) \<Rightarrow> n | Inl (Inr (n, _)) \<Rightarrow> n
         | Inr (Inl (n, _)) \<Rightarrow> n | Inr (Inr (n, _)) \<Rightarrow> n,
       \<lambda>x. case x of Inl (Inl _) \<Rightarrow> 0 | Inl (Inr (n, fs, base, after, names, w)) \<Rightarrow> Suc (length names)
         | Inr (Inl _) \<Rightarrow> 0 | Inr (Inr (n, fs, base, rest, names, w)) \<Rightarrow> Suc (length names)]")
    simp_all

definition glob_components :: "bytes \<Rightarrow> bytes list" where
  "glob_components pattern =
     filter (\<lambda>component. component \<noteq> [] \<and> component \<noteq> ''.'') (split_on (CHR ''/'') pattern)"

definition expand_walk :: "filesystem \<Rightarrow> bytes \<Rightarrow> bytes list \<Rightarrow> nat \<Rightarrow> walk option" where
  "expand_walk fs root components limit =
     walk_components (2 * length components + max_visited_entries + 1) fs root components
       \<lparr>walk_limit = limit, walk_visited = 0, walk_budget = max_visited_entries, walk_found = []\<rparr>"

definition expand :: "filesystem \<Rightarrow> bytes \<Rightarrow> bytes \<Rightarrow> nat \<Rightarrow> bytes list option" where
  "expand fs root pattern limit =
     (let components = glob_components pattern in
      if ''..'' \<in> set components \<or>
         list_ex (\<lambda>component. has_meta component \<and> glob_compile component = None) components
      then Some []
      else map_option walk_found (expand_walk fs root components limit))"

subsection \<open>What a walk may change\<close>

definition walk_step :: "filesystem \<Rightarrow> walk \<Rightarrow> walk \<Rightarrow> bool" where
  "walk_step fs w w' \<longleftrightarrow>
     walk_limit w' = walk_limit w \<and> walk_budget w' = walk_budget w \<and>
     walk_visited w \<le> walk_visited w' \<and>
     (walk_visited w \<le> walk_budget w \<longrightarrow> walk_visited w' \<le> walk_budget w') \<and>
     (length (walk_found w) \<le> walk_limit w \<longrightarrow> length (walk_found w') \<le> walk_limit w') \<and>
     (\<exists>new. walk_found w' = walk_found w @ new \<and> (\<forall>p \<in> set new. fs_metadata fs p \<noteq> None))"

lemma walk_step_refl [intro]: "walk_step fs w w"
  by (simp add: walk_step_def)

lemma walk_step_trans: "walk_step fs w w' \<Longrightarrow> walk_step fs w' w'' \<Longrightarrow> walk_step fs w w''"
  unfolding walk_step_def by fastforce

lemma read_entries_step:
  "read_entries keep es names w = (names', w') \<Longrightarrow> walk_step fs w w'"
proof (induction keep es names w rule: read_entries.induct)
  case (2 keep e es names w)
  show ?case
  proof (cases "walk_spent w")
    case False
    then have "walk_step fs w (w\<lparr>walk_visited := walk_visited w + 1\<rparr>)"
      by (simp add: walk_step_def walk_spent_def)
    with False 2 show ?thesis by (auto intro: walk_step_trans)
  qed (use 2 in auto)
qed auto

abbreviation walk_remaining :: "walk \<Rightarrow> nat" where
  "walk_remaining w \<equiv> walk_budget w - walk_visited w"

lemma walk_step_remaining: "walk_step fs w w' \<Longrightarrow> walk_remaining w' \<le> walk_remaining w"
  by (simp add: walk_step_def diff_le_mono2)

lemma read_entries_visits:
  "read_entries keep es names w = (names', w') \<Longrightarrow> length names < length names' \<Longrightarrow>
    walk_remaining w' < walk_remaining w"
proof (induction keep es names w rule: read_entries.induct)
  case (2 keep e es names w)
  show ?case
  proof (cases "walk_spent w")
    case False
    let ?w = "w\<lparr>walk_visited := walk_visited w + 1\<rparr>"
    from False 2(2) have "walk_step undefined ?w w'"
      by (auto intro: read_entries_step)
    from walk_step_remaining [OF this] False show ?thesis by (simp add: walk_spent_def)
  qed (use 2 in auto)
qed auto

lemma sorted_entries_step:
  "sorted_entries fs dir keep w = (names, w') \<Longrightarrow> walk_step fs w w'"
  by (auto simp: sorted_entries_def split: option.splits prod.splits dest: read_entries_step)

lemma sorted_entries_visits:
  "sorted_entries fs dir keep w = (names, w') \<Longrightarrow> names \<noteq> [] \<Longrightarrow>
    walk_remaining w' < walk_remaining w"
  by (auto simp: sorted_entries_def split: option.splits prod.splits dest!: read_entries_visits)

lemma walk_steps:
  "walk_components n fs base rest w = Some w' \<Longrightarrow> walk_step fs w w'"
  "component_loop n fs base after names w = Some w' \<Longrightarrow> walk_step fs w w'"
  "walk_recursive n fs base rest w = Some w' \<Longrightarrow> walk_step fs w w'"
  "recursive_loop n fs base rest names w = Some w' \<Longrightarrow> walk_step fs w w'"
proof (induction n fs base rest w and n fs base after names w and n fs base rest w
    and n fs base rest names w arbitrary: w' and w' and w' and w'
    rule: walk_components_component_loop_walk_recursive_recursive_loop.induct)
  case (2 n fs base rest w)
  show ?case
  proof (cases "walk_full w")
    case True
    with 2 show ?thesis by auto
  next
    case False
    show ?thesis
    proof (cases rest)
      case Nil
      with False "2.prems" show ?thesis
        by (auto simp: walk_step_def walk_full_def split: if_splits)
    next
      case (Cons component after)
      with False 2 show ?thesis
        by (auto simp: matching_entries_def split: if_splits option.splits prod.splits
            intro: walk_step_trans sorted_entries_step)
    qed
  qed
next
  case (4 n fs base after name names w)
  then show ?case by (auto split: option.splits if_splits intro: walk_step_trans)
next
  case (6 n fs base rest w)
  then show ?case
    by (auto split: option.splits prod.splits) (metis walk_step_trans sorted_entries_step)
next
  case (8 n fs base rest name names w)
  then show ?case by (auto split: option.splits if_splits intro: walk_step_trans)
qed auto

subsection \<open>The walk always ends\<close>

lemma walk_enough:
  "2 * length rest + walk_remaining w < n \<Longrightarrow> walk_components n fs base rest w \<noteq> None"
  "2 * length after + walk_remaining w < n \<Longrightarrow> component_loop n fs base after names w \<noteq> None"
  "2 * length rest + walk_remaining w + 1 < n \<Longrightarrow> walk_recursive n fs base rest w \<noteq> None"
  "2 * length rest + walk_remaining w + 1 < n \<Longrightarrow> recursive_loop n fs base rest names w \<noteq> None"
proof (induction n fs base rest w and n fs base after names w and n fs base rest w
    and n fs base rest names w
    rule: walk_components_component_loop_walk_recursive_recursive_loop.induct)
  case (2 n fs base rest w)
  show ?case
  proof (cases "walk_full w")
    case False
    show ?thesis
    proof (cases rest)
      case (Cons component after)
      have "walk_remaining w' \<le> walk_remaining w"
        if "matching_entries fs base g w = (names, w')" for g names w'
        using that by (auto simp: matching_entries_def dest!: sorted_entries_step walk_step_remaining)
      with Cons False 2 show ?thesis
        by (fastforce split: option.splits prod.splits)
    qed (use False in simp)
  qed simp
next
  case (4 n fs base after name names w)
  then obtain w1 where w1: "walk_components n fs (path_push base name) after w = Some w1" by auto
  then have "walk_remaining w1 \<le> walk_remaining w"
    by (intro walk_step_remaining walk_steps(1))
  with 4 w1 show ?case by auto
next
  case (6 n fs base rest w)
  then obtain w1 where w1: "walk_components n fs base rest w = Some w1" by auto
  then have r1: "walk_remaining w1 \<le> walk_remaining w"
    by (intro walk_step_remaining walk_steps(1))
  obtain names w2 where e: "sorted_entries fs base entry_is_dir w1 = (names, w2)" by fastforce
  show ?case
  proof (cases "names = []")
    case True
    with w1 e show ?thesis by simp
  next
    case False
    from sorted_entries_visits [OF e this] r1 6 w1 e show ?thesis by simp
  qed
next
  case (8 n fs base rest name names w)
  show ?case
  proof (cases "walk_full w")
    case False
    with 8 obtain w1 where w1: "walk_recursive n fs (path_push base name) rest w = Some w1" by auto
    then have "walk_remaining w1 \<le> walk_remaining w"
      by (intro walk_step_remaining walk_steps(3))
    with 8 False w1 show ?thesis by auto
  qed simp
qed simp_all

lemma expand_walk_result:
  obtains w where "expand_walk fs root components limit = Some w"
    and "length (walk_found w) \<le> limit" and "walk_visited w \<le> max_visited_entries"
    and "\<forall>p \<in> set (walk_found w). fs_metadata fs p \<noteq> None"
proof -
  let ?w0 = "\<lparr>walk_limit = limit, walk_visited = 0, walk_budget = max_visited_entries, walk_found = []\<rparr>"
  have "expand_walk fs root components limit \<noteq> None"
    unfolding expand_walk_def by (rule walk_enough(1)) simp
  then obtain w where w: "expand_walk fs root components limit = Some w" by blast
  then have "walk_step fs ?w0 w"
    unfolding expand_walk_def by (rule walk_steps(1))
  with w show thesis by (intro that [of w]) (auto simp: walk_step_def)
qed

section \<open>Properties\<close>


text \<open>
  C35: Expanding a glob is bounded whatever the filesystem answers, a directory that contains itself
  included. The walk returns; it examines at most \<open>max_visited_entries\<close> directory entries, yields
  at most \<open>limit\<close> paths, and every path it yields exists.
\<close>

theorem expand_bounded:
  "\<exists>paths. expand fs root pattern limit = Some paths \<and> length paths \<le> limit \<and>
     list_all (\<lambda>p. fs_metadata fs p \<noteq> None) paths \<and>
     (\<exists>w. expand_walk fs root (glob_components pattern) limit = Some w \<and>
        walk_visited w \<le> max_visited_entries)"
proof -
  obtain w where "expand_walk fs root (glob_components pattern) limit = Some w"
    "length (walk_found w) \<le> limit" "walk_visited w \<le> max_visited_entries"
    "\<forall>p \<in> set (walk_found w). fs_metadata fs p \<noteq> None"
    by (rule expand_walk_result)
  then show ?thesis by (auto simp: expand_def Let_def list_all_iff)
qed

end
