(* ===== verification/Path_Pattern.thy ===== *)
theory Path_Pattern
  imports Star_Scan Utf8
begin

text \<open>
  The \<open>path\<close> pattern language (\<open>pingclair-core/src/server/path_pattern.rs\<close>): classification of a
  pattern by where its stars are, the matcher of each class, the segment-by-segment glob with its
  single-star backtracking scan, and the word-at-a-time search for an upper-case letter. The
  cursor pair \<open>(p, t)\<close> of the scan is the pair of remaining suffixes, and the remembered star is
  the pair of suffixes just after it.
\<close>

unbundle bit_operations_syntax

section \<open>Patterns and their matchers\<close>

datatype path_pattern =
    PAny
  | PExact bytes
  | PPrefix bytes
  | PSuffix bytes
  | PSubstring bytes
  | PGlob bytes

definition path_pattern_of :: "bytes \<Rightarrow> path_pattern" where
  "path_pattern_of pattern =
     (let stars = length (filter (\<lambda>b. b = CHR ''*'') pattern);
          leading = str_starts_with pattern ''*'';
          trailing = str_ends_with pattern ''*''
      in if stars = 0 then PExact pattern
         else if stars = 1 \<and> length pattern = 1 then PAny
         else if stars = 1 \<and> leading then PSuffix (drop 1 pattern)
         else if stars = 1 \<and> trailing then PPrefix (take (length pattern - 1) pattern)
         else if stars = 2 \<and> leading \<and> trailing then
           PSubstring (drop 1 (take (length pattern - 1) pattern))
         else PGlob pattern)"

definition starts_with :: "bytes \<Rightarrow> bytes \<Rightarrow> bool" where
  "starts_with text pre \<longleftrightarrow>
     length pre \<le> length text \<and> eq_ignore_ascii_case (take (length pre) text) pre"

definition ends_with :: "bytes \<Rightarrow> bytes \<Rightarrow> bool" where
  "ends_with text suf \<longleftrightarrow>
     length suf \<le> length text \<and> eq_ignore_ascii_case (drop (length text - length suf) text) suf"

definition contains :: "bytes \<Rightarrow> bytes \<Rightarrow> bool" where
  "contains text needle \<longleftrightarrow>
     needle = [] \<or>
     list_ex (\<lambda>window. eq_ignore_ascii_case window needle) (windows (length needle) text)"

partial_function (option) segment_glob_loop ::
    "bytes \<Rightarrow> bytes \<Rightarrow> (bytes \<times> bytes) option \<Rightarrow> bool option" where
  "segment_glob_loop pattern text star =
     (if text \<noteq> [] then
        (if pattern \<noteq> [] \<and> hd pattern = CHR ''*'' then
           segment_glob_loop (tl pattern) text (Some (tl pattern, text))
         else if pattern \<noteq> [] \<and> eq_ignore_case (hd pattern) (hd text) then
           segment_glob_loop (tl pattern) (tl text) star
         else (case star of
                 Some (star_p, star_t) \<Rightarrow>
                   segment_glob_loop star_p (tl star_t) (Some (star_p, tl star_t))
               | None \<Rightarrow> Some False))
      else Some (list_all (\<lambda>b. b = CHR ''*'') pattern))"

definition segment_glob :: "bytes \<Rightarrow> bytes \<Rightarrow> bool" where
  "segment_glob pattern text =
     (case segment_glob_loop pattern text None of Some result \<Rightarrow> result | None \<Rightarrow> False)"

fun glob_loop :: "bytes list \<Rightarrow> bytes list \<Rightarrow> bool" where
  "glob_loop (pattern # patterns) (segment # segments) =
     (if \<not> segment_glob pattern segment then False else glob_loop patterns segments)"
| "glob_loop [] [] = True"
| "glob_loop _ _ = False"

definition glob :: "bytes \<Rightarrow> bytes \<Rightarrow> bool" where
  "glob pattern path = glob_loop (split_on (CHR ''/'') pattern) (split_on (CHR ''/'') path)"

fun pattern_matches :: "path_pattern \<Rightarrow> bytes \<Rightarrow> bool" where
  "pattern_matches PAny path = True"
| "pattern_matches (PExact text) path = eq_ignore_ascii_case path text"
| "pattern_matches (PPrefix text) path = starts_with path text"
| "pattern_matches (PSuffix text) path = ends_with path text"
| "pattern_matches (PSubstring text) path = contains path text"
| "pattern_matches (PGlob text) path = glob text path"

fun literal_prefix :: "path_pattern \<Rightarrow> bytes" where
  "literal_prefix PAny = []"
| "literal_prefix (PSuffix _) = []"
| "literal_prefix (PSubstring _) = []"
| "literal_prefix (PExact text) = text"
| "literal_prefix (PPrefix text) = text"
| "literal_prefix (PGlob text) =
     (case split_once (CHR ''*'') text of Some (before, _) \<Rightarrow> before | None \<Rightarrow> text)"

section \<open>Upper-case search, eight bytes at a time\<close>

fun le_value :: "bytes \<Rightarrow> nat" where
  "le_value [] = 0"
| "le_value (b # bs) = byte_val b + 256 * le_value bs"

text \<open>\<open>u64::from_ne_bytes\<close>, for either byte order of the target.\<close>

definition from_ne_bytes :: "bool \<Rightarrow> bytes \<Rightarrow> u64" where
  "from_ne_bytes big_endian bs = of_nat (le_value (if big_endian then rev bs else bs))"

definition ones_word :: "bool \<Rightarrow> u64" where
  "ones_word big_endian = from_ne_bytes big_endian (replicate 8 (CHR 0x01))"

definition word_has_uppercase :: "bool \<Rightarrow> bytes \<Rightarrow> bool" where
  "word_has_uppercase big_endian chunk \<longleftrightarrow>
     (let ones = ones_word big_endian;
          high = ones * 0x80;
          word = from_ne_bytes big_endian chunk;
          at_least_a = word + ones * 0x3F;
          above_z = word + ones * 0x25
      in at_least_a AND NOT above_z AND NOT word AND high \<noteq> 0)"

function as_chunks8 :: "bytes \<Rightarrow> bytes list \<times> bytes" where
  "as_chunks8 bs =
     (if 8 \<le> length bs then (case as_chunks8 (drop 8 bs) of (ws, r) \<Rightarrow> (take 8 bs # ws, r))
      else ([], bs))"
  by pat_completeness auto
termination
  by (relation "measure length") auto

declare as_chunks8.simps [simp del]

definition has_ascii_uppercase :: "bool \<Rightarrow> bytes \<Rightarrow> bool" where
  "has_ascii_uppercase big_endian text \<longleftrightarrow>
     (case as_chunks8 text of (words, rest) \<Rightarrow>
        list_ex (word_has_uppercase big_endian) words \<or> list_ex is_ascii_uppercase rest)"

definition fold_on_stack :: nat where
  "fold_on_stack = 256"

definition with_ascii_lowercase :: "bytes \<Rightarrow> (bytes \<Rightarrow> 'r) \<Rightarrow> 'r" where
  "with_ascii_lowercase path f =
     (if length path \<le> fold_on_stack then
        (let folded = to_ascii_lowercase path in
         if utf8_valid folded then f folded else f (to_ascii_lowercase path))
      else f (to_ascii_lowercase path))"

section \<open>The backtracking scan\<close>

interpretation segment_scan: star_scanner
  "\<lambda>b. b = CHR ''*''" eq_ignore_case "\<lambda>text. text = []" hd tl "\<lambda>text. text" segment_glob_loop
proof (unfold_locales, goal_cases)
  case (3 s pattern star)
  then show ?case by (subst segment_glob_loop.simps) simp
next
  case (4 s t pattern star)
  then show ?case by (subst segment_glob_loop.simps) simp
next
  case (5 s t pattern star)
  then show ?case by (subst segment_glob_loop.simps) simp
next
  case (6 s pattern star_p star_t)
  then show ?case by (subst segment_glob_loop.simps) auto
next
  case (7 s pattern)
  then show ?case by (subst segment_glob_loop.simps) auto
qed auto

text \<open>The scan of one segment always returns, and decides the declarative relation.\<close>

lemma segment_glob_loop_decides:
  "segment_glob_loop pattern text None
    = Some (star_match (\<lambda>b. b = CHR ''*'') eq_ignore_case pattern text)"
  by (rule segment_scan.scan_decides)

lemma segment_glob_star_match:
  "segment_glob pattern text = star_match (\<lambda>b. b = CHR ''*'') eq_ignore_case pattern text"
  by (simp add: segment_glob_def segment_glob_loop_decides)

text \<open>The reference reading of a glob over the whole path: a star never takes a \<open>/\<close>.\<close>

fun glob_match :: "bytes \<Rightarrow> bytes \<Rightarrow> bool" where
  "glob_match [] path = (path = [])"
| "glob_match (p # ps) path =
     (if p = CHR ''*'' then
        glob_match ps path \<or>
        (case path of [] \<Rightarrow> False | c # cs \<Rightarrow> c \<noteq> CHR ''/'' \<and> glob_match (p # ps) cs)
      else (case path of [] \<Rightarrow> False | c # cs \<Rightarrow> eq_ignore_case p c \<and> glob_match ps cs))"

lemma glob_loop_list_all2:
  "glob_loop ps ss = list_all2 (star_match (\<lambda>b. b = CHR ''*'') eq_ignore_case) ps ss"
  by (induction ps ss rule: glob_loop.induct) (auto simp: segment_glob_star_match)

lemma eq_ignore_case_slash [simp]: "eq_ignore_case (CHR ''/'') c \<longleftrightarrow> c = CHR ''/''"
  "eq_ignore_case c (CHR ''/'') \<longleftrightarrow> c = CHR ''/''"
proof -
  have "to_ascii_lower (CHR ''/'') = CHR ''/''" using to_ascii_lower_slash by blast
  then show "eq_ignore_case (CHR ''/'') c \<longleftrightarrow> c = CHR ''/''"
    "eq_ignore_case c (CHR ''/'') \<longleftrightarrow> c = CHR ''/''"
    using to_ascii_lower_slash [of c] by (auto simp: eq_ignore_case_def)
qed

lemma glob_glob_match: "glob pattern path = glob_match pattern path"
proof -
  let ?M = "star_match (\<lambda>b. b = CHR ''*'') eq_ignore_case"
  have "list_all2 ?M (split_on (CHR ''/'') pattern) (split_on (CHR ''/'') path)
      = glob_match pattern path"
  proof (induction pattern path rule: glob_match.induct)
    case (1 path)
    then show ?case by (cases path) (auto simp: list_all2_Cons1 split: if_splits)
  next
    case (2 p ps path)
    obtain h hs where h: "split_on (CHR ''/'') ps = h # hs" by (rule split_on_Cons_cases)
    show ?case
    proof (cases path)
      case Nil
      with 2 h show ?thesis by (cases "p = CHR ''*''") (auto simp: list_all2_Cons1)
    next
      case (Cons c cs)
      obtain q qs where q: "split_on (CHR ''/'') cs = q # qs" by (rule split_on_Cons_cases)
      show ?thesis
      proof (cases "p = CHR ''*''")
        case True
        with 2 h q Cons show ?thesis by (cases "c = CHR ''/''") auto
      next
        case False
        with 2 h q Cons show ?thesis
          by (cases "c = CHR ''/''"; cases "p = CHR ''/''") auto
      qed
    qed
  qed
  then show ?thesis by (simp add: glob_def glob_loop_list_all2)
qed

section \<open>Case folding\<close>

lemma take_to_ascii_lowercase: "to_ascii_lowercase (take n s) = take n (to_ascii_lowercase s)"
  and drop_to_ascii_lowercase: "to_ascii_lowercase (drop n s) = drop n (to_ascii_lowercase s)"
  by (simp_all add: to_ascii_lowercase_def take_map drop_map)

lemma starts_with_prefix:
  "starts_with s p \<longleftrightarrow> prefix (to_ascii_lowercase p) (to_ascii_lowercase s)"
proof -
  have "starts_with s p \<longleftrightarrow>
      length p \<le> length s \<and> take (length p) (to_ascii_lowercase s) = to_ascii_lowercase p"
    by (simp add: starts_with_def eq_ignore_ascii_case_iff take_to_ascii_lowercase)
  also have "\<dots> \<longleftrightarrow> str_starts_with (to_ascii_lowercase s) (to_ascii_lowercase p)"
    unfolding str_starts_with_def
    by (metis length_take length_to_ascii_lowercase min_def nat_le_linear take_all)
  finally show ?thesis by (simp add: str_starts_with_prefix)
qed

lemma ends_with_suffix:
  "ends_with s p \<longleftrightarrow> suffix (to_ascii_lowercase p) (to_ascii_lowercase s)"
  by (simp add: ends_with_def eq_ignore_ascii_case_iff drop_to_ascii_lowercase
      flip: str_ends_with_suffix) (simp add: str_ends_with_def)

lemma contains_iff:
  "contains s p \<longleftrightarrow> (\<exists>a b. to_ascii_lowercase s = a @ to_ascii_lowercase p @ b)"
proof -
  have "(\<exists>w. (\<exists>a b. s = a @ w @ b) \<and> length w = length p \<and>
      to_ascii_lowercase w = to_ascii_lowercase p) \<longleftrightarrow>
    (\<exists>a b. to_ascii_lowercase s = a @ to_ascii_lowercase p @ b)" (is "?L \<longleftrightarrow> ?R")
  proof
    assume ?L
    then show ?R by (metis to_ascii_lowercase_append)
  next
    assume ?R
    then obtain a b where ab: "map to_ascii_lower s = a @ map to_ascii_lower p @ b"
      unfolding to_ascii_lowercase_def by blast
    from map_eq_append_conv [THEN iffD1, OF ab] obtain a' v where
      a': "s = a' @ v" and v: "map to_ascii_lower p @ b = map to_ascii_lower v"
      by (elim exE conjE)
    from append_eq_map_conv [THEN iffD1, OF v] obtain w b' where
      "v = w @ b'" "map to_ascii_lower p = map to_ascii_lower w" by (elim exE conjE)
    with a' have "s = a' @ w @ b'" "map to_ascii_lower w = map to_ascii_lower p" by simp_all
    moreover from this(2) have "length w = length p" by (rule map_eq_imp_length_eq)
    ultimately show ?L unfolding to_ascii_lowercase_def by blast
  qed
  moreover have "contains s p \<longleftrightarrow> p = [] \<or> (\<exists>w. (\<exists>a b. s = a @ w @ b) \<and> length w = length p \<and>
      to_ascii_lowercase w = to_ascii_lowercase p)"
    by (auto simp: contains_def list_ex_iff set_windows eq_ignore_ascii_case_iff)
  moreover have "p = [] \<Longrightarrow> \<exists>a b. to_ascii_lowercase s = a @ to_ascii_lowercase p @ b"
    by (intro exI [of _ "[]"] exI [of _ "to_ascii_lowercase s"]) simp
  ultimately show ?thesis by blast
qed

lemma eq_ignore_case_lower [simp]:
  "eq_ignore_case (to_ascii_lower a) (to_ascii_lower b) = eq_ignore_case a b"
  by (simp add: eq_ignore_case_def)

lemma glob_match_lower:
  "glob_match (to_ascii_lowercase pattern) (to_ascii_lowercase path) = glob_match pattern path"
proof (induction pattern path rule: glob_match.induct)
  case (1 path)
  then show ?case by simp
next
  case (2 p ps path)
  then show ?case
    by (cases path) (auto simp: to_ascii_lower_star to_ascii_lower_slash)
qed

text \<open>Folding a pattern's text commutes with classifying it.\<close>

fun fold_pattern :: "path_pattern \<Rightarrow> path_pattern" where
  "fold_pattern PAny = PAny"
| "fold_pattern (PExact t) = PExact (to_ascii_lowercase t)"
| "fold_pattern (PPrefix t) = PPrefix (to_ascii_lowercase t)"
| "fold_pattern (PSuffix t) = PSuffix (to_ascii_lowercase t)"
| "fold_pattern (PSubstring t) = PSubstring (to_ascii_lowercase t)"
| "fold_pattern (PGlob t) = PGlob (to_ascii_lowercase t)"

lemma count_stars_lower:
  "length (filter (\<lambda>b. b = CHR ''*'') (to_ascii_lowercase p))
    = length (filter (\<lambda>b. b = CHR ''*'') p)"
  by (induction p) (auto simp: to_ascii_lower_star)

lemma leading_star: "str_starts_with p ''*'' \<longleftrightarrow> p \<noteq> [] \<and> hd p = CHR ''*''"
  by (cases p) (auto simp: str_starts_with_def)

lemma trailing_star: "str_ends_with p ''*'' \<longleftrightarrow> p \<noteq> [] \<and> last p = CHR ''*''"
  by (cases p rule: rev_cases) (auto simp: str_ends_with_def)

lemma hd_last_to_ascii_lowercase:
  "s \<noteq> [] \<Longrightarrow> hd (to_ascii_lowercase s) = to_ascii_lower (hd s)"
  "s \<noteq> [] \<Longrightarrow> last (to_ascii_lowercase s) = to_ascii_lower (last s)"
  by (simp_all add: to_ascii_lowercase_def hd_map last_map)

lemma path_pattern_of_lower:
  "path_pattern_of (to_ascii_lowercase p) = fold_pattern (path_pattern_of p)"
proof -
  have "str_starts_with (to_ascii_lowercase p) ''*'' = str_starts_with p ''*''"
    "str_ends_with (to_ascii_lowercase p) ''*'' = str_ends_with p ''*''"
    by (auto simp: leading_star trailing_star hd_last_to_ascii_lowercase to_ascii_lower_star)
  then show ?thesis
    by (simp add: path_pattern_of_def Let_def count_stars_lower
        take_to_ascii_lowercase drop_to_ascii_lowercase)
qed

lemma fold_pattern_matches:
  "pattern_matches (fold_pattern k) (to_ascii_lowercase path) = pattern_matches k path"
  by (cases k)
    (simp_all add: eq_ignore_ascii_case_iff starts_with_prefix ends_with_suffix contains_iff
      glob_glob_match glob_match_lower)

lemma pattern_matches_lower:
  "pattern_matches k (to_ascii_lowercase path) = pattern_matches k path"
proof -
  have "glob_match t (to_ascii_lowercase path) = glob_match t path" for t
    using glob_match_lower [of t path] glob_match_lower [of t "to_ascii_lowercase path"] by simp
  then show ?thesis
    by (cases k)
      (simp_all add: eq_ignore_ascii_case_iff starts_with_prefix ends_with_suffix contains_iff
        glob_glob_match)
qed

section \<open>The literal prefix\<close>

lemma takeWhile_split_once:
  "(case split_once c xs of Some (a, _) \<Rightarrow> a | None \<Rightarrow> xs) = takeWhile (\<lambda>x. x \<noteq> c) xs"
  by (induction xs) (auto split: option.splits)

lemma glob_match_literal_prefix:
  "glob_match pattern path \<Longrightarrow>
    prefix (to_ascii_lowercase (takeWhile (\<lambda>b. b \<noteq> CHR ''*'') pattern)) (to_ascii_lowercase path)"
proof (induction pattern path rule: glob_match.induct)
  case (2 p ps path)
  then show ?case by (cases path) (auto simp: eq_ignore_case_def split: if_splits)
qed simp

text \<open>Every matching path starts with the pattern's literal prefix.\<close>

lemma pattern_matches_literal_prefix:
  "pattern_matches k path \<Longrightarrow> starts_with path (literal_prefix k)"
proof (cases k)
  case (PGlob t)
  assume "pattern_matches k path"
  with PGlob show ?thesis
    by (simp add: starts_with_prefix takeWhile_split_once glob_glob_match
        glob_match_literal_prefix)
qed (auto simp: starts_with_prefix eq_ignore_ascii_case_iff)

section \<open>The word-at-a-time search\<close>

text \<open>Little-endian values of lists of numbers below 256, and adding one constant to every byte.\<close>

fun lev :: "nat list \<Rightarrow> nat" where
  "lev [] = 0"
| "lev (b # bs) = b + 256 * lev bs"

fun add_each :: "nat \<Rightarrow> nat \<Rightarrow> nat list \<Rightarrow> nat list" where
  "add_each k carry [] = []"
| "add_each k carry (b # bs) =
     (b + k + carry) mod 256 # add_each k ((b + k + carry) div 256) bs"

lemma length_add_each [simp]: "length (add_each k carry bs) = length bs"
  by (induction k carry bs rule: add_each.induct) auto

lemma le_value_lev: "le_value bs = lev (map byte_val bs)"
  by (induction bs) auto

lemma lev_bound: "\<forall>b \<in> set bs. b < 256 \<Longrightarrow> lev bs < 256 ^ length bs"
proof (induction bs)
  case (Cons b bs)
  then have "lev bs < 256 ^ length bs" "b < 256" by auto
  then have "b + 256 * lev bs < 256 * (lev bs + 1)" by simp
  also have "\<dots> \<le> 256 * 256 ^ length bs"
    using \<open>lev bs < 256 ^ length bs\<close> by (intro mult_le_mono2) simp
  finally show ?case by simp
qed simp

lemma add_each_bytes: "\<forall>b \<in> set (add_each k carry bs). b < 256"
  by (induction k carry bs rule: add_each.induct) auto

lemma mod_256_join: "r < 256 \<Longrightarrow> (256 * x + r) mod (256 * n) = r + 256 * (x mod n :: nat)"
  by (simp add: mod_mult2_eq)

lemma lev_add_each:
  "lev (add_each k carry bs)
    = (lev bs + k * lev (replicate (length bs) 1) + carry) mod 256 ^ length bs"
proof (induction bs arbitrary: carry)
  case (Cons b bs)
  let ?s = "b + k + carry" and ?n = "256 ^ length bs :: nat"
  let ?m = "lev bs + k * lev (replicate (length bs) 1)"
  have "lev (add_each k carry (b # bs)) = ?s mod 256 + 256 * ((?m + ?s div 256) mod ?n)"
    by (simp add: Cons.IH)
  also have "\<dots> = (256 * (?m + ?s div 256) + ?s mod 256) mod (256 * ?n)"
    by (rule mod_256_join [symmetric]) simp
  also have "256 * (?m + ?s div 256) + ?s mod 256 = 256 * ?m + ?s"
    using mult_div_mod_eq [of 256 ?s] by (simp add: distrib_left)
  finally show ?case by (simp add: algebra_simps)
qed simp

lemma bit_lev:
  "i < length bs \<Longrightarrow> \<forall>b \<in> set bs. b < 256 \<Longrightarrow> bit (lev bs) (8 * i + 7) \<longleftrightarrow> 128 \<le> bs ! i"
proof (induction bs arbitrary: i)
  case (Cons b bs)
  show ?case
  proof (cases i)
    case 0
    have "(b + 256 * lev bs) div 128 = b div 128 + 2 * lev bs"
      using div_mult_self2 [of 128 b "2 * lev bs"] by simp
    moreover have "odd (b div 128) \<longleftrightarrow> 128 \<le> b"
    proof (cases "b < 128")
      case False
      then have "b div 128 = 1" using Cons.prems by (intro div_nat_eqI) auto
      with False show ?thesis by simp
    qed simp
    ultimately show ?thesis
      using 0 by (simp add: bit_iff_odd)
  next
    case (Suc j)
    have "(b + 256 * lev bs) div 2 ^ (8 * Suc j + 7) = lev bs div 2 ^ (8 * j + 7)"
    proof -
      have e: "(2::nat) ^ (8 * Suc j + 7) = 256 * 2 ^ (8 * j + 7)" by (simp add: power_add)
      have "(b + 256 * lev bs) div 2 ^ (8 * Suc j + 7)
          = (b + 256 * lev bs) div 256 div 2 ^ (8 * j + 7)"
        unfolding e by (rule div_mult2_eq)
      also have "(b + 256 * lev bs) div 256 = lev bs" using Cons.prems by simp
      finally show ?thesis .
    qed
    with Suc Cons show ?thesis by (simp add: bit_iff_odd)
  qed
qed simp

text \<open>
  Carries. In a byte string where a byte of at least \<open>0xC0\<close> is always followed by one of at least
  \<open>0x80\<close>, as in UTF-8, a carry only ever enters a byte that is masked out.
\<close>

definition carry_safe :: "nat list \<Rightarrow> bool" where
  "carry_safe bs \<longleftrightarrow> successively (\<lambda>a b. 192 \<le> a \<longrightarrow> 128 \<le> b) bs"

lemma carry_safe_Cons:
  "carry_safe (a # bs) \<longleftrightarrow> carry_safe bs \<and> (bs \<noteq> [] \<longrightarrow> 192 \<le> a \<longrightarrow> 128 \<le> hd bs)"
  by (cases bs) (auto simp: carry_safe_def)

lemma add_each_uppercase:
  assumes "carry_safe bs" "\<forall>b \<in> set bs. b < 256" "ca \<le> 1" "cz \<le> 1"
    and "bs \<noteq> [] \<Longrightarrow> ca + cz \<noteq> 0 \<Longrightarrow> 128 \<le> hd bs"
  shows "(\<exists>i < length bs. 128 \<le> add_each 0x3F ca bs ! i \<and> \<not> 128 \<le> add_each 0x25 cz bs ! i \<and>
      \<not> 128 \<le> bs ! i) \<longleftrightarrow> (\<exists>b \<in> set bs. 65 \<le> b \<and> b \<le> 90)"
  using assms
proof (induction bs arbitrary: ca cz)
  case Nil
  then show ?case by simp
next
  case (Cons b bs)
  let ?ca = "(b + 0x3F + ca) div 256" and ?cz = "(b + 0x25 + cz) div 256"
  have b: "b < 256" and nc: "b < 128 \<Longrightarrow> ca = 0 \<and> cz = 0"
    using Cons.prems by fastforce+
  have "b + 0x3F + ca < 2 * 256" "b + 0x25 + cz < 2 * 256" using b Cons.prems(3,4) by simp_all
  then have "?ca < 2" "?cz < 2" by (simp_all only: less_mult_imp_div_less)
  then have "?ca \<le> 1" "?cz \<le> 1" by simp_all
  moreover have "192 \<le> b" if "?ca + ?cz \<noteq> 0"
  proof (rule ccontr)
    assume "\<not> 192 \<le> b"
    then have "b + 0x3F + ca < 256" "b + 0x25 + cz < 256" using Cons.prems(3,4) by simp_all
    with that show False by simp
  qed
  ultimately have IH: "(\<exists>i < length bs. 128 \<le> add_each 0x3F ?ca bs ! i \<and>
      \<not> 128 \<le> add_each 0x25 ?cz bs ! i \<and> \<not> 128 \<le> bs ! i) \<longleftrightarrow> (\<exists>b \<in> set bs. 65 \<le> b \<and> b \<le> 90)"
    using Cons.prems by (intro Cons.IH) (auto simp: carry_safe_Cons)
  have head: "128 \<le> (b + 0x3F + ca) mod 256 \<and> \<not> 128 \<le> (b + 0x25 + cz) mod 256 \<and> \<not> 128 \<le> b
      \<longleftrightarrow> 65 \<le> b \<and> b \<le> 90"
    using b nc by (cases "b < 128") auto
  have "(\<exists>i < length (b # bs). 128 \<le> add_each 0x3F ca (b # bs) ! i \<and>
      \<not> 128 \<le> add_each 0x25 cz (b # bs) ! i \<and> \<not> 128 \<le> (b # bs) ! i) \<longleftrightarrow>
    (65 \<le> b \<and> b \<le> 90) \<or> (\<exists>b \<in> set bs. 65 \<le> b \<and> b \<le> 90)"
    unfolding IH [symmetric] head [symmetric] by (simp add: Ex_less_Suc2)
  then show ?case by auto
qed

text \<open>A byte list of length eight, read as a word.\<close>

lemma bit_u64_of_nat: "bit (of_nat m :: u64) n \<longleftrightarrow> n < 64 \<and> bit m n"
  by transfer (simp add: bit_of_nat_iff_bit)

lemma bit_of_nat_lev:
  assumes "length bs = 8" "i < 8" "\<forall>b \<in> set bs. b < 256"
  shows "bit (of_nat (lev bs) :: u64) (8 * i + 7) \<longleftrightarrow> 128 \<le> bs ! i"
  using assms bit_lev [of i bs] by (simp add: bit_u64_of_nat)

lemma of_nat_mod_u64: "of_nat (x mod 2 ^ 64) = (of_nat x :: u64)"
  by (simp add: word_of_nat_eq_iff take_bit_eq_mod)

lemma of_nat_add_each:
  assumes "length bs = 8"
  shows "of_nat (lev bs) + 0x0101010101010101 * of_nat k = (of_nat (lev (add_each k 0 bs)) :: u64)"
proof -
  have "replicate 8 (1::nat) = [1, 1, 1, 1, 1, 1, 1, 1]" by (simp add: eval_nat_numeral)
  then have ones: "lev (replicate 8 1) = 0x0101010101010101" by simp
  have "lev (add_each k 0 bs) = (lev bs + k * 0x0101010101010101) mod 2 ^ 64"
    using lev_add_each [of k 0 bs] by (simp only: assms ones) simp
  then have "(of_nat (lev (add_each k 0 bs)) :: u64) = of_nat (lev bs + k * 0x0101010101010101)"
    by (simp only: of_nat_mod_u64)
  then show ?thesis by (simp add: mult.commute)
qed

lemma high_bits: "bit (0x8080808080808080 :: u64) n \<longleftrightarrow> (\<exists>i < 8. n = 8 * i + 7)"
proof -
  have "filter (bit (0x8080808080808080 :: u64)) [0..<64] = map (\<lambda>i. 8 * i + 7) [0..<8]"
    by code_simp
  then have "set (filter (bit (0x8080808080808080 :: u64)) [0..<64])
      = set (map (\<lambda>i. 8 * i + 7) [0..<8])" by simp
  then have eq: "{m. m < 64 \<and> bit (0x8080808080808080 :: u64) m} = (\<lambda>i. 8 * i + 7) ` {0..<8}"
    by auto
  have "bit (0x8080808080808080 :: u64) n \<longleftrightarrow>
      n \<in> {m. m < 64 \<and> bit (0x8080808080808080 :: u64) m}"
    using bit_imp_le_length [of "0x8080808080808080 :: u64" n] by auto
  then show ?thesis unfolding eq by (auto simp: image_iff)
qed

lemma mask_test:
  "x AND NOT y AND NOT w AND h \<noteq> (0 :: u64) \<longleftrightarrow>
    (\<exists>n. bit x n \<and> \<not> bit y n \<and> \<not> bit w n \<and> bit h n)"
proof -
  have "bit (x AND NOT y AND NOT w AND h) n \<longleftrightarrow> bit x n \<and> \<not> bit y n \<and> \<not> bit w n \<and> bit h n" for n
    using bit_imp_le_length [of x n] by (auto simp: bit_simps)
  moreover have "v = 0" if "\<And>n. \<not> bit v n" for v :: u64
    using that by (intro bit_word_eqI) simp
  ultimately show ?thesis by (metis bit_0_eq bot_apply bot_bool_def)
qed

lemma word_has_uppercase_le:
  assumes "length chunk = 8" "carry_safe (map byte_val chunk)"
  shows "word_has_uppercase False chunk \<longleftrightarrow> list_ex is_ascii_uppercase chunk"
proof -
  let ?bs = "map byte_val chunk"
  let ?A = "add_each 0x3F 0 ?bs" and ?Z = "add_each 0x25 0 ?bs"
  have len: "length ?bs = 8" "length ?A = 8" "length ?Z = 8" using assms(1) by simp_all
  have "replicate 8 c = [c, c, c, c, c, c, c, c]" for c :: byte by (simp add: eval_nat_numeral)
  then have ones: "ones_word False = 0x0101010101010101"
    by (simp add: ones_word_def from_ne_bytes_def)
  have word: "from_ne_bytes False chunk = of_nat (lev ?bs)"
    by (simp add: from_ne_bytes_def le_value_lev)
  have A: "from_ne_bytes False chunk + ones_word False * 0x3F = of_nat (lev ?A)"
    using of_nat_add_each [OF len(1), of "0x3F"] by (simp add: word ones)
  have Z: "from_ne_bytes False chunk + ones_word False * 0x25 = of_nat (lev ?Z)"
    using of_nat_add_each [OF len(1), of "0x25"] by (simp add: word ones)
  have high: "ones_word False * 0x80 = 0x8080808080808080" by (simp add: ones)
  have "word_has_uppercase False chunk \<longleftrightarrow>
      (\<exists>n. bit (of_nat (lev ?A) :: u64) n \<and> \<not> bit (of_nat (lev ?Z) :: u64) n \<and>
        \<not> bit (of_nat (lev ?bs) :: u64) n \<and> bit (0x8080808080808080 :: u64) n)"
    unfolding word_has_uppercase_def Let_def A Z high unfolding word by (rule mask_test)
  also have "\<dots> \<longleftrightarrow> (\<exists>i < 8. bit (of_nat (lev ?A) :: u64) (8 * i + 7) \<and>
      \<not> bit (of_nat (lev ?Z) :: u64) (8 * i + 7) \<and> \<not> bit (of_nat (lev ?bs) :: u64) (8 * i + 7))"
    unfolding high_bits by blast
  also have "\<dots> \<longleftrightarrow> (\<exists>i < length ?bs. 128 \<le> ?A ! i \<and> \<not> 128 \<le> ?Z ! i \<and> \<not> 128 \<le> ?bs ! i)"
    using bit_of_nat_lev [OF len(1)] bit_of_nat_lev [OF len(2)] bit_of_nat_lev [OF len(3)]
      add_each_bytes len by (auto simp del: nth_map)
  also have "\<dots> \<longleftrightarrow> (\<exists>b \<in> set ?bs. 65 \<le> b \<and> b \<le> 90)"
    using assms(2) by (intro add_each_uppercase) auto
  finally show ?thesis by (auto simp: list_ex_iff is_ascii_uppercase_def)
qed

text \<open>Valid UTF-8 is such a byte string.\<close>

lemma utf8_scan_shape:
  assumes "utf8_scan (b # bs) = (True, n)"
  obtains "n = 1" "byte_val b < 128"
  | cs r where "bs = cs @ r" "n = Suc (length cs)" "cs \<noteq> []" "list_all is_cont cs"
proof -
  consider "n = 1" "byte_val b < 128"
    | "n = 2" "is_cont (safe_get (b # bs) 1)"
    | "n = 3" "is_cont (safe_get (b # bs) 1)" "is_cont (safe_get (b # bs) 2)"
    | "n = 4" "is_cont (safe_get (b # bs) 1)" "is_cont (safe_get (b # bs) 2)"
        "is_cont (safe_get (b # bs) 3)"
    using assms second_ok_cont
    by (auto simp: utf8_scan_def Let_def safe_get_def [of _ 0] split: if_splits)
  then show thesis
  proof cases
    case 1
    then show ?thesis by (rule that(1))
  next
    case 2
    then obtain c r where "bs = c # r" using safe_get_cont [OF 2(2)] by (cases bs) auto
    with 2 show ?thesis by (intro that(2) [of "[c]" r]) (auto simp: safe_get_def)
  next
    case 3
    then obtain c d r where "bs = c # d # r"
      using safe_get_cont [OF 3(3)] by (cases bs; cases "tl bs") auto
    with 3 show ?thesis by (intro that(2) [of "[c, d]" r]) (auto simp: safe_get_def)
  next
    case 4
    then obtain c d e r where "bs = c # d # e # r"
      using safe_get_cont [OF 4(4)] by (cases bs; cases "tl bs"; cases "tl (tl bs)") auto
    with 4 show ?thesis by (intro that(2) [of "[c, d, e]" r]) (auto simp: safe_get_def)
  qed
qed

lemma carry_safe_append: "carry_safe (xs @ ys) \<Longrightarrow> carry_safe xs \<and> carry_safe ys"
  by (simp add: carry_safe_def successively_append_iff)

lemma carry_safe_conts:
  "list_all is_cont cs \<Longrightarrow> carry_safe (map byte_val r) \<Longrightarrow> carry_safe (map byte_val (cs @ r))"
  by (induction cs) (auto simp: carry_safe_Cons is_cont_def)

lemma utf8_valid_carry_safe: "utf8_valid bs \<Longrightarrow> carry_safe (map byte_val bs)"
proof (induction bs rule: utf8_valid.induct)
  case 1
  then show ?case by (simp add: carry_safe_def)
next
  case (2 b bs)
  obtain ok n where s: "utf8_scan (b # bs) = (ok, n)" by fastforce
  with 2 have ok: "utf8_scan (b # bs) = (True, n)"
    and rest: "carry_safe (map byte_val (drop n (b # bs)))" by auto
  from ok show ?case
  proof (cases rule: utf8_scan_shape)
    case 1
    with rest show ?thesis by (simp add: carry_safe_Cons)
  next
    case (2 cs r)
    with rest have "carry_safe (map byte_val (cs @ r))" by (intro carry_safe_conts) simp_all
    moreover from 2 have "128 \<le> byte_val (hd (cs @ r))"
      by (cases cs) (auto simp: is_cont_def)
    ultimately show ?thesis using 2 by (simp add: carry_safe_Cons hd_append hd_map)
  qed
qed

lemma as_chunks8_words:
  "as_chunks8 bs = (ws, r) \<Longrightarrow> bs = concat ws @ r \<and> (\<forall>w \<in> set ws. length w = 8)"
proof (induction bs arbitrary: ws r rule: as_chunks8.induct)
  case (1 bs)
  show ?case
  proof (cases "8 \<le> length bs")
    case True
    obtain ws' r' where d: "as_chunks8 (drop 8 bs) = (ws', r')" by fastforce
    with True have "as_chunks8 bs = (take 8 bs # ws', r')" by (subst as_chunks8.simps) simp
    with "1.prems" have "ws = take 8 bs # ws'" "r = r'" by simp_all
    moreover from "1.IH" [OF True d] have "drop 8 bs = concat ws' @ r'" "\<forall>w \<in> set ws'. length w = 8"
      by simp_all
    moreover have "bs = take 8 bs @ drop 8 bs" by simp
    ultimately show ?thesis using True by (metis append.assoc concat.simps(2) length_take
          min_absorb2 set_ConsD)
  next
    case False
    with "1.prems" show ?thesis by (simp add: as_chunks8.simps)
  qed
qed

lemma has_ascii_uppercase_le:
  assumes "carry_safe (map byte_val s)"
  shows "has_ascii_uppercase False s \<longleftrightarrow> list_ex is_ascii_uppercase s"
proof -
  obtain ws r where c: "as_chunks8 s = (ws, r)" by fastforce
  from as_chunks8_words [OF this] have s: "s = concat ws @ r" and l: "\<forall>w \<in> set ws. length w = 8"
    by simp_all
  have "carry_safe (map byte_val w)" if "w \<in> set ws" for w
  proof -
    from that obtain as bs where "ws = as @ w # bs" by (auto simp: in_set_conv_decomp)
    with s have "map byte_val s = map byte_val (concat as) @ map byte_val w
        @ map byte_val (concat bs @ r)" by simp
    with assms show ?thesis by (metis carry_safe_append)
  qed
  with l have "word_has_uppercase False w \<longleftrightarrow> list_ex is_ascii_uppercase w" if "w \<in> set ws" for w
    using that word_has_uppercase_le by blast
  then have "list_ex (word_has_uppercase False) ws \<longleftrightarrow> (\<exists>w \<in> set ws. list_ex is_ascii_uppercase w)"
    by (auto simp: list_ex_iff)
  moreover have "has_ascii_uppercase False s \<longleftrightarrow>
      list_ex (word_has_uppercase False) ws \<or> list_ex is_ascii_uppercase r"
    by (simp add: has_ascii_uppercase_def c)
  ultimately show ?thesis by (subst s) (auto simp: list_ex_iff)
qed

lemma with_ascii_lowercase_eq: "with_ascii_lowercase path f = f (to_ascii_lowercase path)"
  by (simp add: with_ascii_lowercase_def)

text \<open>
  On a big-endian target the carry of a lead byte enters the byte before it, so the letter \<open>Z\<close> in
  front of a three-byte character is taken for a byte above \<open>Z\<close> and the search misses it.
\<close>

lemma has_ascii_uppercase_big_endian_misses:
  "utf8_valid (''aaZ'' @ [CHR 0xE2, CHR 0x82, CHR 0xAC] @ ''aa'') \<and>
   is_ascii_uppercase (CHR ''Z'') \<and>
   \<not> has_ascii_uppercase True (''aaZ'' @ [CHR 0xE2, CHR 0x82, CHR 0xAC] @ ''aa'')"
proof -
  have "utf8_valid (''aaZ'' @ [CHR 0xE2, CHR 0x82, CHR 0xAC] @ ''aa'')" by code_simp
  moreover have "replicate 8 c = [c, c, c, c, c, c, c, c]" for c :: byte
    by (simp add: eval_nat_numeral)
  then have "\<not> has_ascii_uppercase True (''aaZ'' @ [CHR 0xE2, CHR 0x82, CHR 0xAC] @ ''aa'')"
    by (simp add: has_ascii_uppercase_def as_chunks8.simps word_has_uppercase_def
        from_ne_bytes_def ones_word_def)
  ultimately show ?thesis by (simp add: is_ascii_uppercase_def)
qed

section \<open>Properties\<close>

text \<open>
  C7: Glob matching is what the pattern language documents. The single-star backtracking scan of a
  segment returns on every input, and matching segment by segment with it agrees with the reference
  reading of the pattern over the whole path, in which a star takes any run of bytes but never a
  \<open>/\<close> and letters compare without ASCII case.
\<close>

theorem glob_decides_reference:
  "(\<exists>result. segment_glob_loop pattern segment None = Some result) \<and>
   glob pattern path = glob_match pattern path"
  by (simp add: segment_glob_loop_decides glob_glob_match)

text \<open>
  The eight-bytes-at-a-time search finds an ASCII upper-case letter in a string exactly when
  there is one, on a little-endian target: no carry of the wrapping additions ever reaches a byte
  that is tested.
\<close>

theorem has_ascii_uppercase_correct:
  assumes "utf8_valid s"
  shows "has_ascii_uppercase False s \<longleftrightarrow> (\<exists>c \<in> set s. is_ascii_uppercase c)"
  using has_ascii_uppercase_le [OF utf8_valid_carry_safe [OF assms]] by (simp add: list_ex_iff)

theorem has_ascii_uppercase_correct_witness:
  "utf8_valid (''/caf'' @ [CHR 0xC3, CHR 0xA9] @ ''@/indeX'') \<and>
   (has_ascii_uppercase False (''/caf'' @ [CHR 0xC3, CHR 0xA9] @ ''@/indeX'') \<longleftrightarrow>
     (\<exists>c \<in> set (''/caf'' @ [CHR 0xC3, CHR 0xA9] @ ''@/indeX''). is_ascii_uppercase c))"
proof -
  have "utf8_valid (''/caf'' @ [CHR 0xC3, CHR 0xA9] @ ''@/indeX'')" by code_simp
  with has_ascii_uppercase_correct [OF this] show ?thesis by blast
qed

end
