(* ===== verification/Ordered_Map.thy ===== *)
theory Ordered_Map
  imports Prelude "HOL-Library.List_Lexorder"
begin

text \<open>
  The standard library's \<open>BTreeMap\<close> as its list of entries in ascending key order, with \<open>insert\<close>
  (which replaces), \<open>entry().or_insert()\<close> (which does not) and \<open>get\<close>. The contract clients rely on
  is the locale \<open>ordered_map\<close>.
\<close>

locale ordered_map =
  fixes empty :: "'m"
    and insert_key :: "'k \<Rightarrow> 'v \<Rightarrow> 'm \<Rightarrow> 'm"
    and or_insert_key :: "'k \<Rightarrow> 'v \<Rightarrow> 'm \<Rightarrow> 'm"
    and get :: "'m \<Rightarrow> 'k \<Rightarrow> 'v option"
    and invar :: "'m \<Rightarrow> bool"
  assumes get_empty: "get empty k = None"
    and get_insert: "get (insert_key k v m) = (get m)(k \<mapsto> v)"
    and get_or_insert: "get (or_insert_key k v m) =
      (case get m k of Some _ \<Rightarrow> get m | None \<Rightarrow> (get m)(k \<mapsto> v))"
    and invar_empty: "invar empty"
    and invar_insert: "invar m \<Longrightarrow> invar (insert_key k v m)"
    and invar_or_insert: "invar m \<Longrightarrow> invar (or_insert_key k v m)"
begin

lemma dom_insert: "dom (get (insert_key k v m)) = insert k (dom (get m))"
  by (simp add: get_insert)

lemma dom_or_insert: "dom (get (or_insert_key k v m)) = insert k (dom (get m))"
  by (auto simp: get_or_insert split: option.splits if_splits)

lemma dom_or_inserts:
  "dom (get (foldl (\<lambda>m k. or_insert_key k (f k) m) m ks)) = dom (get m) \<union> set ks"
  by (induction ks arbitrary: m) (auto simp: dom_or_insert)

text \<open>A relation between keys and values that every write respects holds of every entry.\<close>

lemma get_insert_inv:
  "(\<And>k v. get m k = Some v \<Longrightarrow> P k v) \<Longrightarrow> P k v \<Longrightarrow> get (insert_key k v m) k' = Some v' \<Longrightarrow> P k' v'"
  by (auto simp: get_insert split: if_splits)

lemma get_or_insert_inv:
  "(\<And>k v. get m k = Some v \<Longrightarrow> P k v) \<Longrightarrow> P k v \<Longrightarrow> get (or_insert_key k v m) k' = Some v' \<Longrightarrow> P k' v'"
  by (auto simp: get_or_insert split: if_splits option.splits)

end

fun bt_insert :: "'k::linorder \<Rightarrow> 'v \<Rightarrow> ('k \<times> 'v) list \<Rightarrow> ('k \<times> 'v) list" where
  "bt_insert k v [] = [(k, v)]"
| "bt_insert k v ((k', v') # m) =
     (if k < k' then (k, v) # (k', v') # m
      else if k = k' then (k, v) # m
      else (k', v') # bt_insert k v m)"

definition bt_or_insert :: "'k::linorder \<Rightarrow> 'v \<Rightarrow> ('k \<times> 'v) list \<Rightarrow> ('k \<times> 'v) list" where
  "bt_or_insert k v m = (case map_of m k of Some _ \<Rightarrow> m | None \<Rightarrow> bt_insert k v m)"

definition bt_sorted :: "('k::linorder \<times> 'v) list \<Rightarrow> bool" where
  "bt_sorted m \<longleftrightarrow> sorted_wrt (\<lambda>a b. fst a < fst b) m"

lemma map_of_bt_insert: "map_of (bt_insert k v m) = (map_of m)(k \<mapsto> v)"
  by (induction m) auto

lemma fst_set_bt_insert: "fst ` set (bt_insert k v m) = insert k (fst ` set m)"
  by (induction k v m rule: bt_insert.induct) (simp_all add: insert_commute)

lemma bt_sorted_insert: "bt_sorted m \<Longrightarrow> bt_sorted (bt_insert k v m)"
proof (induction m)
  case Nil
  then show ?case by (simp add: bt_sorted_def)
next
  case (Cons a m)
  obtain k' v' where a: "a = (k', v')" by fastforce
  have "k' < fst x" if "x \<in> set (bt_insert k v m)" "k' < k" for x
  proof -
    from that(1) have "fst x \<in> insert k (fst ` set m)"
      using fst_set_bt_insert [of k v m] by blast
    with that(2) Cons.prems a show ?thesis by (auto simp: bt_sorted_def)
  qed
  with Cons a show ?case by (auto simp: bt_sorted_def)
qed

interpretation btree: ordered_map "[]" bt_insert bt_or_insert map_of bt_sorted
proof (unfold_locales, goal_cases)
  case (2 k v m)
  show ?case by (rule map_of_bt_insert)
next
  case (3 k v m)
  show ?case by (auto simp: bt_or_insert_def map_of_bt_insert split: option.splits)
next
  case (5 m k v)
  then show ?case by (rule bt_sorted_insert)
next
  case (6 m k v)
  then show ?case by (auto simp: bt_or_insert_def bt_sorted_insert split: option.splits)
qed (auto simp: bt_sorted_def)

lemma bt_sorted_distinct: "bt_sorted m \<Longrightarrow> distinct (map fst m)"
  by (induction m) (auto simp: bt_sorted_def)

end
