(* ===== verification/Net_Addr.thy ===== *)
theory Net_Addr
  imports Prelude
begin

text \<open>
  \<open>std::net::IpAddr\<close> as the standard library defines it: the two families, the textual parser and
  \<open>to_string\<close>. Addresses are the big-endian numbers \<open>to_bits\<close> answers. Parsers take the remaining
  text and answer the value with the text left over.
\<close>

datatype ip_addr = V4 "32 word" | V6 "128 word"

type_synonym 'a parser = "bytes \<Rightarrow> ('a \<times> bytes) option"

section \<open>Parsing\<close>

definition digit_value :: "nat \<Rightarrow> byte \<Rightarrow> nat option" where
  "digit_value radix c =
     (let v = byte_val c;
          d = (if 48 \<le> v \<and> v \<le> 57 then v - 48
               else if 97 \<le> v \<and> v \<le> 122 then v - 87
               else if 65 \<le> v \<and> v \<le> 90 then v - 55 else radix)
      in if d < radix then Some d else None)"

fun read_digits :: "nat \<Rightarrow> nat \<Rightarrow> nat \<Rightarrow> nat \<Rightarrow> bytes \<Rightarrow> (nat \<times> nat \<times> bytes) option" where
  "read_digits radix max_digits count acc [] = Some (acc, count, [])"
| "read_digits radix max_digits count acc (c # cs) =
     (case digit_value radix c of
        None \<Rightarrow> Some (acc, count, c # cs)
      | Some d \<Rightarrow>
          if count + 1 > max_digits then None
          else read_digits radix max_digits (count + 1) (acc * radix + d) cs)"

definition read_number :: "nat \<Rightarrow> nat \<Rightarrow> nat \<Rightarrow> bool \<Rightarrow> nat parser" where
  "read_number radix max_digits bound allow_zero_prefix s =
     (case read_digits radix max_digits 0 0 s of
        None \<Rightarrow> None
      | Some (n, count, rest) \<Rightarrow>
          if count = 0 then None
          else if \<not> allow_zero_prefix \<and> hd s = CHR ''0'' \<and> 1 < count then None
          else if bound \<le> n then None
          else Some (n, rest))"

definition read_separator :: "byte \<Rightarrow> nat \<Rightarrow> 'a parser \<Rightarrow> 'a parser" where
  "read_separator sep i p s =
     (if i = 0 then p s
      else case s of [] \<Rightarrow> None | c # s \<Rightarrow> if c = sep then p s else None)"

definition read_octet :: "nat \<Rightarrow> nat parser" where
  "read_octet i = read_separator (CHR ''.'') i (read_number 10 3 256 False)"

definition read_ipv4_addr :: "(nat \<times> nat \<times> nat \<times> nat) parser" where
  "read_ipv4_addr s =
     (case read_octet 0 s of None \<Rightarrow> None | Some (a, s) \<Rightarrow>
     (case read_octet 1 s of None \<Rightarrow> None | Some (b, s) \<Rightarrow>
     (case read_octet 2 s of None \<Rightarrow> None | Some (c, s) \<Rightarrow>
     (case read_octet 3 s of None \<Rightarrow> None | Some (d, s) \<Rightarrow> Some ((a, b, c, d), s)))))"

definition parse_ipv4 :: "bytes \<Rightarrow> (nat \<times> nat \<times> nat \<times> nat) option" where
  "parse_ipv4 s =
     (if length s > 15 then None
      else (case read_ipv4_addr s of Some (a, []) \<Rightarrow> Some a | _ \<Rightarrow> None))"

text \<open>\<open>read_groups\<close>: up to \<open>limit\<close> groups, an embedded IPv4 address counting as the last two.\<close>

function read_groups :: "nat \<Rightarrow> nat \<Rightarrow> nat list \<Rightarrow> bytes \<Rightarrow> nat list \<times> bool \<times> bytes" where
  "read_groups limit i groups s =
     (if i < limit then
        (case (if i < limit - 1 then read_separator (CHR '':'') i read_ipv4_addr s else None) of
           Some ((a, b, c, d), rest) \<Rightarrow> (groups @ [a * 256 + b, c * 256 + d], True, rest)
         | None \<Rightarrow>
             (case read_separator (CHR '':'') i (read_number 16 4 65536 True) s of
                Some (g, rest) \<Rightarrow> read_groups limit (i + 1) (groups @ [g]) rest
              | None \<Rightarrow> (groups, False, s)))
      else (groups, False, s))"
  by pat_completeness auto
termination
  by (relation "measure (\<lambda>(limit, i, groups, s). limit - i)") auto

declare read_groups.simps [simp del]

definition parse_ipv6 :: "bytes \<Rightarrow> nat list option" where
  "parse_ipv6 s =
     (case read_groups 8 0 [] s of (head, head_ipv4, rest) \<Rightarrow>
        if length head = 8 then (if rest = [] then Some head else None)
        else if head_ipv4 then None
        else (case rest of
            c1 # c2 # rest \<Rightarrow>
              if c1 = CHR '':'' \<and> c2 = CHR '':'' then
                (case read_groups (8 - (length head + 1)) 0 [] rest of (tail, _, rest) \<Rightarrow>
                   if rest = [] then
                     Some (head @ replicate (8 - length tail - length head) 0 @ tail)
                   else None)
              else None
          | _ \<Rightarrow> None))"

definition bits_of :: "nat \<Rightarrow> nat list \<Rightarrow> nat" where
  "bits_of base ds = foldl (\<lambda>acc d. acc * base + d) 0 ds"

definition parse_ip_addr :: "bytes \<Rightarrow> ip_addr option" where
  "parse_ip_addr s =
     (case parse_ipv4 s of
        Some (a, b, c, d) \<Rightarrow> Some (V4 (of_nat (bits_of 256 [a, b, c, d])))
      | None \<Rightarrow> map_option (\<lambda>groups. V6 (of_nat (bits_of 65536 groups))) (parse_ipv6 s))"

section \<open>Printing\<close>

definition v4_octets :: "32 word \<Rightarrow> nat list" where
  "v4_octets w = map (\<lambda>k. unat (drop_bit k w) mod 256) [24, 16, 8, 0]"

definition v6_segments :: "128 word \<Rightarrow> nat list" where
  "v6_segments w = map (\<lambda>k. unat (drop_bit k w) mod 65536) [112, 96, 80, 64, 48, 32, 16, 0]"

definition show_ipv4 :: "nat list \<Rightarrow> bytes" where
  "show_ipv4 octets = join_with ''.'' (map show_nat octets)"

text \<open>The first of the longest runs of zero segments, as (start, length).\<close>

fun longest_zeros :: "nat list \<Rightarrow> nat \<Rightarrow> nat \<times> nat \<Rightarrow> nat \<times> nat \<Rightarrow> nat \<times> nat" where
  "longest_zeros [] i current longest = longest"
| "longest_zeros (seg # segs) i (start, len) longest =
     (if seg = 0 then
        (let current = (if len = 0 then (i, 1) else (start, len + 1))
         in longest_zeros segs (i + 1) current (if snd current > snd longest then current else longest))
      else longest_zeros segs (i + 1) (0, 0) longest)"

definition show_groups :: "nat list \<Rightarrow> bytes" where
  "show_groups groups = join_with '':'' (map show_hex groups)"

definition show_ipv6 :: "nat list \<Rightarrow> bytes" where
  "show_ipv6 segs =
     (if take 6 segs = [0, 0, 0, 0, 0, 65535] then
        ''::ffff:'' @ show_ipv4 [segs ! 6 div 256, segs ! 6 mod 256, segs ! 7 div 256, segs ! 7 mod 256]
      else
        (case longest_zeros segs 0 (0, 0) (0, 0) of (start, len) \<Rightarrow>
           if 1 < len then show_groups (take start segs) @ ''::'' @ show_groups (drop (start + len) segs)
           else show_groups segs))"

fun show_ip_addr :: "ip_addr \<Rightarrow> bytes" where
  "show_ip_addr (V4 w) = show_ipv4 (v4_octets w)"
| "show_ip_addr (V6 w) = show_ipv6 (v6_segments w)"

end
