(* ===== verification/File_Matcher.thy ===== *)
theory File_Matcher
  imports File_Glob Path_Pattern Ordered_Map Net_Addr
begin

text \<open>
  The \<open>file\<close> matcher and the placeholders a matcher may read
  (\<open>pingclair-core/src/server/router.rs\<close>, from \<open>evaluate_file_matcher\<close> on). A request's headers
  are what \<open>HeaderMap::get\<close> followed by \<open>to_str\<close> answers; its variables are the \<open>BTreeMap\<close> of
  \<open>Ordered_Map\<close>, absent when the caller passes none.
\<close>

section \<open>The request a matcher sees\<close>

type_synonym vars = "(bytes \<times> bytes) list"

record request_addresses =
  addr_client_ip :: "ip_addr option"
  addr_remote_ip :: "ip_addr option"

definition direct :: "ip_addr \<Rightarrow> request_addresses" where
  "direct peer = \<lparr>addr_client_ip = Some peer, addr_remote_ip = Some peer\<rparr>"

record matcher_request =
  req_path :: bytes
  req_method :: bytes
  req_headers :: "bytes \<Rightarrow> bytes option"
  req_host :: bytes
  req_addresses :: request_addresses
  req_protocol :: bytes
  req_vars :: "vars option"

datatype matcher_verdict = Match | NoMatch | Error nat

definition vars_get :: "vars option \<Rightarrow> bytes \<Rightarrow> bytes option" where
  "vars_get vars name = (case vars of None \<Rightarrow> None | Some vars \<Rightarrow> map_of vars name)"

definition or_default :: "bytes option \<Rightarrow> bytes" where
  "or_default v = (case v of Some s \<Rightarrow> s | None \<Rightarrow> [])"

section \<open>Placeholders\<close>

definition matcher_placeholders :: "bytes list" where
  "matcher_placeholders =
     [''path'', ''uri'', ''query'', ''?query'', ''host'', ''hostport'', ''port'', ''method'',
      ''remote_host'', ''client_ip'', ''http.request.uri.path'', ''http.request.uri'',
      ''http.request.uri.query'', ''http.request.host'', ''http.request.hostport'',
      ''http.request.port'', ''http.request.method'', ''http.request.remote.host'',
      ''http.request.client_ip'']"

definition matcher_placeholder_prefixes :: "bytes list" where
  "matcher_placeholder_prefixes =
     [''http.request.header.'', ''http.vars.'', ''http.request.orig_uri.'', ''re.'', ''labels.'',
      ''http.request.host.labels.'']"

definition host_without_port :: "bytes \<Rightarrow> bytes" where
  "host_without_port host =
     (case rsplit_once (CHR '':'') host of
        Some (name, _) \<Rightarrow>
          if \<not> str_starts_with host ''['' \<or> str_contains host '']:'' then name else host
      | None \<Rightarrow> host)"

definition request_query :: "matcher_request \<Rightarrow> bytes" where
  "request_query request =
     (case split_once (CHR ''?'') (req_path request) of Some (_, query) \<Rightarrow> query | None \<Rightarrow> [])"

text \<open>\<open>index + 1\<close> wraps at 64 bits, as a release build computes it.\<close>

definition host_label :: "bytes \<Rightarrow> bytes \<Rightarrow> bytes" where
  "host_label host raw =
     (let labels = split_on (CHR ''.'') (host_without_port host)
      in case parse_uint 64 raw of
           None \<Rightarrow> []
         | Some index \<Rightarrow>
             (let back = (index + 1) mod 2 ^ 64
              in if length labels < back then []
                 else if length labels - back < length labels then labels ! (length labels - back)
                 else []))"

definition resolve_matcher_placeholder :: "bytes \<Rightarrow> matcher_request \<Rightarrow> bytes \<Rightarrow> bytes" where
  "resolve_matcher_placeholder name request path =
     (case strip_prefix ''http.request.header.'' name of
        Some header \<Rightarrow> or_default (req_headers request header)
      | None \<Rightarrow>
     (case strip_prefix ''http.vars.'' name of
        Some var \<Rightarrow> or_default (vars_get (req_vars request) var)
      | None \<Rightarrow>
     if str_starts_with name ''http.request.orig_uri.'' \<or> name = ''re'' \<or> str_starts_with name ''re.''
     then or_default (vars_get (req_vars request) name)
     else
     (case (case strip_prefix ''http.request.host.labels.'' name of
              Some raw \<Rightarrow> Some raw
            | None \<Rightarrow> strip_prefix ''labels.'' name) of
        Some raw \<Rightarrow> host_label (req_host request) raw
      | None \<Rightarrow>
     if name = ''path'' \<or> name = ''http.request.uri.path'' then path
     else if name = ''uri'' \<or> name = ''http.request.uri'' then req_path request
     else if name = ''query'' \<or> name = ''http.request.uri.query'' then request_query request
     else if name = ''?query'' then
       (if request_query request = [] then [] else ''?'' @ request_query request)
     else if name = ''host'' \<or> name = ''http.request.host'' then host_without_port (req_host request)
     else if name = ''hostport'' \<or> name = ''http.request.hostport'' then req_host request
     else if name = ''port'' \<or> name = ''http.request.port'' then
       (case rsplit_once (CHR '':'') (req_host request) of
          Some (_, port) \<Rightarrow>
            if \<not> str_starts_with (req_host request) ''['' \<or> str_contains (req_host request) '']:''
            then port else []
        | None \<Rightarrow> [])
     else if name = ''method'' \<or> name = ''http.request.method'' then req_method request
     else if name = ''client_ip'' \<or> name = ''http.request.client_ip'' then
       or_default (map_option show_ip_addr (addr_client_ip (req_addresses request)))
     else if name = ''remote_host'' \<or> name = ''http.request.remote.host'' then
       or_default (map_option show_ip_addr (addr_remote_ip (req_addresses request)))
     else [])))"

definition is_glob_meta :: "byte \<Rightarrow> bool" where
  "is_glob_meta c \<longleftrightarrow> c = CHR ''*'' \<or> c = CHR ''?'' \<or> c = CHR ''['' \<or> c = CHR '']''"

fun push_glob_safe :: "bytes \<Rightarrow> bytes \<Rightarrow> bytes" where
  "push_glob_safe out [] = out"
| "push_glob_safe out (c # value) =
     push_glob_safe (if is_glob_meta c then out @ [CHR ''['', c, CHR '']''] else out @ [c]) value"

text \<open>The loop over \<open>rest\<close>: each round consumes a placeholder.\<close>

function expand_pattern_loop ::
    "matcher_request \<Rightarrow> bytes \<Rightarrow> bytes \<Rightarrow> bytes \<Rightarrow> bytes" where
  "expand_pattern_loop request path out rest =
     (case split_once (CHR ''{'') rest of
        None \<Rightarrow> out @ rest
      | Some (literal, opened) \<Rightarrow>
          (case split_once (CHR ''}'') opened of
             None \<Rightarrow> (out @ literal) @ rest
           | Some (name, rest) \<Rightarrow>
               expand_pattern_loop request path
                 (push_glob_safe (out @ literal) (resolve_matcher_placeholder name request path)) rest))"
  by pat_completeness auto
termination
  by (relation "measure (\<lambda>(request, path, out, rest). length rest)") (auto simp: split_once_Some)

declare expand_pattern_loop.simps [simp del]

definition expand_file_pattern :: "bytes \<Rightarrow> matcher_request \<Rightarrow> bytes \<Rightarrow> bytes" where
  "expand_file_pattern pattern request path =
     (if CHR ''{'' \<notin> set pattern then pattern
      else expand_pattern_loop request path [] pattern)"

fun pattern_globs_loop :: "nat \<Rightarrow> bytes \<Rightarrow> bool" where
  "pattern_globs_loop depth [] = False"
| "pattern_globs_loop depth (c # cs) =
     (if c = CHR ''{'' then pattern_globs_loop (depth + 1) cs
      else if c = CHR ''}'' then pattern_globs_loop (depth - 1) cs
      else if (c = CHR ''*'' \<or> c = CHR ''?'' \<or> c = CHR ''['') \<and> depth = 0 then True
      else pattern_globs_loop depth cs)"

definition pattern_globs :: "bytes \<Rightarrow> bool" where
  "pattern_globs pattern = pattern_globs_loop 0 pattern"

section \<open>Cleaning and splitting a candidate\<close>

definition resolve_segment :: "bytes list \<Rightarrow> bytes \<Rightarrow> bytes list" where
  "resolve_segment resolved segment =
     (if segment = [] \<or> segment = ''.'' then resolved
      else if segment = ''..'' then butlast resolved
      else resolved @ [segment])"

definition clean_file_path :: "bytes \<Rightarrow> bytes" where
  "clean_file_path path =
     (if \<not> str_contains path ''//'' \<and>
         \<not> list_ex (\<lambda>s. s = ''.'' \<or> s = ''..'') (split_on (CHR ''/'') path)
      then (case strip_suffix ''/'' path of Some rest \<Rightarrow> rest | None \<Rightarrow> path)
      else foldl (\<lambda>cleaned segment. cleaned @ ''/'' @ segment) []
             (foldl resolve_segment [] (split_on (CHR ''/'') path)))"

definition split_ends_segment :: "bytes \<Rightarrow> bytes \<Rightarrow> nat \<Rightarrow> bool" where
  "split_ends_segment path needle index \<longleftrightarrow>
     list_all2 eq_ignore_case (take (length needle) (drop index path)) needle \<and>
     (let stop = index + length needle in stop = length path \<or> path ! stop = CHR ''/'')"

fun first_split :: "bytes \<Rightarrow> bytes list \<Rightarrow> bytes \<times> bytes" where
  "first_split path [] = (path, [])"
| "first_split path (needle # split_path) =
     (if needle = [] \<or> length path < length needle then first_split path split_path
      else
        (case find (split_ends_segment path needle) [0..<length path - length needle + 1] of
           Some index \<Rightarrow>
             (take (index + length needle) path, drop (index + length needle) path)
         | None \<Rightarrow> first_split path split_path))"

definition file_exists_strict :: "filesystem \<Rightarrow> bytes \<Rightarrow> bool \<Rightarrow> bool" where
  "file_exists_strict fs full_path wants_directory =
     (case fs_metadata fs full_path of
        None \<Rightarrow> False
      | Some metadata \<Rightarrow> meta_is_dir metadata = wants_directory)"

definition parse_error_code :: "bytes \<Rightarrow> nat option" where
  "parse_error_code candidate =
     (case strip_prefix ''='' candidate of
        None \<Rightarrow> None
      | Some code \<Rightarrow>
          (case parse_uint 16 code of
             None \<Rightarrow> None
           | Some status \<Rightarrow> if 100 \<le> status \<and> status \<le> 999 then Some status else None))"

section \<open>Candidates\<close>

record file_candidate =
  cand_full_path :: bytes
  cand_relative :: bytes
  cand_remainder :: bytes
  cand_is_dir :: bool

definition max_glob_candidates :: nat where
  "max_glob_candidates = 1024"

text \<open>
  \<open>Path::strip_prefix\<close>: components are compared, so empty and \<open>.\<close> pieces after the first are
  skipped, and what is left is trimmed of such pieces at both ends.
\<close>

definition skipped_piece :: "bytes \<Rightarrow> bool" where
  "skipped_piece p \<longleftrightarrow> p = [] \<or> p = ''.''"

definition trim_pieces_end :: "bytes list \<Rightarrow> bytes list" where
  "trim_pieces_end ps = rev (dropWhile skipped_piece (rev ps))"

fun drop_components :: "bytes list \<Rightarrow> bytes list \<Rightarrow> bytes list option" where
  "drop_components [] ps = Some (dropWhile skipped_piece ps)"
| "drop_components (b # bs) ps =
     (case dropWhile skipped_piece ps of
        p # ps \<Rightarrow> if p = b then drop_components bs ps else None
      | [] \<Rightarrow> None)"

definition leading_component :: "bytes \<Rightarrow> bytes option" where
  "leading_component s =
     (if str_starts_with s ''/'' then Some ''/''
      else if hd (split_on (CHR ''/'') s) = ''.'' then Some ''.'' else None)"

definition path_strip_prefix :: "bytes \<Rightarrow> bytes \<Rightarrow> bytes option" where
  "path_strip_prefix base path =
     (if base = [] then
        Some (if str_starts_with path ''/''
              then ''/'' @ join_with ''/'' (trim_pieces_end (split_on (CHR ''/'') (tl path)))
              else join_with ''/'' (trim_pieces_end (split_on (CHR ''/'') path)))
      else if leading_component base = leading_component path then
        map_option (\<lambda>ps. join_with ''/'' (trim_pieces_end ps))
          (drop_components (filter (\<lambda>p. \<not> skipped_piece p) (split_on (CHR ''/'') base))
             (split_on (CHR ''/'') path))
      else None)"

fun globbed_candidates :: "bytes \<Rightarrow> bytes \<Rightarrow> bool \<Rightarrow> bytes list \<Rightarrow> file_candidate list" where
  "globbed_candidates root remainder wants_directory [] = []"
| "globbed_candidates root remainder wants_directory (entry # entries) =
     (case Option.bind (path_strip_prefix root entry) path_bytes of
        None \<Rightarrow> globbed_candidates root remainder wants_directory entries
      | Some below_root \<Rightarrow>
          \<lparr>cand_full_path = entry, cand_relative = push_encoded_path ''/'' below_root,
           cand_remainder = remainder, cand_is_dir = wants_directory\<rparr>
          # globbed_candidates root remainder wants_directory entries)"

definition ensure_trailing_slash :: "bool \<Rightarrow> bytes \<Rightarrow> bytes" where
  "ensure_trailing_slash wants_directory s =
     (if wants_directory \<and> \<not> str_ends_with s ''/'' then s @ ''/'' else s)"

text \<open>
  \<open>FileCandidates\<close> as the slice its callers read. The walk behind a glob always has fuel to finish
  (\<open>File_Glob.expand_walk_result\<close>).
\<close>

definition file_candidates ::
    "filesystem \<Rightarrow> matcher_request \<Rightarrow> bytes \<Rightarrow> bytes \<Rightarrow> bytes \<Rightarrow> bytes list \<Rightarrow> file_candidate list" where
  "file_candidates fs request pattern path root split_path =
     (let expanded = expand_file_pattern pattern request path;
          wants_directory = str_ends_with pattern ''/'';
          cleaned = ensure_trailing_slash wants_directory (clean_file_path expanded);
          (before_split, remainder) = first_split cleaned split_path;
          split_path_part = ensure_trailing_slash wants_directory before_split
      in if \<not> pattern_globs pattern then
           (case resolve_under_root root split_path_part of
              None \<Rightarrow> []
            | Some full_path \<Rightarrow>
                [\<lparr>cand_full_path = full_path,
                  cand_relative = ''/'' @ dropWhile (\<lambda>c. c = CHR ''/'') split_path_part,
                  cand_remainder = remainder, cand_is_dir = wants_directory\<rparr>])
         else
           globbed_candidates root remainder wants_directory
             (case expand fs root split_path_part max_glob_candidates of
                Some entries \<Rightarrow> entries | None \<Rightarrow> []))"

definition set_file_placeholders :: "file_candidate \<Rightarrow> matcher_request \<Rightarrow> matcher_request" where
  "set_file_placeholders candidate request =
     (case req_vars request of
        None \<Rightarrow> request
      | Some vars \<Rightarrow>
          (let vars = bt_insert ''http.matchers.file.relative'' (cand_relative candidate) vars;
               vars = (if utf8_valid (cand_full_path candidate)
                       then bt_insert ''http.matchers.file.absolute'' (cand_full_path candidate) vars
                       else vars);
               vars = bt_insert ''http.matchers.file.type''
                        (if cand_is_dir candidate then ''directory'' else ''file'') vars;
               vars = bt_insert ''http.matchers.file.remainder'' (cand_remainder candidate) vars
           in request\<lparr>req_vars := Some vars\<rparr>))"

section \<open>Evaluation\<close>

fun try_candidates :: "filesystem \<Rightarrow> bool \<Rightarrow> file_candidate list \<Rightarrow> file_candidate option" where
  "try_candidates fs claim_last [] = None"
| "try_candidates fs claim_last (candidate # candidates) =
     (if claim_last then Some candidate
      else if file_exists_strict fs (cand_full_path candidate) (cand_is_dir candidate)
      then Some candidate
      else try_candidates fs claim_last candidates)"

text \<open>\<open>index + 1 == try_files.len()\<close> holds for the pattern that has none after it.\<close>

fun first_exist_loop ::
    "filesystem \<Rightarrow> (bytes \<Rightarrow> file_candidate list) \<Rightarrow> bool \<Rightarrow> bytes list \<Rightarrow> matcher_request \<Rightarrow>
      matcher_verdict \<times> matcher_request" where
  "first_exist_loop fs candidates fallback_last [] request = (NoMatch, request)"
| "first_exist_loop fs candidates fallback_last (pattern # patterns) request =
     (case parse_error_code pattern of
        Some status \<Rightarrow> (Error status, request)
      | None \<Rightarrow>
          (case try_candidates fs (fallback_last \<and> patterns = []) (candidates pattern) of
             Some candidate \<Rightarrow> (Match, set_file_placeholders candidate request)
           | None \<Rightarrow> first_exist_loop fs candidates fallback_last patterns request))"

definition candidate_key :: "bytes \<Rightarrow> file_meta \<Rightarrow> nat" where
  "candidate_key policy metadata =
     (if policy = ''largest_size'' then meta_len metadata
      else if policy = ''smallest_size'' then (2 ^ 64 - 1) - meta_len metadata
      else (case meta_mtime metadata of Some nanos \<Rightarrow> nanos mod 2 ^ 64 | None \<Rightarrow> 0))"

fun pick_best ::
    "filesystem \<Rightarrow> bytes \<Rightarrow> file_candidate list \<Rightarrow> (file_candidate \<times> nat) option \<Rightarrow>
      (file_candidate \<times> nat) option" where
  "pick_best fs policy [] best = best"
| "pick_best fs policy (candidate # candidates) best =
     (case fs_metadata fs (cand_full_path candidate) of
        None \<Rightarrow> pick_best fs policy candidates best
      | Some metadata \<Rightarrow>
          (let key = candidate_key policy metadata;
               better = (case best of None \<Rightarrow> True | Some (_, best_key) \<Rightarrow> best_key < key)
           in pick_best fs policy candidates (if better then Some (candidate, key) else best)))"

definition evaluate_file_matcher ::
    "filesystem \<Rightarrow> matcher_request \<Rightarrow> bytes list \<Rightarrow> bytes option \<Rightarrow> bytes option \<Rightarrow> bytes list \<Rightarrow>
      matcher_verdict \<times> matcher_request" where
  "evaluate_file_matcher fs request try_files root try_policy split_path =
     (let path = (case split_once (CHR ''?'') (req_path request) of
                    Some (path, _) \<Rightarrow> path | None \<Rightarrow> req_path request);
          root = (case root of Some root \<Rightarrow> root | None \<Rightarrow> ''.'');
          policy = (case try_policy of Some policy \<Rightarrow> policy | None \<Rightarrow> ''first_exist'');
          candidates = (\<lambda>pattern. file_candidates fs request pattern path root split_path)
      in if policy = ''first_exist'' \<or> policy = ''first_exist_fallback'' \<or> policy = [] then
           first_exist_loop fs candidates (policy = ''first_exist_fallback'') try_files request
         else if policy = ''largest_size'' \<or> policy = ''smallest_size'' \<or>
                 policy = ''most_recently_modified'' then
           (case foldl (\<lambda>best pattern. pick_best fs policy (candidates pattern) best) None try_files of
              Some (candidate, _) \<Rightarrow> (Match, set_file_placeholders candidate request)
            | None \<Rightarrow> (NoMatch, request))
         else (NoMatch, request))"

section \<open>Resolved names\<close>

lemma strip_prefix_None: "strip_prefix p s = None \<longleftrightarrow> \<not> str_starts_with s p"
  by (simp add: strip_prefix_def str_starts_with_def)

section \<open>Splitting\<close>

lemma split_ends_segment_parts:
  assumes "split_ends_segment path needle index" "index + length needle \<le> length path"
  shows "ends_with (take (index + length needle) path) needle"
    "drop (index + length needle) path = [] \<or> hd (drop (index + length needle) path) = CHR ''/''"
proof -
  let ?n = "length needle"
  from assms have "length (take (index + ?n) path) = index + ?n"
    "drop (index + ?n - ?n) (take (index + ?n) path) = take ?n (drop index path)"
    by (simp_all add: drop_take)
  with assms(1) show "ends_with (take (index + ?n) path) needle"
    unfolding ends_with_def eq_ignore_ascii_case_def split_ends_segment_def
    by (metis le_add2 list_all2_lengthD)
  from assms(1) have "index + ?n = length path \<or> path ! (index + ?n) = CHR ''/''"
    by (simp add: split_ends_segment_def Let_def)
  with assms(2) show "drop (index + ?n) path = [] \<or> hd (drop (index + ?n) path) = CHR ''/''"
    by (cases "index + ?n < length path") (simp_all add: hd_drop_conv_nth)
qed

section \<open>Choosing the best candidate\<close>

definition candidate_rank :: "filesystem \<Rightarrow> bytes \<Rightarrow> file_candidate \<Rightarrow> nat option" where
  "candidate_rank fs policy candidate =
     map_option (candidate_key policy) (fs_metadata fs (cand_full_path candidate))"

text \<open>A candidate that exists and that no candidate of the list outranks.\<close>

definition unbeaten :: "filesystem \<Rightarrow> bytes \<Rightarrow> file_candidate list \<Rightarrow> file_candidate \<Rightarrow> bool" where
  "unbeaten fs policy cs c =
     (case candidate_rank fs policy c of
        None \<Rightarrow> False
      | Some k \<Rightarrow>
          list_all (\<lambda>d. case candidate_rank fs policy d of None \<Rightarrow> True | Some l \<Rightarrow> l \<le> k) cs)"

lemma pick_best_append:
  "pick_best fs policy (cs @ ds) best = pick_best fs policy ds (pick_best fs policy cs best)"
  by (induction fs policy cs best rule: pick_best.induct) (auto simp: Let_def split: option.splits)

lemma pick_best_concat:
  "foldl (\<lambda>best pattern. pick_best fs policy (f pattern) best) best patterns
    = pick_best fs policy (concat (map f patterns)) best"
  by (induction patterns arbitrary: best) (simp_all add: pick_best_append)

lemma pick_best_snoc:
  "pick_best fs policy (cs @ [c]) best =
    (case candidate_rank fs policy c of
       None \<Rightarrow> pick_best fs policy cs best
     | Some k \<Rightarrow>
         (case pick_best fs policy cs best of
            None \<Rightarrow> Some (c, k)
          | Some (d, l) \<Rightarrow> if l < k then Some (c, k) else Some (d, l)))"
  unfolding pick_best_append
  by (cases "pick_best fs policy cs best") (auto simp: candidate_rank_def Let_def split: option.splits)

lemma pick_best_unbeaten:
  "(case pick_best fs policy cs None of
      None \<Rightarrow> \<forall>c \<in> set cs. candidate_rank fs policy c = None
    | Some (c, k) \<Rightarrow> candidate_rank fs policy c = Some k \<and> find (unbeaten fs policy cs) cs = Some c)"
proof (induction cs rule: rev_induct)
  case (snoc c cs)
  show ?case
  proof (cases "candidate_rank fs policy c")
    case None
    then have "unbeaten fs policy (cs @ [c]) = unbeaten fs policy cs"
      by (auto simp: unbeaten_def fun_eq_iff split: option.splits)
    with None snoc show ?thesis
      by (auto simp: pick_best_snoc find_append split: option.splits)
  next
    case (Some k)
    note rank = Some
    show ?thesis
    proof (cases "pick_best fs policy cs None")
      case None
      with snoc have none: "\<forall>d \<in> set cs. candidate_rank fs policy d = None" by simp
      then have "find (unbeaten fs policy (cs @ [c])) cs = None"
        by (auto simp: find_None_iff unbeaten_def)
      with None rank none show ?thesis
        by (auto simp: pick_best_snoc find_append unbeaten_def list_all_iff)
    next
      case (Some best)
      then obtain d l where best: "pick_best fs policy cs None = Some (d, l)" by (cases best) auto
      with snoc have d: "candidate_rank fs policy d = Some l" "find (unbeaten fs policy cs) cs = Some d"
        by simp_all
      from find_SomeD [OF d(2)] d(1)
      have top: "\<And>e m. e \<in> set cs \<Longrightarrow> candidate_rank fs policy e = Some m \<Longrightarrow> m \<le> l"
        by (fastforce simp: unbeaten_def list_all_iff split: option.splits)
      show ?thesis
      proof (cases "l < k")
        case True
        with top rank have "find (unbeaten fs policy (cs @ [c])) cs = None"
          by (fastforce simp: find_None_iff unbeaten_def split: option.splits)
        moreover have "unbeaten fs policy (cs @ [c]) c"
          using True top rank by (fastforce simp: unbeaten_def list_all_iff split: option.splits)
        ultimately show ?thesis using True best rank
          by (simp add: pick_best_snoc find_append)
      next
        case False
        have "find (unbeaten fs policy (cs @ [c])) cs = Some d"
          by (rule find_weaken [OF d(2)])
            (use False top rank d(1) in \<open>fastforce simp: unbeaten_def list_all_iff split: option.splits\<close>)+
        with False best rank d(1) show ?thesis
          by (simp add: pick_best_snoc find_append)
      qed
    qed
  qed
qed simp

lemma pick_best_eq:
  "map_option prod.fst (pick_best fs policy cs None) = find (unbeaten fs policy cs) cs"
  using pick_best_unbeaten [where fs = fs and policy = policy and cs = cs]
  by (cases "pick_best fs policy cs None")
    (auto simp: find_None_iff unbeaten_def eq_commute [of None])

section \<open>Escaped values\<close>

definition safe_byte :: "byte \<Rightarrow> bytes" where
  "safe_byte c = (if is_glob_meta c then [CHR ''['', c, CHR '']''] else [c])"

lemma push_glob_safe_concat: "push_glob_safe out v = out @ concat (map safe_byte v)"
  by (induction out v rule: push_glob_safe.induct) (auto simp: safe_byte_def)

lemma safe_byte_high: "128 \<le> byte_val c \<Longrightarrow> safe_byte c = [c]"
  by (auto simp: safe_byte_def is_glob_meta_def)

lemma compile_escaped:
  assumes "is_glob_meta c"
  shows "glob_compile_loop (pre @ CHR ''['' # c # CHR '']'' # rest) (length pre) tokens =
    glob_compile_loop (pre @ CHR ''['' # c # CHR '']'' # rest) (length pre + 3)
      (tokens @ [TSet False [(byte_val c, byte_val c)]])"
proof -
  let ?p = "pre @ CHR ''['' # c # CHR '']'' # rest" and ?i = "length pre"
  have bt: "byte_at ?p (?i + 1) = Some c" "byte_at ?p (?i + 2) = Some (CHR '']'')"
    "?p ! (?i + 1) = c" "?p ! (?i + 2) = CHR '']''" "?p ! ?i = CHR ''[''" "?i + 2 < length ?p"
    by (simp_all add: byte_at_def nth_append)
  have "find_close ?p (?i + 2) = Some (?i + 3)"
    using bt by (subst find_close.simps) (simp add: numeral_3_eq_3)
  moreover have "c \<noteq> CHR '']'' \<Longrightarrow> find_close ?p (?i + 1) = find_close ?p (?i + 2)"
    using bt by (subst find_close.simps) simp
  ultimately have "class_end ?p ?i = Some (?i + 3)"
    using bt assms by (auto simp: class_end_def Let_def is_glob_meta_def)
  moreover have "parse_set [c] = TSet False [(byte_val c, byte_val c)]"
    using assms
    by (auto simp: parse_set_def strip_prefix_def is_glob_meta_def utf8_scan_ascii
        utf8_code_point_def safe_get_def)
  ultimately show ?thesis using bt
    by (subst glob_compile_loop.simps) (simp add: numeral_eq_Suc)
qed

lemma compile_literal:
  assumes "utf8_scan (b # bs) = (True, n)" "\<not> is_glob_meta b" "n \<le> length (b # bs)"
    and "p = pre @ take n (b # bs) @ rest"
  shows "glob_compile_loop p (length pre) tokens =
    glob_compile_loop p (length pre + n) (tokens @ [TLiteral (utf8_code_point (b # bs) n)])"
proof -
  from utf8_scan_pos [OF assms(1)] have n: "0 < n" by simp
  have d: "drop (length pre) p = take n (b # bs) @ rest" using assms(4) by simp
  have "safe_get (take n (b # bs) @ rest) i = safe_get (b # bs) i" if "i < n" for i
    using that assms(3) by (auto simp: safe_get_def nth_append)
  note same = utf8_scan_cong [OF assms(1) this]
  have "p ! length pre = b" "length pre < length p" using assms(3,4) n by (simp_all add: nth_append)
  with assms(2) same d show ?thesis
    by (subst glob_compile_loop.simps) (auto simp: is_glob_meta_def)
qed

text \<open>The tokens a value compiles to once escaped: one per character, no star among them.\<close>

fun char_token :: "nat \<Rightarrow> token" where
  "char_token c =
     (if c \<in> {byte_val (CHR ''*''), byte_val (CHR ''?''), byte_val (CHR ''[''), byte_val (CHR '']'')}
      then TSet False [(c, c)] else TLiteral c)"

lemma char_token_meta: "is_glob_meta b \<Longrightarrow> char_token (byte_val b) = TSet False [(byte_val b, byte_val b)]"
  by (auto simp: is_glob_meta_def)

lemma compile_safe:
  "utf8_valid v \<Longrightarrow>
    glob_compile_loop (pre @ concat (map safe_byte v)) (length pre) tokens =
      Some (tokens @ map char_token (chars_of v))"
proof (induction v arbitrary: pre tokens rule: utf8_valid.induct)
  case 1
  show ?case by (subst glob_compile_loop.simps) simp
next
  case (2 b bs)
  obtain n where s: "utf8_scan (b # bs) = (True, n)" and v: "utf8_valid (drop n (b # bs))"
    using "2.prems" by (cases "utf8_scan (b # bs)") auto
  let ?p = "pre @ concat (map safe_byte (b # bs))" and ?rest = "concat (map safe_byte (drop n (b # bs)))"
  note IH = "2.IH" [OF s [symmetric] v]
  have n: "n \<le> length (b # bs)" using utf8_scan_length [OF _ s] by simp
  show ?case
  proof (cases "is_glob_meta b")
    case True
    then have b: "byte_val b < 128" by (auto simp: is_glob_meta_def)
    with s have "n = 1" by (simp add: utf8_scan_ascii)
    with True b s IH [of "pre @ [CHR ''['', b, CHR '']'']"] compile_escaped [OF True] char_token_meta [OF True]
    show ?thesis by (simp add: safe_byte_def utf8_code_point_def safe_get_def numeral_3_eq_3 del: char_token.simps)
  next
    case False
    have "char_token (utf8_code_point (b # bs) n) = TLiteral (utf8_code_point (b # bs) n)"
    proof (cases "1 < n")
      case True
      from utf8_code_point_high [OF s True] show ?thesis by auto
    next
      assume "\<not> 1 < n"
      then have "n = 1" using utf8_scan_pos [OF s] by simp
      moreover have "byte_val b \<noteq> byte_val c" if "is_glob_meta c" for c
        using False that by (auto simp: byte_val_inj)
      from this [of "CHR ''*''"] this [of "CHR ''?''"] this [of "CHR ''[''"] this [of "CHR '']''"]
      have "byte_val b \<notin> {byte_val (CHR ''*''), byte_val (CHR ''?''), byte_val (CHR ''[''), byte_val (CHR '']'')}"
        by (simp add: is_glob_meta_def)
      ultimately show ?thesis by (simp add: utf8_code_point_def safe_get_def)
    qed
    moreover have same: "concat (map safe_byte (take n (b # bs))) = take n (b # bs)"
    proof (cases "1 < n")
      case True
      have "map safe_byte (take n (b # bs)) = map (\<lambda>c. [c]) (take n (b # bs))"
      proof (rule map_cong [OF refl])
        fix c assume "c \<in> set (take n (b # bs))"
        then obtain i where "i < n" "i < length (b # bs)" "c = (b # bs) ! i"
          by (auto simp: in_set_conv_nth)
        with utf8_scan_high [OF s True, of i] show "safe_byte c = [c]"
          by (simp add: safe_get_def safe_byte_high)
      qed
      then show ?thesis by (simp only: concat_map_singleton list.map_ident)
    next
      assume "\<not> 1 < n"
      then have "n = 1" using utf8_scan_pos [OF s] by simp
      with False show ?thesis by (simp add: safe_byte_def)
    qed
    have p: "?p = pre @ take n (b # bs) @ ?rest"
      by (subst (1) append_take_drop_id [of n "b # bs", symmetric])
        (simp only: map_append concat_append same)
    moreover note compile_literal [OF s False n p]
    moreover have "length (pre @ take n (b # bs)) = length pre + n" using n by simp
    moreover have "map char_token (chars_of (b # bs)) =
        char_token (utf8_code_point (b # bs) n) # map char_token (chars_of (drop n (b # bs)))"
      using s by (simp del: char_token.simps)
    ultimately show ?thesis using IH [of "pre @ take n (b # bs)"]
      by (simp del: char_token.simps concat.simps list.map chars_of.simps)
  qed
qed

lemma star_match_tokens:
  "list_all (\<lambda>t. \<not> st t) ts \<Longrightarrow> star_match st fit ts us = list_all2 fit ts us"
proof (induction ts arbitrary: us)
  case (Cons t ts)
  then show ?case by (cases us) auto
qed auto

lemma char_token_fits: "token_fits (char_token c) u \<longleftrightarrow> u = Some c"
  by (auto split: option.splits)

lemma char_tokens_fit: "list_all2 token_fits (map char_token cs) us \<longleftrightarrow> us = map Some cs"
  by (induction cs arbitrary: us)
    (auto simp: list_all2_Cons1 char_token_fits simp del: char_token.simps)

section \<open>Cleaned paths\<close>

lemma foldl_segments: "foldl (\<lambda>cleaned s. cleaned @ ''/'' @ s) acc segs = acc @ concat (map (\<lambda>s. CHR ''/'' # s) segs)"
  by (induction segs arbitrary: acc) auto

lemma split_on_segments:
  "\<forall>s \<in> set segs. c \<notin> set s \<Longrightarrow> split_on c (concat (map (\<lambda>s. c # s) segs)) = [] # segs"
  using split_join [of "[] # segs" c] join_with_concat [of "[c]" "[]" segs] by simp

definition kept_segment :: "bytes \<Rightarrow> bool" where
  "kept_segment s \<longleftrightarrow> CHR ''/'' \<notin> set s \<and> s \<noteq> [] \<and> s \<noteq> ''.'' \<and> s \<noteq> ''..''"

lemma resolve_segment_kept:
  assumes "CHR ''/'' \<notin> set s" "list_all kept_segment acc"
  shows "list_all kept_segment (resolve_segment acc s)"
proof -
  from assms(2) have "list_all kept_segment (butlast acc)"
    by (auto simp: list_all_iff dest: in_set_butlastD)
  with assms show ?thesis unfolding resolve_segment_def
    by (simp add: kept_segment_def)
qed

lemma resolve_segments_kept:
  "\<forall>s \<in> set segs. CHR ''/'' \<notin> set s \<Longrightarrow> list_all kept_segment acc \<Longrightarrow>
    list_all kept_segment (foldl resolve_segment acc segs)"
  by (induction segs arbitrary: acc) (simp_all add: resolve_segment_kept)

lemma resolve_segments_id:
  "list_all kept_segment segs \<Longrightarrow> foldl resolve_segment acc segs = acc @ segs"
  by (induction segs arbitrary: acc) (simp_all add: resolve_segment_def kept_segment_def)

lemma double_slash_segments:
  "str_contains s ''//'' \<Longrightarrow> \<exists>a b. split_on (CHR ''/'') s = a @ [] # b \<and> a \<noteq> [] \<and> b \<noteq> []"
proof -
  assume "str_contains s ''//''"
  then obtain x y where s: "s = x @ CHR ''/'' # [] @ CHR ''/'' # y" by (auto simp: str_contains_iff)
  have "split_on (CHR ''/'') s = split_on (CHR ''/'') x @ split_on (CHR ''/'') ([] @ CHR ''/'' # y)"
    unfolding s by (rule split_on_sep)
  also have "\<dots> = split_on (CHR ''/'') x @ [] # split_on (CHR ''/'') y" by simp
  finally show ?thesis by (metis split_on_not_Nil)
qed

lemma clean_file_path_segments:
  "list_all (\<lambda>s. s \<noteq> ''.'' \<and> s \<noteq> ''..'') (split_on (CHR ''/'') (clean_file_path path))"
proof (cases "\<not> str_contains path ''//'' \<and> \<not> list_ex (\<lambda>s. s = ''.'' \<or> s = ''..'') (split_on (CHR ''/'') path)")
  case True
  show ?thesis
  proof (cases "strip_suffix ''/'' path")
    case (Some rest)
    then have "split_on (CHR ''/'') path = split_on (CHR ''/'') rest @ [[]]"
      by (simp add: strip_suffix_Some split_on_sep)
    with True Some show ?thesis by (auto simp: clean_file_path_def list_all_iff list_ex_iff)
  qed (use True in \<open>auto simp: clean_file_path_def list_all_iff list_ex_iff\<close>)
next
  case False
  let ?segs = "foldl resolve_segment [] (split_on (CHR ''/'') path)"
  have *: "list_all kept_segment ?segs"
    by (rule resolve_segments_kept) (auto dest: split_on_pieces)
  have "clean_file_path path = concat (map (\<lambda>s. CHR ''/'' # s) ?segs)"
    using False foldl_segments [of "[]" ?segs] by (auto simp: clean_file_path_def)
  with * split_on_segments [of ?segs "CHR ''/''"] show ?thesis
    by (simp add: list_all_iff kept_segment_def)
qed

lemma no_trailing_slash:
  "\<not> str_contains path ''//'' \<Longrightarrow> strip_suffix ''/'' path = Some rest \<Longrightarrow>
    \<not> str_contains rest ''//'' \<and> strip_suffix ''/'' rest = None"
proof (intro conjI)
  assume *: "\<not> str_contains path ''//''" "strip_suffix ''/'' path = Some rest"
  then have path: "path = rest @ ''/''" by (simp add: strip_suffix_Some)
  show "\<not> str_contains rest ''//''"
  proof
    assume "str_contains rest ''//''"
    then obtain a b where "rest = a @ ''//'' @ b" by (auto simp: str_contains_iff)
    with path have "path = a @ ''//'' @ (b @ ''/'')" by simp
    with *(1) show False unfolding str_contains_iff by blast
  qed
  show "strip_suffix ''/'' rest = None"
  proof (rule ccontr)
    assume "strip_suffix ''/'' rest \<noteq> None"
    then obtain r where "rest = r @ ''/''" by (auto simp: strip_suffix_Some)
    with path have "path = r @ ''//'' @ []" by simp
    with *(1) show False unfolding str_contains_iff by blast
  qed
qed

lemma kept_segments_clean:
  assumes "list_all kept_segment segs" "q = concat (map (\<lambda>s. CHR ''/'' # s) segs)"
  shows "\<not> str_contains q ''//''" "strip_suffix ''/'' q = None"
proof -
  have q: "split_on (CHR ''/'') q = [] # segs"
    using assms split_on_segments [of segs "CHR ''/''"] by (simp add: list_all_iff kept_segment_def)
  have ne: "[] \<notin> set segs" using assms(1) by (auto simp: list_all_iff kept_segment_def)
  show "\<not> str_contains q ''//''"
  proof
    assume "str_contains q ''//''"
    from double_slash_segments [OF this] q obtain a b where "[] # segs = a @ [] # b" "a \<noteq> []" by auto
    with ne show False by (cases a) auto
  qed
  show "strip_suffix ''/'' q = None"
  proof (rule ccontr)
    assume "strip_suffix ''/'' q \<noteq> None"
    then obtain r where r: "q = r @ [CHR ''/'']" by (auto simp: strip_suffix_Some)
    then have "[] # segs = split_on (CHR ''/'') r @ [[]]" using q split_on_sep [of "CHR ''/''" r "[]"] by simp
    moreover have "segs \<noteq> []" using r assms(2) by auto
    ultimately have "last segs = []" by (metis last_ConsR last_snoc)
    with ne \<open>segs \<noteq> []\<close> show False by (metis last_in_set)
  qed
qed

lemma clean_file_path_clean:
  "\<not> str_contains (clean_file_path path) ''//'' \<and> strip_suffix ''/'' (clean_file_path path) = None"
proof (cases "\<not> str_contains path ''//'' \<and> \<not> list_ex (\<lambda>s. s = ''.'' \<or> s = ''..'') (split_on (CHR ''/'') path)")
  case True
  then show ?thesis
    by (cases "strip_suffix ''/'' path") (auto simp: clean_file_path_def dest: no_trailing_slash)
next
  case False
  let ?segs = "foldl resolve_segment [] (split_on (CHR ''/'') path)"
  have "list_all kept_segment ?segs"
    by (rule resolve_segments_kept) (auto dest: split_on_pieces)
  moreover have "clean_file_path path = concat (map (\<lambda>s. CHR ''/'' # s) ?segs)"
    using False foldl_segments [of "[]" ?segs] by (auto simp: clean_file_path_def)
  ultimately show ?thesis using kept_segments_clean by blast
qed

lemma clean_file_path_idem: "clean_file_path (clean_file_path path) = clean_file_path path"
proof -
  let ?q = "clean_file_path path"
  have "\<not> list_ex (\<lambda>s. s = ''.'' \<or> s = ''..'') (split_on (CHR ''/'') ?q)"
    using clean_file_path_segments [of path] by (auto simp: list_ex_iff list_all_iff)
  with clean_file_path_clean [of path] show ?thesis
    by (subst (1) clean_file_path_def) simp
qed

section \<open>The first existing candidate\<close>

lemma try_candidates_find:
  "try_candidates fs False cs =
    find (\<lambda>c. file_exists_strict fs (cand_full_path c) (cand_is_dir c)) cs"
  by (induction cs) auto

lemma first_exist_loop_find:
  "first_exist_loop fs candidates False patterns request =
    (case find (\<lambda>c. file_exists_strict fs (cand_full_path c) (cand_is_dir c))
            (concat (map candidates (takeWhile (\<lambda>p. parse_error_code p = None) patterns))) of
       Some c \<Rightarrow> (Match, set_file_placeholders c request)
     | None \<Rightarrow>
         (case dropWhile (\<lambda>p. parse_error_code p = None) patterns of
            [] \<Rightarrow> (NoMatch, request)
          | p # _ \<Rightarrow> (Error (the (parse_error_code p)), request)))"
  by (induction patterns) (auto simp: try_candidates_find find_append split: option.splits)

lemma first_split_parts:
  "case first_split path splits of (script, info) \<Rightarrow>
     script @ info = path \<and>
     (info = [] \<or> hd info = CHR ''/'' \<and> list_ex (\<lambda>needle. needle \<noteq> [] \<and> ends_with script needle) splits)"
proof (induction path splits rule: first_split.induct)
  case (2 path needle splits)
  show ?case
  proof (cases "find (split_ends_segment path needle) [0..<length path - length needle + 1]")
    case (Some index)
    show ?thesis
    proof (cases "needle = [] \<or> length path < length needle")
      case False
      from find_SomeD [OF Some] False have "split_ends_segment path needle index"
        "index + length needle \<le> length path" by auto
      with split_ends_segment_parts [OF this] Some False show ?thesis by auto
    qed (use 2 in auto)
  qed (use 2 in auto)
qed simp

section \<open>Two surprises\<close>

text \<open>
  The text in front of an unterminated brace is written twice, although the comment says such a
  brace is kept verbatim.
\<close>

lemma expand_file_pattern_unterminated:
  "expand_file_pattern ''/a{b'' request path = ''/a/a{b''"
  by (simp add: expand_file_pattern_def, subst expand_pattern_loop.simps) simp

text \<open>
  A candidate that does not glob is still expanded with glob-escaped values, so the file asked about
  for \<open>{path}\<close> is not the one the request names when that name holds a metacharacter.
\<close>

lemma file_candidates_escaped_name:
  "map cand_full_path
     (file_candidates fs \<lparr>req_path = ''/a*'', req_method = ''GET'', req_headers = (\<lambda>_. None),
        req_host = [], req_addresses = \<lparr>addr_client_ip = None, addr_remote_ip = None\<rparr>,
        req_protocol = [], req_vars = None\<rparr> ''{path}'' ''/a*'' ''/srv'' []) = [''/srv/a[*]'']"
proof -
  have "expand_file_pattern ''{path}'' request path = push_glob_safe [] path" for request path
    by (simp add: expand_file_pattern_def, subst expand_pattern_loop.simps)
      (simp add: resolve_matcher_placeholder_def strip_prefix_def str_starts_with_def,
        subst expand_pattern_loop.simps, simp add: push_glob_safe_concat)
  then show ?thesis
    by (simp add: file_candidates_def Let_def is_glob_meta_def clean_file_path_def str_contains_def
        str_ends_with_def strip_suffix_def ensure_trailing_slash_def pattern_globs_def
        resolve_under_root_def path_push_def)
qed

section \<open>Small inputs\<close>

definition bare_request :: "bytes \<Rightarrow> matcher_request" where
  "bare_request path = \<lparr>req_path = path, req_method = ''GET'', req_headers = (\<lambda>_. None),
     req_host = ''example.com'', req_addresses = \<lparr>addr_client_ip = None, addr_remote_ip = None\<rparr>,
     req_protocol = ''HTTP/1.1'', req_vars = None\<rparr>"

definition two_files :: filesystem where
  "two_files =
     \<lparr>fs_metadata = (\<lambda>p. if p = ''./a'' then Some \<lparr>meta_is_dir = False, meta_len = 1, meta_mtime = None\<rparr>
                       else if p = ''./b'' then Some \<lparr>meta_is_dir = False, meta_len = 2, meta_mtime = None\<rparr>
                       else None),
      fs_read_dir = (\<lambda>_. None)\<rparr>"

definition two_candidates :: "file_candidate list" where
  "two_candidates =
     map (\<lambda>n. \<lparr>cand_full_path = ''./'' @ n, cand_relative = ''/'' @ n, cand_remainder = [], cand_is_dir = False\<rparr>)
       [''a'', ''b'']"

section \<open>Properties\<close>

text \<open>
  A placeholder value substituted into a file pattern can only match itself. Escaped, any UTF-8
  value compiles, and the compiled pattern matches exactly the names made of the value's own
  characters: no request chooses which files a pattern lists.
\<close>

theorem glob_safe_matches_only_itself:
  assumes "utf8_valid v"
  shows "\<exists>tokens. glob_compile (push_glob_safe [] v) = Some tokens \<and>
    (glob_matches tokens name \<longleftrightarrow> name_units name = map Some (chars_of v))"
proof -
  have "list_all (\<lambda>t. \<not> is_star t) (map char_token (chars_of v))"
    by (auto simp: list_all_iff is_star_def)
  then show ?thesis
    using compile_safe [OF assms, of "[]" "[]"]
    by (simp add: glob_compile_def push_glob_safe_concat glob_matches_star_match star_match_tokens
        char_tokens_fit)
qed

theorem glob_safe_matches_only_itself_witness:
  "utf8_valid ''[*]?'' \<and>
   (\<exists>tokens. glob_compile (push_glob_safe [] ''[*]?'') = Some tokens \<and> \<not> glob_matches tokens ''[x]y'')"
proof
  show v: "utf8_valid ''[*]?''" by code_simp
  have "name_units ''[x]y'' \<noteq> map Some (chars_of ''[*]?'')" by code_simp
  with glob_safe_matches_only_itself [OF v, of "''[x]y''"]
  show "\<exists>tokens. glob_compile (push_glob_safe [] ''[*]?'') = Some tokens \<and> \<not> glob_matches tokens ''[x]y''"
    by blast
qed

text \<open>
  Cleaning a candidate path leaves no \<open>.\<close> or \<open>..\<close> segment, no doubled and no trailing slash, and
  cleaning again changes nothing.
\<close>

theorem clean_file_path_canonical:
  "list_all (\<lambda>s. s \<noteq> ''.'' \<and> s \<noteq> ''..'') (split_on (CHR ''/'') (clean_file_path path)) \<and>
   \<not> str_contains (clean_file_path path) ''//'' \<and> \<not> str_ends_with (clean_file_path path) ''/'' \<and>
   clean_file_path (clean_file_path path) = clean_file_path path"
  using clean_file_path_segments [of path] clean_file_path_clean [of path] clean_file_path_idem [of path]
  by (auto simp: str_ends_with_def strip_suffix_def split: if_splits)

text \<open>
  Splitting a path for \<open>PATH_INFO\<close> loses nothing: the two parts put together are the path. A
  non-empty remainder starts at a slash, right after one of the configured delimiters, letter case
  ignored.
\<close>

theorem first_split_partitions:
  "case first_split path splits of (script, info) \<Rightarrow>
     script @ info = path \<and>
     (info = [] \<or> hd info = CHR ''/'' \<and> list_ex (\<lambda>needle. needle \<noteq> [] \<and> ends_with script needle) splits)"
  by (rule first_split_parts)

text \<open>
  Under the default policy the \<open>file\<close> matcher answers with the first candidate, in configured
  order, that exists with the demanded kind, publishing exactly that candidate. Only patterns before
  the first \<open>=code\<close> entry are tried; when none of their candidates exists, that entry's status is
  raised, and with no such entry the request does not match.
\<close>

theorem file_matcher_first_exist:
  "evaluate_file_matcher fs request try_files root None split_path =
     (let path = (case split_once (CHR ''?'') (req_path request) of
                    Some (path, _) \<Rightarrow> path | None \<Rightarrow> req_path request);
          base = (case root of Some root \<Rightarrow> root | None \<Rightarrow> ''.'');
          plain = (\<lambda>p. parse_error_code p = None)
      in case find (\<lambda>c. file_exists_strict fs (cand_full_path c) (cand_is_dir c))
                (concat (map (\<lambda>p. file_candidates fs request p path base split_path)
                   (takeWhile plain try_files))) of
           Some c \<Rightarrow> (Match, set_file_placeholders c request)
         | None \<Rightarrow>
             (case dropWhile plain try_files of
                [] \<Rightarrow> (NoMatch, request)
              | p # _ \<Rightarrow> (Error (the (parse_error_code p)), request)))"
  by (simp add: evaluate_file_matcher_def Let_def first_exist_loop_find)

text \<open>
  Under the size and age policies the answer is the first candidate that exists and that no
  other candidate outranks (by size, by smallness or by modification time); the request does not
  match only when no candidate exists.
\<close>

theorem file_matcher_best:
  assumes "policy \<in> {''largest_size'', ''smallest_size'', ''most_recently_modified''}"
  shows "evaluate_file_matcher fs request try_files root (Some policy) split_path =
    (let path = (case split_once (CHR ''?'') (req_path request) of
                   Some (path, _) \<Rightarrow> path | None \<Rightarrow> req_path request);
         base = (case root of Some root \<Rightarrow> root | None \<Rightarrow> ''.'');
         cs = concat (map (\<lambda>p. file_candidates fs request p path base split_path) try_files)
     in case find (unbeaten fs policy cs) cs of
          Some c \<Rightarrow> (Match, set_file_placeholders c request)
        | None \<Rightarrow> (NoMatch, request))"
proof -
  let ?path = "case split_once (CHR ''?'') (req_path request) of
                 Some (path, _) \<Rightarrow> path | None \<Rightarrow> req_path request"
  let ?base = "case root of Some root \<Rightarrow> root | None \<Rightarrow> ''.''"
  let ?cs = "concat (map (\<lambda>p. file_candidates fs request p ?path ?base split_path) try_files)"
  have "evaluate_file_matcher fs request try_files root (Some policy) split_path =
      (case pick_best fs policy ?cs None of
         Some (c, _) \<Rightarrow> (Match, set_file_placeholders c request) | None \<Rightarrow> (NoMatch, request))"
    using assms
    by (elim insertE emptyE) (simp_all add: evaluate_file_matcher_def Let_def pick_best_concat)
  also have "\<dots> = (case map_option prod.fst (pick_best fs policy ?cs None) of
      Some c \<Rightarrow> (Match, set_file_placeholders c request) | None \<Rightarrow> (NoMatch, request))"
    by (cases "pick_best fs policy ?cs None") auto
  finally show ?thesis unfolding Let_def pick_best_eq .
qed

theorem file_matcher_best_witness:
  "evaluate_file_matcher two_files (bare_request ''/x'') [''/a'', ''/b''] None (Some ''largest_size'') [] =
     (Match, bare_request ''/x'') \<and>
   map cand_full_path (filter (unbeaten two_files ''largest_size'' (two_candidates)) two_candidates) = [''./b'']"
proof
  have cs: "concat (map (\<lambda>p. file_candidates two_files (bare_request ''/x'') p ''/x'' ''.'' []) [''/a'', ''/b''])
      = two_candidates"
    by code_simp
  have "find (unbeaten two_files ''largest_size'' two_candidates) two_candidates = Some (two_candidates ! 1)"
    by code_simp
  with cs show "evaluate_file_matcher two_files (bare_request ''/x'') [''/a'', ''/b''] None (Some ''largest_size'') []
      = (Match, bare_request ''/x'')"
    using file_matcher_best [of "''largest_size''" two_files "bare_request ''/x''" "[''/a'', ''/b'']" None "[]"]
    by (simp add: Let_def bare_request_def set_file_placeholders_def)
  show "map cand_full_path (filter (unbeaten two_files ''largest_size'' two_candidates) two_candidates) = [''./b'']"
    by code_simp
qed

end
