(* ===== verification/Ip_Ranges.thy ===== *)
theory Ip_Ranges
  imports Net_Addr
begin

text \<open>
  The parsed address ranges of the \<open>remote_ip\<close> and \<open>client_ip\<close> matchers
  (\<open>pingclair-core/src/config/ip_ranges.rs\<close>). Networks are the \<open>ipnet\<close> crate's: parsing one, making
  one of a single address, and asking whether it contains an address are parameters.
\<close>

record 'net ipnet_api =
  net_parse :: "bytes \<Rightarrow> 'net option"
  net_from_addr :: "ip_addr \<Rightarrow> 'net"
  net_contains :: "'net \<Rightarrow> ip_addr \<Rightarrow> bool"

definition private_ranges :: "bytes list" where
  "private_ranges =
     [''192.168.0.0/16'', ''172.16.0.0/12'', ''10.0.0.0/8'', ''127.0.0.1/8'', ''fd00::/8'', ''::1'']"

record 'net ip_ranges =
  ranges_source :: "bytes list"
  ranges_networks :: "'net list"

definition parse_range :: "'net ipnet_api \<Rightarrow> bytes \<Rightarrow> bytes + 'net" where
  "parse_range ipnet entry =
     (case net_parse ipnet entry of
        Some network \<Rightarrow> Inr network
      | None \<Rightarrow>
          (case parse_ip_addr entry of
             Some address \<Rightarrow> Inr (net_from_addr ipnet address)
           | None \<Rightarrow> Inl entry))"

fun parse_ranges :: "'net ipnet_api \<Rightarrow> bytes list \<Rightarrow> bytes + 'net list" where
  "parse_ranges ipnet [] = Inr []"
| "parse_ranges ipnet (entry # entries) =
     (case parse_range ipnet entry of
        Inl invalid \<Rightarrow> Inl invalid
      | Inr network \<Rightarrow>
          (case parse_ranges ipnet entries of
             Inl invalid \<Rightarrow> Inl invalid
           | Inr networks \<Rightarrow> Inr (network # networks)))"

text \<open>\<open>Inl\<close> is \<open>InvalidIpRange\<close>, carrying the offending entry.\<close>

definition ip_ranges_parse :: "'net ipnet_api \<Rightarrow> bytes list \<Rightarrow> bytes + 'net ip_ranges" where
  "ip_ranges_parse ipnet source =
     (case parse_ranges ipnet source of
        Inl invalid \<Rightarrow> Inl invalid
      | Inr networks \<Rightarrow> Inr \<lparr>ranges_source = source, ranges_networks = networks\<rparr>)"

definition ip_ranges_contains :: "'net ipnet_api \<Rightarrow> 'net ip_ranges \<Rightarrow> ip_addr \<Rightarrow> bool" where
  "ip_ranges_contains ipnet ranges address =
     list_ex (\<lambda>network. net_contains ipnet network address) (ranges_networks ranges)"

definition ip_ranges_as_strings :: "'net ip_ranges \<Rightarrow> bytes list" where
  "ip_ranges_as_strings ranges = ranges_source ranges"

definition ip_ranges_eq :: "'net ip_ranges \<Rightarrow> 'net ip_ranges \<Rightarrow> bool" where
  "ip_ranges_eq a b \<longleftrightarrow> ranges_source a = ranges_source b"

section \<open>What a list of ranges means\<close>

definition malformed_range :: "'net ipnet_api \<Rightarrow> bytes \<Rightarrow> bool" where
  "malformed_range ipnet entry \<longleftrightarrow> net_parse ipnet entry = None \<and> parse_ip_addr entry = None"

definition range_network :: "'net ipnet_api \<Rightarrow> bytes \<Rightarrow> 'net" where
  "range_network ipnet entry =
     (case net_parse ipnet entry of
        Some network \<Rightarrow> network
      | None \<Rightarrow> net_from_addr ipnet (the (parse_ip_addr entry)))"

lemma parse_range_eq:
  "parse_range ipnet entry =
    (if malformed_range ipnet entry then Inl entry else Inr (range_network ipnet entry))"
  by (auto simp: parse_range_def malformed_range_def range_network_def split: option.splits)

lemma parse_ranges_eq:
  "parse_ranges ipnet entries =
    (case find (malformed_range ipnet) entries of
       Some entry \<Rightarrow> Inl entry
     | None \<Rightarrow> Inr (map (range_network ipnet) entries))"
  by (induction entries) (auto simp: parse_range_eq split: option.splits)

text \<open>
  Parsing refuses a list exactly when some entry is neither a network nor an address, naming the
  first such entry; otherwise an address is inside the parsed ranges exactly when one of the entries,
  read as a network or as the network of its single address, contains it.
\<close>

theorem ip_ranges_meaning:
  "ip_ranges_parse ipnet source =
     (case find (malformed_range ipnet) source of
        Some entry \<Rightarrow> Inl entry
      | None \<Rightarrow> Inr \<lparr>ranges_source = source, ranges_networks = map (range_network ipnet) source\<rparr>) \<and>
   ip_ranges_contains ipnet
     \<lparr>ranges_source = source, ranges_networks = map (range_network ipnet) source\<rparr> address =
     list_ex (\<lambda>entry. net_contains ipnet (range_network ipnet entry) address) source"
  by (simp add: ip_ranges_parse_def ip_ranges_contains_def parse_ranges_eq list_ex_iff
      split: option.splits)

end
