(* ===== verification/Matcher.thy ===== *)
theory Matcher
  imports File_Matcher Ip_Ranges
begin

text \<open>
  Request matchers: the configured tree (\<open>Matcher\<close>, \<open>MatcherCondition\<close> in
  \<open>pingclair-core/src/config/types.rs\<close>), the compiled tree (\<open>server/matcher_tree.rs\<close>) and its
  evaluation (\<open>server/router.rs\<close>). The regular expression engine and the \<open>ipnet\<close> crate are
  parameters of the record \<open>engines\<close>; evaluation threads the request because regexp and file
  matchers write its variables.
\<close>

section \<open>Configured matchers\<close>

datatype matcher_condition =
    Exists
  | Equals bytes
  | Contains bytes
  | StartsWith bytes
  | EndsWith bytes
  | Regex bytes

datatype 'net matcher =
    MPath "bytes list"
  | MHeader bytes matcher_condition
  | MMethod "bytes list"
  | MQuery bytes matcher_condition
  | MHost "bytes list"
  | MRemoteIp "'net ip_ranges"
  | MClientIp "'net ip_ranges"
  | MProtocol "bytes list"
  | MVars bytes "bytes list"
  | MPathRegexp "bytes option" bytes
  | MHeaderRegexp "bytes option" bytes bytes
  | MFile "bytes list" "bytes option" "bytes option" "bytes list"
  | MAnd "'net matcher" "'net matcher"
  | MOr "'net matcher" "'net matcher"
  | MNot "'net matcher"

section \<open>Engines\<close>

text \<open>
  \<open>regex::Regex\<close>: compiling, whether it matches, the groups of the first match (group 0 is the whole
  match) and the groups' names.
\<close>

record 're regex_api =
  re_new :: "bytes \<Rightarrow> 're option"
  re_is_match :: "'re \<Rightarrow> bytes \<Rightarrow> bool"
  re_captures :: "'re \<Rightarrow> bytes \<Rightarrow> bytes option list option"
  re_capture_names :: "'re \<Rightarrow> bytes option list"

record ('re, 'net) engines =
  eng_regex :: "'re regex_api"
  eng_ipnet :: "'net ipnet_api"
  eng_fs :: filesystem

section \<open>The compiled tree\<close>

datatype 'net matcher_node =
    NodePath "path_pattern list"
  | NodeAnd "'net matcher_node" "'net matcher_node"
  | NodeOr "'net matcher_node" "'net matcher_node"
  | NodeNot "'net matcher_node"
  | NodeLeaf "'net matcher"

fun compile_node :: "'net matcher \<Rightarrow> 'net matcher_node" where
  "compile_node (MPath patterns) = NodePath (map path_pattern_of patterns)"
| "compile_node (MAnd left right) = NodeAnd (compile_node left) (compile_node right)"
| "compile_node (MOr left right) = NodeOr (compile_node left) (compile_node right)"
| "compile_node (MNot inner) = NodeNot (compile_node inner)"
| "compile_node leaf = NodeLeaf leaf"

definition insert_regex :: "'re regex_api \<Rightarrow> bytes \<Rightarrow> (bytes \<rightharpoonup> 're) \<Rightarrow> (bytes \<rightharpoonup> 're)" where
  "insert_regex regex pattern regexes =
     (case re_new regex pattern of Some re \<Rightarrow> regexes(pattern \<mapsto> re) | None \<Rightarrow> regexes)"

definition insert_condition_regex ::
    "'re regex_api \<Rightarrow> matcher_condition \<Rightarrow> (bytes \<rightharpoonup> 're) \<Rightarrow> (bytes \<rightharpoonup> 're)" where
  "insert_condition_regex regex condition regexes =
     (case condition of Regex pattern \<Rightarrow> insert_regex regex pattern regexes | _ \<Rightarrow> regexes)"

fun collect_regexes :: "'re regex_api \<Rightarrow> 'net matcher \<Rightarrow> (bytes \<rightharpoonup> 're) \<Rightarrow> (bytes \<rightharpoonup> 're)" where
  "collect_regexes regex (MHeader name condition) regexes = insert_condition_regex regex condition regexes"
| "collect_regexes regex (MQuery name condition) regexes = insert_condition_regex regex condition regexes"
| "collect_regexes regex (MPathRegexp name pattern) regexes = insert_regex regex pattern regexes"
| "collect_regexes regex (MHeaderRegexp name field pattern) regexes = insert_regex regex pattern regexes"
| "collect_regexes regex (MAnd left right) regexes =
     collect_regexes regex right (collect_regexes regex left regexes)"
| "collect_regexes regex (MOr left right) regexes =
     collect_regexes regex right (collect_regexes regex left regexes)"
| "collect_regexes regex (MNot inner) regexes = collect_regexes regex inner regexes"
| "collect_regexes regex _ regexes = regexes"

record ('re, 'net) compiled_matcher =
  cm_matcher :: "'net matcher"
  cm_regexes :: "bytes \<rightharpoonup> 're"
  cm_tree :: "'net matcher_node"

definition compile :: "'re regex_api \<Rightarrow> 'net matcher \<Rightarrow> ('re, 'net) compiled_matcher" where
  "compile regex matcher =
     \<lparr>cm_matcher = matcher,
      cm_regexes = collect_regexes regex matcher (\<lambda>_. None),
      cm_tree = compile_node matcher\<rparr>"

definition get_regex :: "('re, 'net) compiled_matcher \<Rightarrow> bytes \<Rightarrow> 're option" where
  "get_regex compiled pattern = cm_regexes compiled pattern"

section \<open>Leaves\<close>

definition bool_verdict :: "bool \<Rightarrow> matcher_verdict" where
  "bool_verdict matched = (if matched then Match else NoMatch)"

fun evaluate_condition ::
    "'re regex_api \<Rightarrow> bytes option \<Rightarrow> matcher_condition \<Rightarrow> ('re, 'net) compiled_matcher \<Rightarrow> bool" where
  "evaluate_condition regex v Exists compiled = (v \<noteq> None)"
| "evaluate_condition regex v (Equals expected) compiled =
     (case v of Some v \<Rightarrow> v = expected | None \<Rightarrow> False)"
| "evaluate_condition regex v (Contains substring) compiled =
     (case v of Some v \<Rightarrow> str_contains v substring | None \<Rightarrow> False)"
| "evaluate_condition regex v (StartsWith pre) compiled =
     (case v of Some v \<Rightarrow> str_starts_with v pre | None \<Rightarrow> False)"
| "evaluate_condition regex v (EndsWith suf) compiled =
     (case v of Some v \<Rightarrow> str_ends_with v suf | None \<Rightarrow> False)"
| "evaluate_condition regex v (Regex pattern) compiled =
     (case get_regex compiled pattern of
        Some re \<Rightarrow> (case v of Some v \<Rightarrow> re_is_match regex re v | None \<Rightarrow> False)
      | None \<Rightarrow> False)"

definition query_matches ::
    "'re regex_api \<Rightarrow> bytes \<Rightarrow> bytes \<Rightarrow> matcher_condition \<Rightarrow> ('re, 'net) compiled_matcher \<Rightarrow> bool" where
  "query_matches regex path name condition compiled =
     (case split_once (CHR ''?'') path of
        None \<Rightarrow> False
      | Some (_, query) \<Rightarrow>
          list_ex (\<lambda>pair.
              case split_once (CHR ''='') pair of
                None \<Rightarrow> False
              | Some (key, v) \<Rightarrow>
                  if key \<noteq> name then False else evaluate_condition regex (Some v) condition compiled)
            (split_on (CHR ''&'') query))"

definition ip_matches :: "'net ipnet_api \<Rightarrow> 'net ip_ranges \<Rightarrow> ip_addr option \<Rightarrow> bool" where
  "ip_matches ipnet ranges address =
     (case address of Some address \<Rightarrow> ip_ranges_contains ipnet ranges address | None \<Rightarrow> False)"

definition insert_capture :: "bytes option \<Rightarrow> bytes \<Rightarrow> bytes \<Rightarrow> vars \<Rightarrow> vars" where
  "insert_capture name grp v vars =
     (let vars = (case name of
                    Some name \<Rightarrow> bt_insert (''re.'' @ name @ ''.'' @ grp) v vars
                  | None \<Rightarrow> vars)
      in bt_insert (''re.'' @ grp) v vars)"

definition record_regexp_captures ::
    "'re regex_api \<Rightarrow> vars \<Rightarrow> bytes option \<Rightarrow> 're \<Rightarrow> bytes \<Rightarrow> bool \<times> vars" where
  "record_regexp_captures regex vars name re txt =
     (case re_captures regex re txt of
        None \<Rightarrow> (False, vars)
      | Some captures \<Rightarrow>
          (let vars = foldl (\<lambda>vars (index, v).
                        case v of None \<Rightarrow> vars | Some v \<Rightarrow> insert_capture name (show_nat index) v vars)
                      vars (zip [0..<length captures] captures);
               names = re_capture_names regex re;
               vars = foldl (\<lambda>vars (index, group_name).
                        case group_name of
                          None \<Rightarrow> vars
                        | Some group_name \<Rightarrow>
                            (case (if index < length captures then captures ! index else None) of
                               None \<Rightarrow> vars
                             | Some v \<Rightarrow> insert_capture name group_name v vars))
                      vars (zip [0..<length names] names)
           in (True, vars)))"

definition vars_placeholder :: "bytes \<Rightarrow> bytes option" where
  "vars_placeholder name =
     (case strip_prefix ''{'' name of
        None \<Rightarrow> None
      | Some rest \<Rightarrow>
          (case strip_suffix ''}'' rest of
             None \<Rightarrow> None
           | Some rest \<Rightarrow> if CHR ''{'' \<notin> set rest \<and> CHR ''}'' \<notin> set rest then Some rest else None))"

definition evaluate_regexp ::
    "'re regex_api \<Rightarrow> bytes option \<Rightarrow> 're \<Rightarrow> bytes \<Rightarrow> matcher_request \<Rightarrow> vars \<Rightarrow>
      matcher_verdict \<times> matcher_request" where
  "evaluate_regexp regex name re txt request vars =
     (case record_regexp_captures regex vars name re txt of
        (matched, vars) \<Rightarrow> (bool_verdict matched, request\<lparr>req_vars := Some vars\<rparr>))"

fun evaluate_leaf ::
    "('re, 'net) engines \<Rightarrow> 'net matcher \<Rightarrow> ('re, 'net) compiled_matcher \<Rightarrow> matcher_request \<Rightarrow>
      matcher_verdict \<times> matcher_request" where
  "evaluate_leaf eng (MHeader name condition) compiled request =
     (bool_verdict (evaluate_condition (eng_regex eng) (req_headers request name) condition compiled), request)"
| "evaluate_leaf eng (MMethod methods) compiled request =
     (bool_verdict (list_ex (\<lambda>method. eq_ignore_ascii_case method (req_method request)) methods), request)"
| "evaluate_leaf eng (MQuery name condition) compiled request =
     (bool_verdict (query_matches (eng_regex eng) (req_path request) name condition compiled), request)"
| "evaluate_leaf eng (MHost hosts) compiled request =
     (bool_verdict (list_ex (\<lambda>host. eq_ignore_ascii_case host (req_host request)) hosts), request)"
| "evaluate_leaf eng (MRemoteIp ranges) compiled request =
     (bool_verdict (ip_matches (eng_ipnet eng) ranges (addr_remote_ip (req_addresses request))), request)"
| "evaluate_leaf eng (MClientIp ranges) compiled request =
     (bool_verdict (ip_matches (eng_ipnet eng) ranges (addr_client_ip (req_addresses request))), request)"
| "evaluate_leaf eng (MProtocol protocols) compiled request =
     (bool_verdict (list_ex (\<lambda>protocol. eq_ignore_ascii_case protocol (req_protocol request)) protocols),
      request)"
| "evaluate_leaf eng (MVars name values) compiled request =
     (let v = (case vars_placeholder name of
                 Some placeholder \<Rightarrow> resolve_matcher_placeholder placeholder request (req_path request)
               | None \<Rightarrow> or_default (vars_get (req_vars request) name))
      in (bool_verdict (list_ex (\<lambda>candidate. candidate = v) values), request))"
| "evaluate_leaf eng (MPathRegexp name pattern) compiled request =
     (case cm_regexes compiled pattern of
        None \<Rightarrow> (NoMatch, request)
      | Some re \<Rightarrow>
          (case req_vars request of
             None \<Rightarrow> (NoMatch, request)
           | Some vars \<Rightarrow>
               evaluate_regexp (eng_regex eng) name re (decode_for_matching (req_path request)) request vars))"
| "evaluate_leaf eng (MHeaderRegexp name field pattern) compiled request =
     (case cm_regexes compiled pattern of
        None \<Rightarrow> (NoMatch, request)
      | Some re \<Rightarrow>
          (case req_headers request field of
             None \<Rightarrow> (NoMatch, request)
           | Some v \<Rightarrow>
               (case req_vars request of
                  None \<Rightarrow> (NoMatch, request)
                | Some vars \<Rightarrow> evaluate_regexp (eng_regex eng) name re v request vars)))"
| "evaluate_leaf eng (MFile try_files root try_policy split_path) compiled request =
     evaluate_file_matcher (eng_fs eng) request try_files root try_policy split_path"
| "evaluate_leaf eng _ compiled request = (NoMatch, request)"

section \<open>The tree\<close>

fun evaluate_node ::
    "('re, 'net) engines \<Rightarrow> 'net matcher_node \<Rightarrow> ('re, 'net) compiled_matcher \<Rightarrow> matcher_request \<Rightarrow>
      matcher_verdict \<times> matcher_request" where
  "evaluate_node eng (NodePath patterns) compiled request =
     (let matching = decode_for_matching (req_path request)
      in (bool_verdict (list_ex (\<lambda>pattern. pattern_matches pattern matching) patterns), request))"
| "evaluate_node eng (NodeLeaf matcher) compiled request = evaluate_leaf eng matcher compiled request"
| "evaluate_node eng (NodeAnd left right) compiled request =
     (case evaluate_node eng left compiled request of
        (NoMatch, request) \<Rightarrow> (NoMatch, request)
      | (Error status, request) \<Rightarrow> (Error status, request)
      | (Match, request) \<Rightarrow> evaluate_node eng right compiled request)"
| "evaluate_node eng (NodeOr left right) compiled request =
     (case evaluate_node eng left compiled request of
        (Match, request) \<Rightarrow> (Match, request)
      | (NoMatch, request) \<Rightarrow> evaluate_node eng right compiled request
      | (Error status, request) \<Rightarrow> (Error status, request))"
| "evaluate_node eng (NodeNot inner) compiled request =
     (case evaluate_node eng inner compiled request of
        (Match, request) \<Rightarrow> (NoMatch, request)
      | (NoMatch, request) \<Rightarrow> (Match, request)
      | (Error status, request) \<Rightarrow> (Error status, request))"

definition evaluate_verdict ::
    "('re, 'net) engines \<Rightarrow> ('re, 'net) compiled_matcher \<Rightarrow> matcher_request \<Rightarrow>
      matcher_verdict \<times> matcher_request" where
  "evaluate_verdict eng compiled request = evaluate_node eng (cm_tree compiled) compiled request"

definition evaluate ::
    "('re, 'net) engines \<Rightarrow> ('re, 'net) compiled_matcher \<Rightarrow> matcher_request \<Rightarrow> bool \<times> matcher_request" where
  "evaluate eng compiled request =
     (case evaluate_verdict eng compiled request of (verdict, request) \<Rightarrow> (verdict = Match, request))"

section \<open>The regex cache\<close>

fun condition_patterns :: "matcher_condition \<Rightarrow> bytes list" where
  "condition_patterns (Regex pattern) = [pattern]"
| "condition_patterns _ = []"

fun matcher_patterns :: "'net matcher \<Rightarrow> bytes list" where
  "matcher_patterns (MHeader name condition) = condition_patterns condition"
| "matcher_patterns (MQuery name condition) = condition_patterns condition"
| "matcher_patterns (MPathRegexp name pattern) = [pattern]"
| "matcher_patterns (MHeaderRegexp name field pattern) = [pattern]"
| "matcher_patterns (MAnd left right) = matcher_patterns left @ matcher_patterns right"
| "matcher_patterns (MOr left right) = matcher_patterns left @ matcher_patterns right"
| "matcher_patterns (MNot inner) = matcher_patterns inner"
| "matcher_patterns _ = []"

definition cache_for :: "'re regex_api \<Rightarrow> bytes set \<Rightarrow> (bytes \<rightharpoonup> 're) \<Rightarrow> bool" where
  "cache_for regex ps cache \<longleftrightarrow> (\<forall>p. cache p = (if p \<in> ps then re_new regex p else None))"

lemma insert_regex_cache: "cache_for regex ps cache \<Longrightarrow> cache_for regex (insert p ps) (insert_regex regex p cache)"
  by (auto simp: cache_for_def insert_regex_def split: option.splits)

lemma insert_condition_cache:
  "cache_for regex ps cache \<Longrightarrow>
    cache_for regex (set (condition_patterns c) \<union> ps) (insert_condition_regex regex c cache)"
  by (cases c) (simp_all add: insert_condition_regex_def insert_regex_cache)

lemma collect_regexes_cache:
  "cache_for regex ps cache \<Longrightarrow>
    cache_for regex (set (matcher_patterns m) \<union> ps) (collect_regexes regex m cache)"
proof (induction m arbitrary: ps cache)
  case (MAnd a b)
  from MAnd.IH(2) [OF MAnd.IH(1) [OF MAnd.prems]] show ?case by (simp add: Un_assoc Un_left_commute)
next
  case (MOr a b)
  from MOr.IH(2) [OF MOr.IH(1) [OF MOr.prems]] show ?case by (simp add: Un_assoc Un_left_commute)
qed (simp_all add: insert_condition_cache insert_regex_cache)

lemma compile_cache: "cache_for regex (set (matcher_patterns m)) (cm_regexes (compile regex m))"
  using collect_regexes_cache [of regex "{}" "\<lambda>_. None" m] by (simp add: compile_def cache_for_def)

text \<open>Evaluation reads the cache only at the patterns of the matcher.\<close>

lemma evaluate_condition_cache:
  "(\<And>p. p \<in> set (condition_patterns c) \<Longrightarrow> cm_regexes a p = cm_regexes b p) \<Longrightarrow>
    evaluate_condition regex v c a = evaluate_condition regex v c b"
  by (cases c) (simp_all add: get_regex_def)

lemma evaluate_leaf_cache:
  assumes "\<And>p. p \<in> set (matcher_patterns m) \<Longrightarrow> cm_regexes a p = cm_regexes b p"
  shows "evaluate_leaf eng m a request = evaluate_leaf eng m b request"
proof (cases m)
  case (MHeader name c)
  with assms evaluate_condition_cache [of c a b] show ?thesis by simp
next
  case (MQuery name c)
  with assms have eq: "evaluate_condition (eng_regex eng) v c a = evaluate_condition (eng_regex eng) v c b" for v
    by (intro evaluate_condition_cache) simp
  have "query_matches (eng_regex eng) (req_path request) name c a
      = query_matches (eng_regex eng) (req_path request) name c b"
    unfolding query_matches_def eq ..
  with MQuery show ?thesis by simp
qed (use assms in simp_all)

section \<open>What a configured matcher means\<close>

text \<open>
  The specification, on the configured tree: every pattern is classified and every regular
  expression compiled at the moment it is asked.
\<close>

definition on_the_spot :: "'re regex_api \<Rightarrow> 'net matcher \<Rightarrow> ('re, 'net) compiled_matcher" where
  "on_the_spot regex m = \<lparr>cm_matcher = m, cm_regexes = re_new regex, cm_tree = NodeLeaf m\<rparr>"

fun matcher_semantics ::
    "('re, 'net) engines \<Rightarrow> 'net matcher \<Rightarrow> matcher_request \<Rightarrow> matcher_verdict \<times> matcher_request" where
  "matcher_semantics eng (MPath patterns) request =
     (bool_verdict (list_ex (\<lambda>pattern.
        pattern_matches (path_pattern_of pattern) (decode_for_matching (req_path request))) patterns), request)"
| "matcher_semantics eng (MAnd left right) request =
     (case matcher_semantics eng left request of
        (Match, request) \<Rightarrow> matcher_semantics eng right request
      | other \<Rightarrow> other)"
| "matcher_semantics eng (MOr left right) request =
     (case matcher_semantics eng left request of
        (NoMatch, request) \<Rightarrow> matcher_semantics eng right request
      | other \<Rightarrow> other)"
| "matcher_semantics eng (MNot inner) request =
     (case matcher_semantics eng inner request of
        (Match, request) \<Rightarrow> (NoMatch, request)
      | (NoMatch, request) \<Rightarrow> (Match, request)
      | other \<Rightarrow> other)"
| "matcher_semantics eng leaf request =
     evaluate_leaf eng leaf (on_the_spot (eng_regex eng) leaf) request"

lemma evaluate_node_semantics:
  "cache_for (eng_regex eng) ps (cm_regexes compiled) \<Longrightarrow> set (matcher_patterns m) \<subseteq> ps \<Longrightarrow>
    evaluate_node eng (compile_node m) compiled request = matcher_semantics eng m request"
proof (induction m arbitrary: request)
  case (MPath ps)
  then show ?case by (simp add: list_ex_iff)
next
  case (MAnd a b)
  then show ?case by (auto split: prod.splits matcher_verdict.splits)
next
  case (MOr a b)
  then show ?case by (auto split: prod.splits matcher_verdict.splits)
next
  case (MNot a)
  then show ?case by (auto split: prod.splits matcher_verdict.splits)
qed (auto intro!: evaluate_leaf_cache simp: cache_for_def on_the_spot_def
    simp del: evaluate_leaf.simps)

lemma evaluate_verdict_semantics:
  "evaluate_verdict eng (compile (eng_regex eng) m) request = matcher_semantics eng m request"
  using evaluate_node_semantics [OF compile_cache subset_refl, of eng m request]
  by (simp add: evaluate_verdict_def compile_def)

section \<open>What evaluation may change\<close>

definition same_but_vars :: "matcher_request \<Rightarrow> matcher_request \<Rightarrow> bool" where
  "same_but_vars r r' \<longleftrightarrow> r' = r\<lparr>req_vars := req_vars r'\<rparr> \<and> (req_vars r' = None \<longleftrightarrow> req_vars r = None)"

lemma same_but_vars_refl [simp]: "same_but_vars r r"
  by (simp add: same_but_vars_def)

lemma same_but_vars_trans: "same_but_vars r r' \<Longrightarrow> same_but_vars r' r'' \<Longrightarrow> same_but_vars r r''"
  by (cases r; cases r'; cases r'') (auto simp: same_but_vars_def)

lemma set_file_placeholders_frame: "same_but_vars r (set_file_placeholders c r)"
  by (auto simp: same_but_vars_def set_file_placeholders_def Let_def split: option.splits)

lemma evaluate_file_matcher_frame:
  "same_but_vars r (snd (evaluate_file_matcher fs r try_files root policy split_path))"
proof -
  have "same_but_vars r (snd (first_exist_loop fs cs b patterns r))" for cs b patterns
    by (induction patterns) (auto simp: set_file_placeholders_frame split: option.splits)
  then show ?thesis
    by (auto simp: evaluate_file_matcher_def Let_def set_file_placeholders_frame split: option.splits)
qed

lemma evaluate_regexp_frame:
  "req_vars r = Some vars \<Longrightarrow> same_but_vars r (snd (evaluate_regexp regex name re txt r vars))"
  by (auto simp: evaluate_regexp_def same_but_vars_def split: prod.splits)

lemma evaluate_leaf_frame: "same_but_vars r (snd (evaluate_leaf eng m compiled r))"
  by (cases m)
    (auto simp: Let_def evaluate_file_matcher_frame evaluate_regexp_frame split: option.splits)

lemma matcher_semantics_frame: "same_but_vars r (snd (matcher_semantics eng m r))"
proof (induction m arbitrary: r)
  case (MAnd a b)
  obtain v r' where a: "matcher_semantics eng a r = (v, r')" by fastforce
  with MAnd.IH(1) [of r] MAnd.IH(2) [of r'] show ?case
    by (cases v) (auto dest: same_but_vars_trans)
next
  case (MOr a b)
  obtain v r' where a: "matcher_semantics eng a r = (v, r')" by fastforce
  with MOr.IH(1) [of r] MOr.IH(2) [of r'] show ?case
    by (cases v) (auto dest: same_but_vars_trans)
next
  case (MNot a)
  from MNot.IH [of r] show ?case by (auto split: prod.splits matcher_verdict.splits)
qed (simp_all add: evaluate_leaf_frame del: evaluate_leaf.simps)

section \<open>Properties\<close>

text \<open>
  C3: The compiled form of a matcher decides what the configured tree means. Classifying the path
  patterns and compiling the regular expressions once at load changes neither the verdict nor the
  variables written: every regular expression a leaf asks for is in the cache exactly when it
  compiles, and no combinator or path matcher ever reaches a leaf.
\<close>

theorem compiled_matcher_refines:
  "evaluate_verdict eng (compile (eng_regex eng) m) request = matcher_semantics eng m request"
  by (rule evaluate_verdict_semantics)

text \<open>
  The combinators obey De Morgan's laws and double negation with effects included: the same
  leaves are evaluated in the same order, so the verdict, a raised status and the variables written
  agree.
\<close>

theorem matcher_de_morgan:
  "evaluate_verdict eng (compile (eng_regex eng) (MNot (MAnd a b))) request
     = evaluate_verdict eng (compile (eng_regex eng) (MOr (MNot a) (MNot b))) request \<and>
   evaluate_verdict eng (compile (eng_regex eng) (MNot (MOr a b))) request
     = evaluate_verdict eng (compile (eng_regex eng) (MAnd (MNot a) (MNot b))) request \<and>
   evaluate_verdict eng (compile (eng_regex eng) (MNot (MNot a))) request
     = evaluate_verdict eng (compile (eng_regex eng) a) request"
  unfolding evaluate_verdict_semantics
  by (auto split: prod.splits matcher_verdict.splits)

text \<open>
  Evaluating a matcher changes nothing of a request but its variables, and it never makes a
  variable map appear or disappear.
\<close>

theorem matcher_evaluation_frame:
  "case evaluate_verdict eng (compile (eng_regex eng) m) request of (verdict, request') \<Rightarrow>
     request' = request\<lparr>req_vars := req_vars request'\<rparr> \<and>
     (req_vars request' = None \<longleftrightarrow> req_vars request = None)"
  using matcher_semantics_frame [of request eng m]
  by (auto simp: evaluate_verdict_semantics same_but_vars_def split: prod.splits)

end
