(* ===== verification/Route_Candidates.thy ===== *)
theory Route_Candidates
  imports Path_Pattern Ordered_Map
begin

text \<open>
  The pre-filter of the router (\<open>pingclair-core/src/server/route_candidates.rs\<close>): every route path
  is classified, the exact and trailing-star paths become nodes of a radix tree, and each node
  stores in list order the indices of the routes that can match a path landing on it. The radix
  tree itself is the \<open>matchit\<close> crate; \<open>matchit_lookup\<close> states what its documentation promises for
  the two shapes of patterns inserted here, and \<open>Router\<close> takes the tree as a parameter.
\<close>

section \<open>Classified route paths\<close>

datatype route_path =
    RAny
  | RPrefix bytes
  | RExact bytes
  | RWildcard path_pattern

datatype node = NExact bytes | NPrefix bytes

definition route_path_of :: "bytes \<Rightarrow> route_path" where
  "route_path_of path =
     (if path = [] \<or> path = ''/'' \<or> path = ''/*'' \<or> path = ''*'' then RAny
      else
        (case path_pattern_of path of
           PAny \<Rightarrow> RAny
         | PExact exact \<Rightarrow> RExact exact
         | PPrefix pre \<Rightarrow> RPrefix pre
         | pattern \<Rightarrow> RWildcard pattern))"

fun covers :: "route_path \<Rightarrow> node \<Rightarrow> bool" where
  "covers RAny n = True"
| "covers (RExact route) (NExact node) = (route = node)"
| "covers (RExact _) (NPrefix _) = False"
| "covers (RPrefix route) (NExact node) =
     (str_starts_with node route \<or> strip_suffix ''/'' route = Some node)"
| "covers (RPrefix route) (NPrefix node) = str_starts_with node route"
| "covers (RWildcard pattern) (NExact node) = pattern_matches pattern node"
| "covers (RWildcard pattern) (NPrefix node) =
     (starts_with node (literal_prefix pattern) \<or> starts_with (literal_prefix pattern) node)"

definition wildcard :: "bytes \<Rightarrow> path_pattern option" where
  "wildcard path = (case route_path_of path of RWildcard pattern \<Rightarrow> Some pattern | _ \<Rightarrow> None)"

fun is_catch_all :: "route_path \<Rightarrow> bool" where
  "is_catch_all RAny = True"
| "is_catch_all (RWildcard _) = True"
| "is_catch_all _ = False"

section \<open>Building the nodes\<close>

text \<open>\<open>path.replace('{', "{{").replace('}', "}}")\<close>\<close>

definition escape_literal :: "bytes \<Rightarrow> bytes" where
  "escape_literal path =
     concat (map (\<lambda>c. if c = CHR ''}'' then ''}}'' else [c])
       (concat (map (\<lambda>c. if c = CHR ''{'' then ''{{'' else [c]) path)))"

text \<open>\<open>None\<close> is the panic of \<open>expect\<close> on a path without a trailing star.\<close>

definition glob_to_matchit :: "bytes \<Rightarrow> bytes option" where
  "glob_to_matchit path =
     (case strip_suffix ''*'' path of
        None \<Rightarrow> None
      | Some pre \<Rightarrow> Some (escape_literal pre @ ''{*rest}''))"

definition bare_prefixes :: "bytes \<Rightarrow> bytes list" where
  "bare_prefixes path =
     (case strip_suffix ''/*'' path of
        Some pre \<Rightarrow> if pre = [] then [] else [pre, pre @ ''/'']
      | None \<Rightarrow>
          (case strip_suffix ''*'' path of
             Some pre \<Rightarrow> if pre = [] then [] else [pre]
           | None \<Rightarrow> []))"

type_synonym node_map = "(bytes \<times> node) list"

definition add_nodes :: "bytes \<Rightarrow> node_map \<Rightarrow> node_map option" where
  "add_nodes path nodes =
     (case route_path_of path of
        RAny \<Rightarrow> Some nodes
      | RWildcard _ \<Rightarrow> Some nodes
      | RExact path \<Rightarrow> Some (bt_insert (escape_literal path) (NExact path) nodes)
      | RPrefix pre \<Rightarrow>
          (case glob_to_matchit path of
             None \<Rightarrow> None
           | Some key \<Rightarrow>
               Some (foldl (\<lambda>nodes bare.
                         bt_or_insert (escape_literal bare) (NExact (take (length bare) path)) nodes)
                       (bt_insert key (NPrefix pre) nodes) (bare_prefixes path))))"

fun build_nodes :: "bytes list \<Rightarrow> node_map \<Rightarrow> node_map option" where
  "build_nodes [] nodes = Some nodes"
| "build_nodes (path # paths) nodes =
     (case add_nodes path nodes of None \<Rightarrow> None | Some nodes \<Rightarrow> build_nodes paths nodes)"

definition node_candidates :: "route_path list \<Rightarrow> node \<Rightarrow> nat list" where
  "node_candidates kinds node =
     map fst (filter (\<lambda>(index, kind). covers kind node) (zip [0..<length kinds] kinds))"

record candidates =
  cand_nodes :: "(bytes \<times> nat list) list"
  cand_any :: "nat list"

definition build :: "bytes list \<Rightarrow> candidates option" where
  "build route_paths =
     (let paths = map to_ascii_lowercase route_paths;
          kinds = map route_path_of paths
      in map_option
           (\<lambda>nodes. \<lparr>cand_nodes = map (\<lambda>(pattern, node). (pattern, node_candidates kinds node)) nodes,
                     cand_any = map fst (filter (\<lambda>(index, kind). is_catch_all kind)
                                  (zip [0..<length kinds] kinds))\<rparr>)
           (build_nodes paths []))"

section \<open>What the radix tree is documented to answer\<close>

text \<open>
  A pattern without parameters matches its unescaped text; \<open>prefix{*rest}\<close> matches every path that
  continues the prefix by at least one byte. A static match has priority, and among catch-alls the
  one with the longest static prefix.
\<close>

definition catch_all_key :: "bytes \<Rightarrow> bytes" where
  "catch_all_key pre = escape_literal pre @ ''{*rest}''"

fun longest_catch_all :: "(bytes \<times> 'v) list \<Rightarrow> bytes \<Rightarrow> nat \<Rightarrow> 'v option" where
  "longest_catch_all entries path 0 = map_of entries (catch_all_key [])"
| "longest_catch_all entries path (Suc n) =
     (case map_of entries (catch_all_key (take (Suc n) path)) of
        Some v \<Rightarrow> Some v
      | None \<Rightarrow> longest_catch_all entries path n)"

definition matchit_lookup :: "(bytes \<times> 'v) list \<Rightarrow> bytes \<Rightarrow> 'v option" where
  "matchit_lookup entries path =
     (case map_of entries (escape_literal path) of
        Some v \<Rightarrow> Some v
      | None \<Rightarrow> if path = [] then None else longest_catch_all entries path (length path - 1))"

section \<open>What a route path accepts\<close>

text \<open>
  The specification: a route path accepts the paths its pattern matches, letter case ignored;
  \<open>/x/*\<close> also accepts the bare \<open>/x\<close>, and the four catch-all spellings accept everything.
\<close>

definition route_path_accepts :: "bytes \<Rightarrow> bytes \<Rightarrow> bool" where
  "route_path_accepts route path \<longleftrightarrow>
     route \<in> {[], ''/'', ''/*'', ''*''} \<or>
     pattern_matches (path_pattern_of route) path \<or>
     (case path_pattern_of route of
        PPrefix pre \<Rightarrow>
          (case strip_suffix ''/'' pre of Some bare \<Rightarrow> eq_ignore_ascii_case path bare | None \<Rightarrow> False)
      | _ \<Rightarrow> False)"

fun kind_accepts :: "route_path \<Rightarrow> bytes \<Rightarrow> bool" where
  "kind_accepts RAny path = True"
| "kind_accepts (RExact exact) path = (path = exact)"
| "kind_accepts (RPrefix pre) path = (prefix pre path \<or> strip_suffix ''/'' pre = Some path)"
| "kind_accepts (RWildcard pattern) path = pattern_matches pattern path"

lemma strip_suffix_slash_lower:
  "strip_suffix ''/'' (to_ascii_lowercase p) = map_option to_ascii_lowercase (strip_suffix ''/'' p)"
  by (cases p rule: rev_cases)
    (auto simp: strip_suffix_def to_ascii_lower_slash to_ascii_lowercase_def)

lemma catch_all_lower:
  "to_ascii_lowercase r = [] \<longleftrightarrow> r = []"
  "to_ascii_lowercase r = ''/'' \<longleftrightarrow> r = ''/''"
  "to_ascii_lowercase r = ''*'' \<longleftrightarrow> r = ''*''"
  "to_ascii_lowercase r = ''/*'' \<longleftrightarrow> r = ''/*''"
  by (auto simp: to_ascii_lowercase_def map_eq_Cons_conv to_ascii_lower_slash to_ascii_lower_star)

lemma kind_accepts_route_path_accepts:
  "kind_accepts (route_path_of (to_ascii_lowercase route)) (to_ascii_lowercase path)
    = route_path_accepts route path"
proof (cases "path_pattern_of route")
  case (PPrefix pre)
  then show ?thesis
    by (auto simp: route_path_of_def route_path_accepts_def catch_all_lower path_pattern_of_lower
        strip_suffix_slash_lower starts_with_prefix eq_ignore_ascii_case_iff
        split: option.splits)
qed (use fold_pattern_matches [of "path_pattern_of route" path] in
    \<open>auto simp: route_path_of_def route_path_accepts_def catch_all_lower path_pattern_of_lower
      eq_ignore_ascii_case_iff\<close>)

section \<open>Keys of the tree\<close>

fun escape_byte :: "byte \<Rightarrow> bytes" where
  "escape_byte c = (if c = CHR ''{'' then ''{{'' else if c = CHR ''}'' then ''}}'' else [c])"

lemma escape_literal_Nil [simp]: "escape_literal [] = []"
  by (simp add: escape_literal_def)

lemma escape_literal_Cons [simp]: "escape_literal (c # s) = escape_byte c @ escape_literal s"
  by (simp add: escape_literal_def)

lemma escape_literal_eq_Nil [simp]: "escape_literal s = [] \<longleftrightarrow> s = []"
  by (cases s) auto

lemma escape_byte_prefix:
  "escape_byte c @ x = escape_byte d @ y \<Longrightarrow> c = d \<and> x = y"
  by (auto split: if_splits)

lemma escape_not_rest: "escape_byte c @ x \<noteq> ''{*rest}''"
  by (auto split: if_splits)

lemma escape_literal_inj: "escape_literal x = escape_literal y \<longleftrightarrow> x = y"
proof
  show "escape_literal x = escape_literal y \<Longrightarrow> x = y"
  proof (induction x arbitrary: y)
    case Nil
    from Nil [symmetric] show ?case by (simp del: escape_byte.simps)
  next
    case (Cons c x)
    then obtain d z where y: "y = d # z" by (cases y) (auto split: if_splits)
    with Cons.prems have "escape_byte c @ escape_literal x = escape_byte d @ escape_literal z"
      by (simp only: escape_literal_Cons)
    then have "c = d" "escape_literal x = escape_literal z" by (blast dest: escape_byte_prefix)+
    with Cons.IH y show ?case by blast
  qed
qed simp

lemma escape_literal_not_catch_all: "escape_literal x \<noteq> catch_all_key y"
proof (induction y arbitrary: x)
  case Nil
  then show ?case
  proof (cases x)
    case (Cons c xs)
    then show ?thesis
      using escape_not_rest [of c "escape_literal xs"]
      by (simp only: catch_all_key_def escape_literal_Cons escape_literal_Nil append_Nil) simp
  qed (simp add: catch_all_key_def)
next
  case (Cons d y)
  show ?case
  proof (cases x)
    case (Cons c xs)
    show ?thesis
    proof
      assume "escape_literal x = catch_all_key (d # y)"
      with Cons have "escape_byte c @ escape_literal xs = escape_byte d @ catch_all_key y"
        by (simp only: catch_all_key_def escape_literal_Cons append_assoc)
      then have "escape_literal xs = catch_all_key y" by (blast dest: escape_byte_prefix)
      with Cons.IH show False by blast
    qed
  qed (simp add: catch_all_key_def)
qed

lemma catch_all_key_inj: "catch_all_key x = catch_all_key y \<longleftrightarrow> x = y"
  by (simp add: catch_all_key_def escape_literal_inj)

fun node_key :: "node \<Rightarrow> bytes" where
  "node_key (NExact path) = escape_literal path"
| "node_key (NPrefix pre) = catch_all_key pre"

lemma node_key_inj: "node_key m = node_key n \<longleftrightarrow> m = n"
  by (cases m; cases n)
    (simp_all add: escape_literal_inj catch_all_key_inj escape_literal_not_catch_all
      escape_literal_not_catch_all [symmetric])

section \<open>The nodes that are built\<close>

fun path_nodes :: "bytes \<Rightarrow> node list" where
  "path_nodes path =
     (case route_path_of path of
        RExact exact \<Rightarrow> [NExact exact]
      | RPrefix pre \<Rightarrow> NPrefix pre # map NExact (bare_prefixes path)
      | _ \<Rightarrow> [])"

definition node_table :: "node set \<Rightarrow> node_map \<Rightarrow> bool" where
  "node_table N nodes \<longleftrightarrow>
     (\<forall>k n. map_of nodes k = Some n \<longleftrightarrow> n \<in> N \<and> k = node_key n)"

lemma node_table_empty: "node_table {} []"
  by (simp add: node_table_def)

lemma node_table_insert:
  "node_table N nodes \<Longrightarrow> node_table (insert n N) (bt_insert (node_key n) n nodes)"
  by (auto simp: node_table_def map_of_bt_insert node_key_inj)

lemma node_table_or_insert:
  assumes "node_table N nodes"
  shows "node_table (insert n N) (bt_or_insert (node_key n) n nodes)"
proof (cases "map_of nodes (node_key n)")
  case None
  with node_table_insert [OF assms] show ?thesis by (simp add: bt_or_insert_def)
next
  case (Some m)
  with assms have "m \<in> N" "node_key n = node_key m" unfolding node_table_def by blast+
  with assms Some show ?thesis by (simp add: bt_or_insert_def node_key_inj insert_absorb)
qed

lemma node_table_or_inserts:
  "node_table N nodes \<Longrightarrow>
    node_table (set ns \<union> N) (foldl (\<lambda>nodes n. bt_or_insert (node_key n) n nodes) nodes ns)"
proof (induction ns arbitrary: nodes N)
  case (Cons n ns)
  from Cons.IH [OF node_table_or_insert [OF Cons.prems, of n]] show ?case by simp
qed simp

lemma route_path_prefix:
  assumes "route_path_of path = RPrefix pre"
  shows "path = pre @ ''*''" "pre \<noteq> []" "pre \<noteq> ''/''"
proof -
  from assms have "path_pattern_of path = PPrefix pre" and ne: "path \<notin> {[], ''/'', ''/*'', ''*''}"
    by (auto simp: route_path_of_def split: if_splits path_pattern.splits)
  then have "str_ends_with path ''*''" "pre = take (length path - 1) path"
    by (auto simp: path_pattern_of_def Let_def split: if_splits)
  then show *: "path = pre @ ''*''"
    by (auto simp: str_ends_with_suffix suffix_def)
  from * ne show "pre \<noteq> []" "pre \<noteq> ''/''" by auto
qed

lemma bare_prefixes_of:
  assumes "route_path_of path = RPrefix pre"
  shows "set (bare_prefixes path) =
    insert pre (case strip_suffix ''/'' pre of Some bare \<Rightarrow> {bare} | None \<Rightarrow> {})"
proof (cases "strip_suffix ''/'' pre")
  case None
  with route_path_prefix [OF assms] have "strip_suffix ''/*'' path = None"
    by (cases pre rule: rev_cases) (auto simp: strip_suffix_def)
  with route_path_prefix [OF assms] None show ?thesis
    by (auto simp: bare_prefixes_def strip_suffix_def)
next
  case (Some bare)
  then have "pre = bare @ ''/''" by (simp add: strip_suffix_Some)
  with route_path_prefix [OF assms] have "strip_suffix ''/*'' path = Some bare" "bare \<noteq> []"
    by (auto simp: strip_suffix_def)
  with Some \<open>pre = bare @ ''/''\<close> show ?thesis by (auto simp: bare_prefixes_def)
qed

lemma bare_prefix_take:
  assumes "route_path_of path = RPrefix pre" "bare \<in> set (bare_prefixes path)"
  shows "take (length bare) path = bare"
  using assms(2) bare_prefixes_of [OF assms(1)] route_path_prefix [OF assms(1)]
  by (auto simp: strip_suffix_Some split: option.splits)

lemma add_nodes_table:
  assumes "node_table N nodes"
  shows "\<exists>nodes'. add_nodes path nodes = Some nodes' \<and> node_table (set (path_nodes path) \<union> N) nodes'"
proof (cases "route_path_of path")
  case (RExact exact)
  with node_table_insert [OF assms, of "NExact exact"] show ?thesis by (simp add: add_nodes_def)
next
  case (RPrefix pre)
  let ?base = "bt_insert (catch_all_key pre) (NPrefix pre) nodes"
  from RPrefix have key: "glob_to_matchit path = Some (catch_all_key pre)"
    using route_path_prefix(1) [OF RPrefix]
    by (simp add: glob_to_matchit_def catch_all_key_def strip_suffix_def)
  have "foldl (\<lambda>nodes bare.
        bt_or_insert (escape_literal bare) (NExact (take (length bare) path)) nodes) ?base (bare_prefixes path)
    = foldl (\<lambda>nodes n. bt_or_insert (node_key n) n nodes) ?base (map NExact (bare_prefixes path))"
    unfolding foldl_map
    by (rule foldl_cong) (simp_all add: bare_prefix_take [OF RPrefix])
  with node_table_or_inserts [OF node_table_insert [OF assms, of "NPrefix pre"],
      of "map NExact (bare_prefixes path)"]
  show ?thesis using RPrefix key by (simp add: add_nodes_def)
qed (use assms in \<open>simp_all add: add_nodes_def\<close>)

lemma build_nodes_table:
  "node_table N nodes \<Longrightarrow>
    \<exists>nodes'. build_nodes paths nodes = Some nodes' \<and>
      node_table (\<Union> (set ` path_nodes ` set paths) \<union> N) nodes'"
proof (induction paths arbitrary: N nodes)
  case (Cons path paths)
  from add_nodes_table [OF Cons.prems] obtain nodes' where
    "add_nodes path nodes = Some nodes'" "node_table (set (path_nodes path) \<union> N) nodes'" by blast
  with Cons.IH [OF this(2)] show ?case
    by (auto simp: Un_assoc Un_left_commute simp del: path_nodes.simps)
qed simp

section \<open>Where a path lands\<close>

text \<open>\<open>lands N n path\<close>: among the nodes \<open>N\<close>, the tree sends \<open>path\<close> to \<open>n\<close>.\<close>

fun lands :: "node set \<Rightarrow> node \<Rightarrow> bytes \<Rightarrow> bool" where
  "lands N (NExact exact) path \<longleftrightarrow> exact = path \<and> NExact exact \<in> N"
| "lands N (NPrefix pre) path \<longleftrightarrow>
     NPrefix pre \<in> N \<and> strict_prefix pre path \<and> NExact path \<notin> N \<and>
     (\<forall>q. NPrefix q \<in> N \<and> strict_prefix q path \<longrightarrow> prefix q pre)"

lemma longest_catch_all_Some:
  "longest_catch_all entries path n = Some v \<Longrightarrow>
    \<exists>i \<le> n. map_of entries (catch_all_key (take i path)) = Some v \<and>
      (\<forall>j \<le> n. i < j \<longrightarrow> map_of entries (catch_all_key (take j path)) = None)"
proof (induction n)
  case (Suc n)
  show ?case
  proof (cases "map_of entries (catch_all_key (take (Suc n) path))")
    case None
    with Suc obtain i where "i \<le> n" "map_of entries (catch_all_key (take i path)) = Some v"
      "\<forall>j \<le> n. i < j \<longrightarrow> map_of entries (catch_all_key (take j path)) = None" by auto
    with None show ?thesis by (intro exI [of _ i]) (auto simp: le_Suc_eq)
  qed (use Suc in auto)
qed auto

lemma longest_catch_all_None:
  "longest_catch_all entries path n = None \<Longrightarrow>
    \<forall>i \<le> n. map_of entries (catch_all_key (take i path)) = None"
  by (induction n) (auto simp: le_Suc_eq split: option.splits)

lemma strict_prefix_take: "strict_prefix q path \<longleftrightarrow> (\<exists>i < length path. q = take i path)"
proof
  assume "strict_prefix q path"
  then have "length q < length path" "q = take (length q) path"
    by (auto simp: prefix_length_less strict_prefix_def prefix_def)
  then show "\<exists>i < length path. q = take i path" by blast
next
  assume "\<exists>i < length path. q = take i path"
  then show "strict_prefix q path"
    by (auto simp: strict_prefix_def take_is_prefix)
qed

lemma map_of_entries:
  "map_of (map (\<lambda>(k, n). (k, f n)) nodes) k = map_option f (map_of nodes k)"
  by (induction nodes) auto

lemma node_table_get:
  assumes "node_table N nodes"
  shows "map_of nodes (node_key n) = (if n \<in> N then Some n else None)"
proof (cases "map_of nodes (node_key n)")
  case None
  with assms have "n \<notin> N" unfolding node_table_def by (metis option.distinct(1))
  with None show ?thesis by simp
next
  case (Some m)
  with assms have "m \<in> N" "node_key n = node_key m" unfolding node_table_def by blast+
  with Some show ?thesis by (simp add: node_key_inj)
qed

lemmas node_table_exact = node_table_get [of _ _ "NExact path" for path, simplified]
lemmas node_table_prefix = node_table_get [of _ _ "NPrefix pre" for pre, simplified]

lemma matchit_lookup_Some:
  assumes "node_table N nodes"
    and "matchit_lookup (map (\<lambda>(k, n). (k, f n)) nodes) path = Some v"
  shows "\<exists>n. lands N n path \<and> v = f n"
proof (cases "NExact path \<in> N")
  case True
  with assms show ?thesis
    by (intro exI [of _ "NExact path"])
      (simp add: matchit_lookup_def map_of_entries node_table_exact)
next
  case False
  with assms have "path \<noteq> []" and "longest_catch_all (map (\<lambda>(k, n). (k, f n)) nodes) path (length path - 1) = Some v"
    by (auto simp: matchit_lookup_def map_of_entries node_table_exact split: if_splits)
  from longest_catch_all_Some [OF this(2)] obtain i where i: "i \<le> length path - 1"
    "NPrefix (take i path) \<in> N" "v = f (NPrefix (take i path))"
    "\<forall>j \<le> length path - 1. i < j \<longrightarrow> NPrefix (take j path) \<notin> N"
    using assms(1) by (auto simp: map_of_entries node_table_prefix split: if_splits)
  have "prefix q (take i path)" if "NPrefix q \<in> N" "strict_prefix q path" for q
  proof -
    from that(2) obtain j where j: "j < length path" "q = take j path"
      by (auto simp: strict_prefix_take)
    then have "j \<le> length path - 1" by simp
    with i(4) that(1) j(2) have "j \<le> i" by (meson not_less)
    then have "take j path = take j (take i path)" by (simp add: min_absorb1)
    with j show ?thesis by (simp only: take_is_prefix)
  qed
  moreover have "strict_prefix (take i path) path"
  proof -
    from i(1) \<open>path \<noteq> []\<close> have "i < length path" by (cases path) auto
    then show ?thesis unfolding strict_prefix_take by blast
  qed
  ultimately show ?thesis using False i(2,3)
    by (intro exI [of _ "NPrefix (take i path)"]) auto
qed

lemma matchit_lookup_None:
  assumes "node_table N nodes"
    and "matchit_lookup (map (\<lambda>(k, n). (k, f n)) nodes) path = None"
  shows "NExact path \<notin> N" "strict_prefix q path \<Longrightarrow> NPrefix q \<notin> N"
proof -
  from assms show "NExact path \<notin> N"
    by (auto simp: matchit_lookup_def map_of_entries node_table_exact split: if_splits)
  assume q: "strict_prefix q path"
  then have "path \<noteq> []" by auto
  with assms have "longest_catch_all (map (\<lambda>(k, n). (k, f n)) nodes) path (length path - 1) = None"
    by (auto simp: matchit_lookup_def map_of_entries node_table_exact split: if_splits option.splits)
  from longest_catch_all_None [OF this] assms(1)
  have "NPrefix (take i path) \<notin> N" if "i \<le> length path - 1" for i
    using that by (auto simp: map_of_entries node_table_prefix split: if_splits)
  moreover from q obtain i where "i < length path" "q = take i path" unfolding strict_prefix_take by blast
  ultimately show "NPrefix q \<notin> N" by simp
qed

section \<open>The pre-filter loses no route and keeps no tree-shaped route too many\<close>

lemma prefixes_comparable:
  "starts_with path a \<Longrightarrow> starts_with path b \<Longrightarrow> starts_with a b \<or> starts_with b a"
  unfolding starts_with_prefix using prefix_same_cases by blast

lemma covers_complete:
  assumes "lands N n path" "set (path_nodes route) \<subseteq> N"
    and "kind_accepts (route_path_of route) path"
  shows "covers (route_path_of route) n"
proof (cases "route_path_of route")
  case (RPrefix pre)
  from bare_prefixes_of [OF this] RPrefix assms(2)
  have N: "NPrefix pre \<in> N" "NExact pre \<in> N" "strip_suffix ''/'' pre = Some path \<Longrightarrow> NExact path \<in> N"
    by (auto split: option.splits)
  show ?thesis
  proof (cases n)
    case (NPrefix p)
    with assms(1) N(3) have "strip_suffix ''/'' pre \<noteq> Some path" by auto
    with assms(3) RPrefix have "prefix pre path" by simp
    moreover from NPrefix assms(1) N(2) have "pre \<noteq> path" by auto
    ultimately show ?thesis using NPrefix assms(1) N(1) RPrefix
      by (simp add: str_starts_with_prefix strict_prefix_def)
  qed (use assms(1,3) RPrefix in \<open>simp add: str_starts_with_prefix\<close>)
next
  case (RExact exact)
  with assms show ?thesis by (cases n) auto
next
  case (RWildcard pattern)
  show ?thesis
  proof (cases n)
    case (NPrefix p)
    with assms(1) have "starts_with path p"
      by (auto simp: starts_with_prefix to_ascii_lowercase_def map_mono_prefix strict_prefix_def)
    moreover from RWildcard assms(3) have "starts_with path (literal_prefix pattern)"
      by (simp add: pattern_matches_literal_prefix)
    ultimately show ?thesis using RWildcard NPrefix prefixes_comparable by auto
  qed (use assms(1,3) RWildcard in simp)
qed simp

lemma covers_sound:
  assumes "lands N n path" "covers kind n" "\<And>pattern. kind \<noteq> RWildcard pattern"
  shows "kind_accepts kind path"
  using assms
  by (cases kind; cases n)
    (auto simp: str_starts_with_prefix strict_prefix_def intro: prefix_order.trans)

lemma uncovered_rejects:
  assumes "NExact path \<notin> N" "\<And>q. strict_prefix q path \<Longrightarrow> NPrefix q \<notin> N"
    and "set (path_nodes route) \<subseteq> N" "\<not> is_catch_all (route_path_of route)"
  shows "\<not> kind_accepts (route_path_of route) path"
proof (cases "route_path_of route")
  case (RPrefix pre)
  from bare_prefixes_of [OF this] RPrefix assms(3)
  have N: "NPrefix pre \<in> N" "NExact pre \<in> N" "strip_suffix ''/'' pre = Some path \<Longrightarrow> NExact path \<in> N"
    by (auto split: option.splits)
  with assms(1,2) RPrefix show ?thesis by (auto simp: strict_prefix_def)
qed (use assms in auto)

section \<open>The built candidate lists\<close>

lemma enumerate_filter:
  "map fst (filter (\<lambda>(index, kind). P kind) (zip [0..<length kinds] kinds))
    = filter (\<lambda>i. P (kinds ! i)) [0..<length kinds]"
proof (induction kinds rule: rev_induct)
  case (snoc k kinds)
  have "filter (\<lambda>i. P ((kinds @ [k]) ! i)) [0..<length kinds] = filter (\<lambda>i. P (kinds ! i)) [0..<length kinds]"
    by (rule filter_cong) (auto simp: nth_append)
  with snoc show ?case by (simp add: nth_append)
qed simp

lemma wildcard_lower:
  "(\<exists>pattern. route_path_of (to_ascii_lowercase route) = RWildcard pattern) \<longleftrightarrow> wildcard route \<noteq> None"
  by (cases "path_pattern_of route")
    (auto simp: wildcard_def route_path_of_def catch_all_lower path_pattern_of_lower)

text \<open>
  The candidate list of a path, whatever node it lands on: an ascending selection of the routes
  that contains every route whose path accepts it, and every other entry is a wildcard route.
\<close>

lemma build_candidates:
  assumes "build routes = Some c"
    and "is = (case matchit_lookup (cand_nodes c) (to_ascii_lowercase path) of
                 Some is \<Rightarrow> is | None \<Rightarrow> cand_any c)"
  shows "\<exists>P. is = filter P [0..<length routes] \<and>
    (\<forall>i < length routes. route_path_accepts (routes ! i) path \<longrightarrow> P i) \<and>
    (\<forall>i < length routes. P i \<longrightarrow> wildcard (routes ! i) = None \<longrightarrow> route_path_accepts (routes ! i) path)"
proof -
  let ?paths = "map to_ascii_lowercase routes" and ?path = "to_ascii_lowercase path"
  let ?kinds = "map route_path_of ?paths"
  from build_nodes_table [OF node_table_empty, of ?paths] obtain nodes where
    nodes: "build_nodes ?paths [] = Some nodes"
      "node_table (\<Union> (set ` path_nodes ` set ?paths)) nodes" by (auto simp del: path_nodes.simps)
  define N where "N = \<Union> (set ` path_nodes ` set ?paths)"
  have accepts: "kind_accepts (?kinds ! i) ?path = route_path_accepts (routes ! i) path"
    if "i < length routes" for i
    using that by (simp add: kind_accepts_route_path_accepts)
  have own: "set (path_nodes (?paths ! i)) \<subseteq> N" if "i < length routes" for i
  proof -
    from that have "?paths ! i \<in> set ?paths" by (intro nth_mem) simp
    then show ?thesis unfolding N_def by (auto simp del: path_nodes.simps)
  qed
  have tree: "\<nexists>pattern. ?kinds ! i = RWildcard pattern"
    if "i < length routes" "wildcard (routes ! i) = None" for i
    using that wildcard_lower [of "routes ! i"] by simp
  from assms(1) nodes have c: "cand_nodes c = map (\<lambda>(k, n). (k, node_candidates ?kinds n)) nodes"
    "cand_any c = filter (\<lambda>i. is_catch_all (?kinds ! i)) [0..<length routes]"
    by (auto simp: build_def Let_def enumerate_filter [of is_catch_all, simplified])
  show ?thesis
  proof (cases "matchit_lookup (cand_nodes c) ?path")
    case (Some v)
    with matchit_lookup_Some [OF nodes(2), of "node_candidates ?kinds" ?path v] c obtain n where
      n: "lands N n ?path" and v: "v = node_candidates ?kinds n" by (auto simp: N_def)
    from v have "v = filter (\<lambda>i. covers (?kinds ! i) n) [0..<length routes]"
      using enumerate_filter [of "\<lambda>k. covers k n" ?kinds] by (simp add: node_candidates_def)
    moreover have "covers (?kinds ! i) n"
      if "i < length routes" "route_path_accepts (routes ! i) path" for i
      using covers_complete [OF n own [OF that(1)]] accepts [OF that(1)] that by simp
    moreover have "route_path_accepts (routes ! i) path"
      if "i < length routes" "covers (?kinds ! i) n" "wildcard (routes ! i) = None" for i
      using covers_sound [OF n that(2)] tree [OF that(1,3)] accepts [OF that(1)] by blast
    ultimately show ?thesis using Some assms(2) by (intro exI [of _ "\<lambda>i. covers (?kinds ! i) n"]) simp
  next
    case None
    have none: "NExact ?path \<notin> N" "\<And>q. strict_prefix q ?path \<Longrightarrow> NPrefix q \<notin> N"
      using matchit_lookup_None [OF nodes(2), of "node_candidates ?kinds" ?path] None c
      by (simp_all add: N_def)
    have "is_catch_all (?kinds ! i)"
      if "i < length routes" "route_path_accepts (routes ! i) path" for i
      using uncovered_rejects [OF none own [OF that(1)]] accepts [OF that(1)] that by auto
    moreover have "route_path_accepts (routes ! i) path"
      if "i < length routes" "is_catch_all (?kinds ! i)" "wildcard (routes ! i) = None" for i
      using that(2) tree [OF that(1,3)] accepts [OF that(1)] by (cases "?kinds ! i") auto
    ultimately show ?thesis using None assms(2) c(2)
      by (intro exI [of _ "\<lambda>i. is_catch_all (?kinds ! i)"]) simp
  qed
qed

lemma build_total: "\<exists>c. build routes = Some c"
  using build_nodes_table [OF node_table_empty, of "map to_ascii_lowercase routes"]
  by (auto simp: build_def Let_def)

end
