(* ===== verification/Router.thy ===== *)
theory Router
  imports Matcher Route_Candidates
begin

text \<open>
  The router (\<open>pingclair-core/src/server/router.rs\<close>): compiling the routes, the pre-filter walk and
  the first match. The radix tree is the \<open>matchit\<close> crate, a parameter; \<open>matchit_contract\<close> says what
  the router relies on. The matchers attached to handler elements are precompiled into a tree that
  mirrors the handlers; handlers that hold no elements are an opaque payload.
\<close>

section \<open>Handlers and their precompiled matchers\<close>

datatype ('net, 'h) handler_config =
    HPipeline "('net, 'h) handler_element list"
  | HFirstMatch "('net, 'h) handler_element list"
  | HHandlePath bytes "('net, 'h) handler_element list"
  | HTryFiles "bytes list" "bytes option" "('net, 'h) handler_config option"
  | HOther 'h
and ('net, 'h) handler_element =
    HandlerElement (element_matcher: "'net matcher option") (element_handler: "('net, 'h) handler_config")

datatype ('re, 'net) matcher_precompile =
  MatcherPrecompile
    (pre_matcher: "('re, 'net) compiled_matcher option")
    (pre_children: "('re, 'net) matcher_precompile list")

definition default_precompile :: "('re, 'net) matcher_precompile" where
  "default_precompile = MatcherPrecompile None []"

fun precompile_handler :: "'re regex_api \<Rightarrow> ('net, 'h) handler_config \<Rightarrow> ('re, 'net) matcher_precompile"
  and precompile_element :: "'re regex_api \<Rightarrow> ('net, 'h) handler_element \<Rightarrow> ('re, 'net) matcher_precompile"
where
  "precompile_handler regex (HPipeline handlers) =
     MatcherPrecompile None (map (precompile_element regex) handlers)"
| "precompile_handler regex (HFirstMatch handlers) =
     MatcherPrecompile None (map (precompile_element regex) handlers)"
| "precompile_handler regex (HHandlePath pre handlers) =
     MatcherPrecompile None (map (precompile_element regex) handlers)"
| "precompile_handler regex (HTryFiles files root fallback) = default_precompile"
| "precompile_handler regex (HOther h) = default_precompile"
| "precompile_element regex (HandlerElement matcher handler) =
     MatcherPrecompile (map_option (compile regex) matcher)
       (case handler of
          HPipeline handlers \<Rightarrow> map (precompile_element regex) handlers
        | HFirstMatch handlers \<Rightarrow> map (precompile_element regex) handlers
        | HHandlePath pre handlers \<Rightarrow> map (precompile_element regex) handlers
        | HTryFiles files root (Some fallback) \<Rightarrow> [precompile_handler regex fallback]
        | _ \<Rightarrow> [])"

definition precompile_handler_list ::
    "'re regex_api \<Rightarrow> ('net, 'h) handler_element list \<Rightarrow> ('re, 'net) matcher_precompile" where
  "precompile_handler_list regex handlers =
     MatcherPrecompile None (map (precompile_element regex) handlers)"

section \<open>Routes\<close>

record ('net, 'h) route_config =
  route_path :: bytes
  route_handler :: "('net, 'h) handler_config"
  route_methods :: "bytes list option"
  route_matcher :: "'net matcher option"

record ('re, 'net, 'h) compiled_route =
  cr_config :: "('net, 'h) route_config"
  cr_index :: nat
  cr_compiled_matcher :: "('re, 'net) compiled_matcher option"
  cr_matcher_precompile :: "('re, 'net) matcher_precompile"
  cr_wildcard :: "path_pattern option"

record 'rx matchit_api =
  rx_new :: 'rx
  rx_insert :: "'rx \<Rightarrow> bytes \<Rightarrow> nat list \<Rightarrow> 'rx option"
  rx_at :: "'rx \<Rightarrow> bytes \<Rightarrow> nat list option"

record ('rx, 're, 'net, 'h) router =
  path_router :: 'rx
  default_routes :: "nat list"
  all_routes :: "('net, 'h) route_config list"
  compiled_routes :: "('re, 'net, 'h) compiled_route list"

fun insert_paths :: "'rx matchit_api \<Rightarrow> (bytes \<times> nat list) list \<Rightarrow> 'rx \<Rightarrow> 'rx option" where
  "insert_paths rx [] router = Some router"
| "insert_paths rx ((pattern, indices) # nodes) router =
     (case rx_insert rx router pattern indices of
        None \<Rightarrow> None
      | Some router \<Rightarrow> insert_paths rx nodes router)"

definition compile_paths :: "'rx matchit_api \<Rightarrow> (bytes \<times> nat list) list \<Rightarrow> 'rx option" where
  "compile_paths rx nodes = insert_paths rx nodes (rx_new rx)"

definition compile_route ::
    "'re regex_api \<Rightarrow> nat \<Rightarrow> ('net, 'h) route_config \<Rightarrow> ('re, 'net, 'h) compiled_route" where
  "compile_route regex index config =
     \<lparr>cr_config = config, cr_index = index,
      cr_compiled_matcher = map_option (compile regex) (route_matcher config),
      cr_matcher_precompile = precompile_handler regex (route_handler config),
      cr_wildcard = wildcard (route_path config)\<rparr>"

text \<open>\<open>None\<close> is the panic of \<open>Router::new\<close> on paths that did not pass validation.\<close>

definition router_new ::
    "'rx matchit_api \<Rightarrow> 're regex_api \<Rightarrow> ('net, 'h) route_config list \<Rightarrow> ('rx, 're, 'net, 'h) router option" where
  "router_new rx regex routes =
     (case build (map route_path routes) of
        None \<Rightarrow> None
      | Some candidates \<Rightarrow>
          map_option
            (\<lambda>radix. \<lparr>path_router = radix, default_routes = cand_any candidates, all_routes = routes,
                      compiled_routes = map (\<lambda>(index, config). compile_route regex index config)
                        (zip [0..<length routes] routes)\<rparr>)
            (compile_paths rx (cand_nodes candidates)))"

text \<open>\<open>True\<close> is \<open>Ok(())\<close>; \<open>None\<close> would be a panic while the candidates are built.\<close>

definition validate_paths :: "'rx matchit_api \<Rightarrow> ('net, 'h) route_config list \<Rightarrow> bool option" where
  "validate_paths rx routes =
     map_option (\<lambda>candidates. compile_paths rx (cand_nodes candidates) \<noteq> None)
       (build (map route_path routes))"

definition compiled_route_at ::
    "('rx, 're, 'net, 'h) router \<Rightarrow> nat \<Rightarrow> ('re, 'net, 'h) compiled_route option" where
  "compiled_route_at router index =
     (if index < length (compiled_routes router) then Some (compiled_routes router ! index) else None)"

definition router_node_candidates :: "'rx matchit_api \<Rightarrow> ('rx, 're, 'net, 'h) router \<Rightarrow> bytes \<Rightarrow> nat list" where
  "router_node_candidates rx router key =
     (case rx_at rx (path_router router) key of
        Some indices \<Rightarrow> indices
      | None \<Rightarrow> default_routes router)"

definition folded_candidates :: "'rx matchit_api \<Rightarrow> ('rx, 're, 'net, 'h) router \<Rightarrow> bytes \<Rightarrow> nat list" where
  "folded_candidates rx router path =
     with_ascii_lowercase path (\<lambda>key. router_node_candidates rx router key)"

definition path_candidates ::
    "bool \<Rightarrow> 'rx matchit_api \<Rightarrow> ('rx, 're, 'net, 'h) router \<Rightarrow> bytes \<Rightarrow> nat list" where
  "path_candidates big_endian rx router path =
     (if has_ascii_uppercase big_endian path then folded_candidates rx router path
      else router_node_candidates rx router path)"

definition match_path ::
    "bool \<Rightarrow> 'rx matchit_api \<Rightarrow> ('rx, 're, 'net, 'h) router \<Rightarrow> bytes \<Rightarrow> ('re, 'net, 'h) compiled_route list" where
  "match_path big_endian rx router path =
     map (\<lambda>index. compiled_routes router ! index) (path_candidates big_endian rx router path)"

definition route_matches ::
    "('re, 'net) engines \<Rightarrow> ('re, 'net, 'h) compiled_route \<Rightarrow> bytes \<Rightarrow> matcher_request \<Rightarrow>
      bool \<times> matcher_request" where
  "route_matches eng route matching request =
     (if (case cr_wildcard route of Some pattern \<Rightarrow> \<not> pattern_matches pattern matching | None \<Rightarrow> False)
      then (False, request)
      else if (case route_methods (cr_config route) of
                 Some methods \<Rightarrow> \<not> list_ex (\<lambda>method. eq_ignore_ascii_case method (req_method request)) methods
               | None \<Rightarrow> False)
      then (False, request)
      else (case cr_compiled_matcher route of
              None \<Rightarrow> (True, request)
            | Some compiled \<Rightarrow> evaluate eng compiled request))"

text \<open>\<open>Iterator::find\<close> over the candidates, threading the request the predicate mutates.\<close>

fun find_route ::
    "('re, 'net) engines \<Rightarrow> bytes \<Rightarrow> ('re, 'net, 'h) compiled_route list \<Rightarrow> matcher_request \<Rightarrow>
      ('re, 'net, 'h) compiled_route option \<times> matcher_request" where
  "find_route eng matching [] request = (None, request)"
| "find_route eng matching (route # routes) request =
     (case route_matches eng route matching request of
        (True, request) \<Rightarrow> (Some route, request)
      | (False, request) \<Rightarrow> find_route eng matching routes request)"

definition match_normalized_request ::
    "bool \<Rightarrow> 'rx matchit_api \<Rightarrow> ('re, 'net) engines \<Rightarrow> ('rx, 're, 'net, 'h) router \<Rightarrow> matcher_request \<Rightarrow>
      ('re, 'net, 'h) compiled_route option \<times> matcher_request" where
  "match_normalized_request big_endian rx eng router request =
     (let matching = decode_for_matching (req_path request)
      in find_route eng matching (match_path big_endian rx router matching) request)"

definition normalize_segment :: "bytes \<Rightarrow> bytes list \<Rightarrow> bytes \<Rightarrow> bytes list" where
  "normalize_segment path segments segment =
     (if segment = [] \<or> segment = ''.'' then
        (if segments = [] \<and> str_starts_with path ''/'' then segments @ [[]] else segments)
      else if segment = ''..'' then butlast segments
      else segments @ [segment])"

definition normalize_request_path :: "bytes \<Rightarrow> bytes" where
  "normalize_request_path target =
     (let (path, query) = (case split_once (CHR ''?'') target of
                             Some (path, query) \<Rightarrow> (path, Some query)
                           | None \<Rightarrow> (target, None));
          segments = foldl (normalize_segment path) [] (split_on (CHR ''/'') path)
      in if segments = [] then
           (case query of None \<Rightarrow> ''/'' | Some q \<Rightarrow> ''/?'' @ q)
         else
           (let normalized = join_with ''/'' segments;
                normalized = (if \<not> str_starts_with normalized ''/'' then ''/'' @ normalized else normalized)
            in case query of Some query \<Rightarrow> normalized @ ''?'' @ query | None \<Rightarrow> normalized))"

definition match_request ::
    "bool \<Rightarrow> 'rx matchit_api \<Rightarrow> ('re, 'net) engines \<Rightarrow> ('rx, 're, 'net, 'h) router \<Rightarrow> matcher_request \<Rightarrow>
      ('re, 'net, 'h) compiled_route option \<times> matcher_request" where
  "match_request big_endian rx eng router request =
     match_normalized_request big_endian rx eng router
       (request\<lparr>req_path := normalize_request_path (req_path request)\<rparr>)"

section \<open>What the radix tree owes the router\<close>

definition radix_key :: "bytes \<Rightarrow> bool" where
  "radix_key key \<longleftrightarrow> (\<exists>node. key = node_key node)"

text \<open>
  The documented behaviour of \<open>matchit\<close> for the keys the router inserts: escaped literal paths and
  literal prefixes followed by one catch-all.
\<close>

definition matchit_contract :: "'rx matchit_api \<Rightarrow> bool" where
  "matchit_contract rx \<longleftrightarrow>
     (\<forall>nodes radix path. (\<forall>key \<in> fst ` set nodes. radix_key key) \<longrightarrow>
        compile_paths rx nodes = Some radix \<longrightarrow> rx_at rx radix path = matchit_lookup nodes path)"

lemma build_radix_keys:
  assumes "build routes = Some c"
  shows "\<forall>key \<in> fst ` set (cand_nodes c). radix_key key"
proof -
  let ?paths = "map to_ascii_lowercase routes"
  from build_nodes_table [OF node_table_empty, of ?paths] obtain nodes N where
    nodes: "build_nodes ?paths [] = Some nodes" "node_table N nodes" by blast
  have "radix_key key" if "key \<in> fst ` set nodes" for key
  proof -
    from that obtain n where "map_of nodes key = Some n"
      by (metis map_of_eq_None_iff not_None_eq)
    with nodes(2) show ?thesis unfolding node_table_def radix_key_def by blast
  qed
  moreover from assms nodes have "map fst (cand_nodes c) = map fst nodes"
    by (auto simp: build_def Let_def case_prod_beta)
  then have "fst ` set (cand_nodes c) = fst ` set nodes" by (metis set_map)
  ultimately show ?thesis by simp
qed

section \<open>First match in list order\<close>

text \<open>
  The specification of routing: the routes are tried one by one in configured order. A route is
  asked only when its path accepts the request and its methods allow it; the first whose matcher
  agrees answers.
\<close>

definition methods_allow :: "('net, 'h) route_config \<Rightarrow> matcher_request \<Rightarrow> bool" where
  "methods_allow config request =
     (case route_methods config of
        None \<Rightarrow> True
      | Some methods \<Rightarrow> list_ex (\<lambda>method. eq_ignore_ascii_case method (req_method request)) methods)"

definition config_agrees ::
    "('re, 'net) engines \<Rightarrow> ('net, 'h) route_config \<Rightarrow> matcher_request \<Rightarrow> bool \<times> matcher_request" where
  "config_agrees eng config request =
     (case route_matcher config of
        None \<Rightarrow> (True, request)
      | Some m \<Rightarrow> (case matcher_semantics eng m request of (verdict, request) \<Rightarrow> (verdict = Match, request)))"

fun first_match ::
    "('re, 'net) engines \<Rightarrow> bytes \<Rightarrow> (nat \<times> ('net, 'h) route_config) list \<Rightarrow> matcher_request \<Rightarrow>
      (nat \<times> ('net, 'h) route_config) option \<times> matcher_request" where
  "first_match eng matching [] request = (None, request)"
| "first_match eng matching ((index, config) # routes) request =
     (if route_path_accepts (route_path config) matching \<and> methods_allow config request then
        (case config_agrees eng config request of
           (True, request) \<Rightarrow> (Some (index, config), request)
         | (False, request) \<Rightarrow> first_match eng matching routes request)
      else first_match eng matching routes request)"

definition route_identity ::
    "('re, 'net, 'h) compiled_route option \<times> matcher_request \<Rightarrow>
      (nat \<times> ('net, 'h) route_config) option \<times> matcher_request" where
  "route_identity answer = map_prod (map_option (\<lambda>route. (cr_index route, cr_config route))) id answer"

lemma wildcard_accepts:
  "wildcard route = Some pattern \<Longrightarrow> route_path_accepts route path = pattern_matches pattern path"
  by (auto simp: wildcard_def route_path_of_def route_path_accepts_def
      split: if_splits path_pattern.splits route_path.splits)

lemma evaluate_compiled:
  "evaluate eng (compile (eng_regex eng) m) request =
    (case matcher_semantics eng m request of (verdict, request) \<Rightarrow> (verdict = Match, request))"
  by (simp add: evaluate_def evaluate_verdict_semantics)

lemma route_matches_compiled:
  assumes "wildcard (route_path config) = None \<Longrightarrow> route_path_accepts (route_path config) matching"
  shows "route_matches eng (compile_route (eng_regex eng) index config) matching request =
    (if route_path_accepts (route_path config) matching \<and> methods_allow config request
     then config_agrees eng config request else (False, request))"
proof -
  have "(case wildcard (route_path config) of
      Some pattern \<Rightarrow> \<not> pattern_matches pattern matching | None \<Rightarrow> False)
    = (\<not> route_path_accepts (route_path config) matching)"
    using assms wildcard_accepts [of "route_path config" _ matching]
    by (cases "wildcard (route_path config)") auto
  then show ?thesis
    by (simp add: route_matches_def compile_route_def methods_allow_def config_agrees_def
        evaluate_compiled split: option.splits)
qed

lemma find_route_first_match:
  assumes "\<And>i. i \<in> set is \<Longrightarrow> route_path_accepts (route_path (routes ! i)) matching \<Longrightarrow> P i"
    and "\<And>i. i \<in> set is \<Longrightarrow> P i \<Longrightarrow> wildcard (route_path (routes ! i)) = None \<Longrightarrow>
      route_path_accepts (route_path (routes ! i)) matching"
  shows "route_identity (find_route eng matching
      (map (\<lambda>i. compile_route (eng_regex eng) i (routes ! i)) (filter P is)) request)
    = first_match eng matching (map (\<lambda>i. (i, routes ! i)) is) request"
  using assms
proof (induction "is" arbitrary: request)
  case Nil
  then show ?case by (simp add: route_identity_def)
next
  case (Cons i "is")
  have IH: "route_identity (find_route eng matching
      (map (\<lambda>i. compile_route (eng_regex eng) i (routes ! i)) (filter P is)) request)
    = first_match eng matching (map (\<lambda>i. (i, routes ! i)) is) request" for request
    by (rule Cons.IH) (use Cons.prems in simp_all)
  show ?case
  proof (cases "P i")
    case True
    let ?r = "compile_route (eng_regex eng) i (routes ! i)"
    have rm: "route_matches eng ?r matching request =
        (if route_path_accepts (route_path (routes ! i)) matching \<and> methods_allow (routes ! i) request
         then config_agrees eng (routes ! i) request else (False, request))"
      by (rule route_matches_compiled) (use Cons.prems(2) [of i] True in simp)
    have id: "(cr_index ?r, cr_config ?r) = (i, routes ! i)" by (simp add: compile_route_def)
    obtain agrees request' where ca: "config_agrees eng (routes ! i) request = (agrees, request')"
      by fastforce
    show ?thesis
    proof (cases "route_path_accepts (route_path (routes ! i)) matching \<and> methods_allow (routes ! i) request")
      case True
      with \<open>P i\<close> rm ca id IH [of request'] show ?thesis
        by (cases agrees) (simp_all add: route_identity_def)
    next
      case False
      with \<open>P i\<close> rm IH [of request] show ?thesis by auto
    qed
  next
    case False
    with Cons.prems(1) [of i] IH show ?thesis by auto
  qed
qed

lemma no_uppercase_lower: "\<not> list_ex is_ascii_uppercase s \<Longrightarrow> to_ascii_lowercase s = s"
  by (intro to_ascii_lowercase_id) (auto simp: list_ex_iff)

lemma path_candidates_lower:
  assumes "utf8_valid path"
  shows "path_candidates False rx router path = router_node_candidates rx router (to_ascii_lowercase path)"
  using has_ascii_uppercase_le [OF utf8_valid_carry_safe [OF assms]] no_uppercase_lower [of path]
  by (simp add: path_candidates_def folded_candidates_def with_ascii_lowercase_eq)

lemma router_first_match:
  assumes "matchit_contract rx" "router_new rx (eng_regex eng) routes = Some router"
    and "utf8_valid (req_path request)"
  shows "route_identity (match_normalized_request False rx eng router request) =
    first_match eng (decode_for_matching (req_path request)) (zip [0..<length routes] routes) request"
proof -
  let ?matching = "decode_for_matching (req_path request)"
  from assms(2) obtain c radix where c: "build (map route_path routes) = Some c"
    "compile_paths rx (cand_nodes c) = Some radix"
    and router: "path_router router = radix" "default_routes router = cand_any c"
      "compiled_routes router = map (\<lambda>(i, r). compile_route (eng_regex eng) i r) (zip [0..<length routes] routes)"
    by (auto simp: router_new_def split: option.splits)
  have radix_at: "rx_at rx radix key = matchit_lookup (cand_nodes c) key" for key
    using assms(1) build_radix_keys [OF c(1)] c(2) unfolding matchit_contract_def by blast
  let ?is = "path_candidates False rx router ?matching"
  have "?is = (case matchit_lookup (cand_nodes c) (to_ascii_lowercase ?matching) of
      Some is \<Rightarrow> is | None \<Rightarrow> cand_any c)"
    using path_candidates_lower [OF utf8_valid_decode [OF assms(3)], of rx router]
    unfolding router_node_candidates_def router radix_at .
  from build_candidates [OF c(1) this] obtain P where P: "?is = filter P [0..<length routes]"
    "\<And>i. i < length routes \<Longrightarrow> route_path_accepts (route_path (routes ! i)) ?matching \<Longrightarrow> P i"
    "\<And>i. i < length routes \<Longrightarrow> P i \<Longrightarrow> wildcard (route_path (routes ! i)) = None \<Longrightarrow>
      route_path_accepts (route_path (routes ! i)) ?matching" by auto
  have nth: "compiled_routes router ! i = compile_route (eng_regex eng) i (routes ! i)"
    if "i < length routes" for i using that by (simp add: router(3))
  have "match_path False rx router ?matching =
      map (\<lambda>i. compile_route (eng_regex eng) i (routes ! i)) (filter P [0..<length routes])"
    unfolding match_path_def P(1) by (rule map_cong [OF refl]) (simp add: nth)
  moreover have "zip [0..<length routes] routes = map (\<lambda>i. (i, routes ! i)) [0..<length routes]"
    by (rule nth_equalityI) simp_all
  moreover have "route_identity (find_route eng ?matching
      (map (\<lambda>i. compile_route (eng_regex eng) i (routes ! i)) (filter P [0..<length routes])) request)
    = first_match eng ?matching (map (\<lambda>i. (i, routes ! i)) [0..<length routes]) request"
    by (rule find_route_first_match) (simp_all add: P(2,3))
  ultimately show ?thesis unfolding match_normalized_request_def Let_def by (simp only:)
qed

section \<open>Normalised request paths\<close>

lemma normalize_segments:
  assumes "segments = ys \<or> segments = [] # ys"
  shows "foldl (normalize_segment path) segments pieces = foldl resolve_segment ys pieces \<or>
    foldl (normalize_segment path) segments pieces = [] # foldl resolve_segment ys pieces"
  using assms
proof (induction pieces arbitrary: segments ys)
  case (Cons p pieces)
  have "normalize_segment path segments p = resolve_segment ys p \<or>
      normalize_segment path segments p = [] # resolve_segment ys p"
    using Cons.prems by (cases "ys = []") (auto simp: normalize_segment_def resolve_segment_def)
  from Cons.IH [OF this] show ?case by simp
qed simp

lemma kept_join:
  "list_all kept_segment ys \<Longrightarrow> ys \<noteq> [] \<Longrightarrow> \<not> str_starts_with (join_with ''/'' ys) ''/''"
  by (cases ys) (auto simp: join_with_concat str_starts_with_prefix kept_segment_def prefix_Cons
      neq_Nil_conv)

definition target_parts :: "bytes \<Rightarrow> bytes \<times> bytes" where
  "target_parts target =
     (case split_once (CHR ''?'') target of
        Some (path, query) \<Rightarrow> (path, CHR ''?'' # query) | None \<Rightarrow> (target, []))"

definition resolved_segments :: "bytes \<Rightarrow> bytes list" where
  "resolved_segments path = foldl resolve_segment [] (split_on (CHR ''/'') path)"

lemma resolved_kept: "list_all kept_segment (resolved_segments path)"
  unfolding resolved_segments_def by (rule resolve_segments_kept) (auto dest: split_on_pieces)

lemma normalize_request_path_eq:
  "normalize_request_path target =
    (case target_parts target of (path, query) \<Rightarrow> ''/'' @ join_with ''/'' (resolved_segments path) @ query)"
proof -
  obtain path query where t: "target_parts target = (path, query)" by fastforce
  let ?segs = "foldl (normalize_segment path) [] (split_on (CHR ''/'') path)"
  let ?ys = "resolved_segments path"
  have segs: "?segs = ?ys \<or> ?segs = [] # ?ys"
    using normalize_segments [of "[]" "[]" path "split_on (CHR ''/'') path"]
    by (simp add: resolved_segments_def)
  define n where "n = (if ?segs = [] then ''/''
    else if \<not> str_starts_with (join_with ''/'' ?segs) ''/'' then ''/'' @ join_with ''/'' ?segs
    else join_with ''/'' ?segs)"
  have "n = ''/'' @ join_with ''/'' ?ys"
  proof (cases "?ys = []")
    case True
    with segs show ?thesis by (auto simp: n_def str_starts_with_def)
  next
    case False
    with segs kept_join [OF resolved_kept False] show ?thesis
      by (auto simp: n_def join_with_Cons str_starts_with_def)
  qed
  moreover have "normalize_request_path target = n @ query"
    using t unfolding normalize_request_path_def target_parts_def n_def
    by (auto simp: Let_def split: option.splits)
  ultimately show ?thesis using t by simp
qed

lemma resolved_segments_join:
  assumes "list_all kept_segment ys"
  shows "resolved_segments (''/'' @ join_with ''/'' ys) = ys"
proof (cases "ys = []")
  case False
  have "split_on (CHR ''/'') (''/'' @ join_with ''/'' ys) = [] # ys"
    using split_join [of "[] # ys" "CHR ''/''"] assms False
    by (simp add: join_with_Cons list_all_iff kept_segment_def)
  then show ?thesis
    using resolve_segments_id [OF assms, of "[]"] by (simp add: resolved_segments_def resolve_segment_def)
qed (simp add: resolved_segments_def resolve_segment_def)

lemma kept_no_query: "CHR ''?'' \<notin> set path \<Longrightarrow> CHR ''?'' \<notin> set (join_with ''/'' (resolved_segments path))"
proof -
  assume path: "CHR ''?'' \<notin> set path"
  have "set (concat (foldl resolve_segment acc segs)) \<subseteq> set (concat acc) \<union> set (concat segs)" for acc segs
  proof (induction segs arbitrary: acc)
    case (Cons x segs)
    have "set (concat (resolve_segment acc x)) \<subseteq> set (concat acc) \<union> set x"
      by (auto simp: resolve_segment_def dest: in_set_butlastD)
    with Cons.IH [of "resolve_segment acc x"] show ?case by auto
  qed simp
  from this [of "[]" "split_on (CHR ''/'') path"]
  have "set (concat (resolved_segments path)) \<subseteq> set (concat (split_on (CHR ''/'') path))"
    by (simp only: resolved_segments_def concat.simps list.set(1) Un_empty_left)
  moreover have "set (concat (split_on (CHR ''/'') path)) \<subseteq> set path"
    using set_split_on by fastforce
  ultimately have "\<forall>s \<in> set (resolved_segments path). CHR ''?'' \<notin> set s" using path by auto
  then show ?thesis
    by (cases "resolved_segments path") (auto simp: join_with_concat)
qed

lemma normalize_request_path_idem:
  "normalize_request_path (normalize_request_path target) = normalize_request_path target"
proof -
  obtain path query where t: "target_parts target = (path, query)" by fastforce
  then have q: "CHR ''?'' \<notin> set path" "query = [] \<or> hd query = CHR ''?'' \<and> query \<noteq> []"
    by (auto simp: target_parts_def split_once_Some split_once_None split: option.splits)
  let ?n = "''/'' @ join_with ''/'' (resolved_segments path)"
  have "CHR ''?'' \<notin> set ?n" using kept_no_query [OF q(1)] by simp
  note n = this
  have "target_parts (?n @ query) = (?n, query)"
  proof (cases query)
    case Nil
    with n have "split_once (CHR ''?'') (?n @ query) = None" by (simp add: split_once_None)
    with Nil show ?thesis by (simp add: target_parts_def)
  next
    case (Cons c rest)
    with q(2) n have "split_once (CHR ''?'') (?n @ query) = Some (?n, rest)"
      by (simp add: split_once_Some)
    with Cons q(2) show ?thesis by (simp add: target_parts_def)
  qed
  then show ?thesis
    using t resolved_segments_join [OF resolved_kept, of path] by (simp add: normalize_request_path_eq)
qed

section \<open>Precompiled matchers\<close>

fun handler_elements :: "('net, 'h) handler_config \<Rightarrow> ('net, 'h) handler_element list" where
  "handler_elements (HPipeline handlers) = handlers"
| "handler_elements (HFirstMatch handlers) = handlers"
| "handler_elements (HHandlePath pre handlers) = handlers"
| "handler_elements _ = []"

text \<open>Following a position, one index per level, in the handlers and in the precompiled tree.\<close>

fun element_at :: "('net, 'h) handler_config \<Rightarrow> nat list \<Rightarrow> ('net, 'h) handler_element option" where
  "element_at handler [] = None"
| "element_at handler (i # position) =
     (if i < length (handler_elements handler) then
        (let element = handler_elements handler ! i
         in if position = [] then Some element else element_at (element_handler element) position)
      else None)"

fun node_at :: "('re, 'net) matcher_precompile \<Rightarrow> nat list \<Rightarrow> ('re, 'net) matcher_precompile option" where
  "node_at node [] = Some node"
| "node_at node (i # position) =
     (if i < length (pre_children node) then node_at (pre_children node ! i) position else None)"

lemma precompile_children:
  "handler_elements handler \<noteq> [] \<Longrightarrow>
    pre_children (precompile_handler regex handler) = map (precompile_element regex) (handler_elements handler) \<and>
    pre_children (precompile_element regex (HandlerElement m handler))
      = map (precompile_element regex) (handler_elements handler)"
  by (cases handler) simp_all

lemma precompile_position:
  "element_at handler position = Some element \<Longrightarrow>
    pre_children node = map (precompile_element regex) (handler_elements handler) \<Longrightarrow>
    node_at node position = Some (precompile_element regex element)"
proof (induction handler position arbitrary: node rule: element_at.induct)
  case (2 handler i position)
  let ?e = "handler_elements handler ! i"
  from "2.prems" have i: "i < length (handler_elements handler)" by (auto split: if_splits)
  show ?case
  proof (cases "position = []")
    case False
    with "2.prems" i have e: "element_at (element_handler ?e) position = Some element" by (simp add: Let_def)
    with False have "handler_elements (element_handler ?e) \<noteq> []" by (cases position) (auto split: if_splits)
    from precompile_children [OF this, of regex "element_matcher ?e"]
    have "pre_children (precompile_element regex ?e)
        = map (precompile_element regex) (handler_elements (element_handler ?e))" by simp
    from "2.IH" [OF i refl False e this] "2.prems"(2) i show ?thesis by simp
  qed (use "2.prems" i in \<open>simp add: Let_def\<close>)
qed simp

text \<open>
  A route whose own handler is \<open>try_files\<close> has its fallback's matchers precompiled nowhere: the
  node is the default one, and an element without a precompiled matcher runs unconditionally.
\<close>

lemma try_files_fallback_guards_lost:
  "pre_children (precompile_handler regex
     (HTryFiles files root (Some (HPipeline [HandlerElement (Some guard) handler])))) = []"
  by (simp add: default_precompile_def)

section \<open>Small inputs\<close>

definition list_radix :: "(bytes \<times> nat list) list matchit_api" where
  "list_radix = \<lparr>rx_new = [], rx_insert = (\<lambda>r p v. Some (r @ [(p, v)])), rx_at = matchit_lookup\<rparr>"

definition no_regex :: "unit regex_api" where
  "no_regex = \<lparr>re_new = (\<lambda>_. None), re_is_match = (\<lambda>_ _. False), re_captures = (\<lambda>_ _. None),
     re_capture_names = (\<lambda>_. [])\<rparr>"

definition no_nets :: "unit ipnet_api" where
  "no_nets = \<lparr>net_parse = (\<lambda>_. None), net_from_addr = (\<lambda>_. ()), net_contains = (\<lambda>_ _. False)\<rparr>"

definition small_engines :: "(unit, unit) engines" where
  "small_engines = \<lparr>eng_regex = no_regex, eng_ipnet = no_nets, eng_fs = two_files\<rparr>"

definition plain_route :: "bytes \<Rightarrow> bytes list option \<Rightarrow> (unit, unit) route_config" where
  "plain_route path methods =
     \<lparr>route_path = path, route_handler = HOther (), route_methods = methods, route_matcher = None\<rparr>"

lemma insert_paths_list: "insert_paths list_radix nodes r = Some (r @ nodes)"
  by (induction list_radix nodes r rule: insert_paths.induct) (simp_all add: list_radix_def)

lemma list_radix_contract: "matchit_contract list_radix"
  by (simp add: matchit_contract_def compile_paths_def insert_paths_list) (simp add: list_radix_def)

section \<open>Properties\<close>

text \<open>
  C1: Routing answers with the first route in configured order whose path, methods and matcher
  accept the request. The radix pre-filter, the folding of letter case and the compiled matchers
  only save work: the route found and the variables the tried matchers wrote are those of trying
  every route in turn, given that the radix tree looks keys up as documented.
\<close>

theorem router_answers_first_match:
  assumes "matchit_contract rx" "router_new rx (eng_regex eng) routes = Some router"
    and "utf8_valid (req_path request)"
  shows "route_identity (match_normalized_request False rx eng router request) =
    first_match eng (decode_for_matching (req_path request)) (zip [0..<length routes] routes) request"
  using assms by (rule router_first_match)

theorem router_answers_first_match_witness:
  "\<exists>router. router_new list_radix no_regex
       [plain_route ''*.php'' (Some [''POST'']), plain_route ''/A/*'' None, plain_route ''/*'' None] = Some router \<and>
     route_identity (match_normalized_request False list_radix small_engines router (bare_request ''/a/x.php'')) =
       (Some (1, plain_route ''/A/*'' None), bare_request ''/a/x.php'')"
proof -
  let ?routes = "[plain_route ''*.php'' (Some [''POST'']), plain_route ''/A/*'' None, plain_route ''/*'' None]"
  have "router_new list_radix no_regex ?routes \<noteq> None"
    using build_total [of "map route_path ?routes"]
    by (auto simp: router_new_def compile_paths_def insert_paths_list split: option.splits)
  then obtain router where router: "router_new list_radix (eng_regex small_engines) ?routes = Some router"
    by (auto simp: small_engines_def)
  have valid: "utf8_valid (req_path (bare_request ''/a/x.php''))" by code_simp
  have facts: "decode_for_matching ''/a/x.php'' = ''/a/x.php''"
    "route_path_accepts ''/A/*'' ''/a/x.php''" "\<not> eq_ignore_ascii_case ''POST'' ''GET''"
    by code_simp+
  have "first_match small_engines (decode_for_matching (req_path (bare_request ''/a/x.php'')))
      (zip [0..<length ?routes] ?routes) (bare_request ''/a/x.php'')
    = (Some (1, plain_route ''/A/*'' None), bare_request ''/a/x.php'')"
    using facts
    by (simp add: bare_request_def plain_route_def methods_allow_def config_agrees_def)
  with router_answers_first_match [OF list_radix_contract router valid] router show ?thesis
    by (auto simp: small_engines_def)
qed

text \<open>
  A configuration the router accepts at validation can be loaded: building never panics, and
  validation succeeds exactly when the router can be constructed.
\<close>

theorem validated_routes_load:
  "validate_paths rx routes = Some (router_new rx regex routes \<noteq> None)"
  using build_total [of "map route_path routes"]
  by (auto simp: validate_paths_def router_new_def)

text \<open>
  Normalising a request path resolves \<open>.\<close> and \<open>..\<close> segments and merges slashes, never leaving
  the root: the result is one slash and the remaining segments, none of them empty or a dot
  segment, followed by the untouched query. Normalising again changes nothing.
\<close>

theorem normalize_request_path_canonical:
  "(case target_parts target of (path, query) \<Rightarrow>
      normalize_request_path target = ''/'' @ join_with ''/'' (resolved_segments path) @ query \<and>
      list_all kept_segment (resolved_segments path)) \<and>
   normalize_request_path (normalize_request_path target) = normalize_request_path target"
  using resolved_kept normalize_request_path_idem
  by (auto simp: normalize_request_path_eq split: prod.splits)

text \<open>
  The precompiled matchers mirror the handler tree: at every position that leads through
  pipelines, first-match groups and path handlers to an element, the precompiled tree holds that
  element's node, with its matcher compiled.
\<close>

theorem precompile_mirrors_handlers:
  "case element_at handler position of
     None \<Rightarrow> True
   | Some element \<Rightarrow>
       map_option pre_matcher (node_at (precompile_handler regex handler) position)
         = Some (map_option (compile regex) (element_matcher element))"
proof (cases "element_at handler position")
  case (Some element)
  then have "handler_elements handler \<noteq> []" by (cases position) (auto split: if_splits)
  from precompile_position [OF Some] precompile_children [OF this]
  have "node_at (precompile_handler regex handler) position = Some (precompile_element regex element)"
    by blast
  with Some show ?thesis by (cases element) simp
qed simp

end
