(* ===== verification/Fastcgi.thy ===== *)
theory Fastcgi
  imports Utf8
begin

text \<open>
  The FastCGI client (\<open>pingclair-fastcgi/src/lib.rs\<close>): record framing, the parameter stream, the
  request body, and reading the response. The stream under a client is the bytes the responder will
  have sent before the stream ends, what a read reports when they run out (an I/O error, or the
  deadline), what was written so far, and the outcome of each write still to come: it succeeds, or
  it fails after the given number of bytes.
\<close>

unbundle bit_operations_syntax

section \<open>Wire constants\<close>

definition version :: nat where
  "version = 1"

datatype record_type = BeginRequest | AbortRequest | EndRequest | Params | Stdin | Stdout | Stderr

fun record_type_code :: "record_type \<Rightarrow> nat" where
  "record_type_code BeginRequest = 1"
| "record_type_code AbortRequest = 2"
| "record_type_code EndRequest = 3"
| "record_type_code Params = 4"
| "record_type_code Stdin = 5"
| "record_type_code Stdout = 6"
| "record_type_code Stderr = 7"

definition record_type_try_from :: "nat \<Rightarrow> record_type option" where
  "record_type_try_from v =
     (if v = 1 then Some BeginRequest else if v = 2 then Some AbortRequest
      else if v = 3 then Some EndRequest else if v = 4 then Some Params
      else if v = 5 then Some Stdin else if v = 6 then Some Stdout
      else if v = 7 then Some Stderr else None)"

definition role_responder :: nat where
  "role_responder = 1"

datatype protocol_status = RequestComplete | CantMultiplexConnections | Overloaded | UnknownRole

definition protocol_status_try_from :: "nat \<Rightarrow> protocol_status option" where
  "protocol_status_try_from v =
     (if v = 0 then Some RequestComplete else if v = 1 then Some CantMultiplexConnections
      else if v = 2 then Some Overloaded else if v = 3 then Some UnknownRole else None)"

definition max_record_content :: nat where
  "max_record_content = 65500"

definition max_header_bytes :: nat where
  "max_header_bytes = 64 * 1024"

definition max_stderr_bytes :: nat where
  "max_stderr_bytes = 64 * 1024"

definition header_terminator :: bytes where
  "header_terminator = [CHR 0x0D, CHR 0x0A, CHR 0x0D, CHR 0x0A]"

section \<open>Errors\<close>

datatype protocol_violation =
    UnsupportedVersion nat
  | UnknownRecordType nat
  | WrongRequest nat nat
  | RequestDirection record_type
  | UnexpectedRecord record_type record_type
  | RecordTooLong
  | EndRequestLength nat
  | UnknownProtocolStatus nat
  | HeaderTooLong
  | EndedBeforeHeaders
  | HeaderNotUtf8
  | LineWithoutColon bytes
  | BadStatus bytes

datatype fastcgi_error =
    Io
  | TimedOut
  | Protocol protocol_violation
  | Rejected protocol_status
  | ParamsTooLarge

section \<open>The client\<close>

record client =
  inbound :: bytes
  inbound_end :: fastcgi_error
  outbound :: bytes
  write_outcomes :: "(nat \<times> fastcgi_error) option list"
  request_id :: "16 word"
  capture_stderr :: bool
  stderr :: bytes
  pending_body :: bytes
  finished :: bool
  response_status :: "nat option"

type_synonym 'a io = "(fastcgi_error + 'a) \<times> client"

definition client_new :: "bytes \<Rightarrow> fastcgi_error \<Rightarrow> (nat \<times> fastcgi_error) option list \<Rightarrow> 16 word \<Rightarrow> bool \<Rightarrow> client" where
  "client_new input input_end outcomes rid capture =
     \<lparr>inbound = input, inbound_end = input_end, outbound = [], write_outcomes = outcomes,
      request_id = rid, capture_stderr = capture, stderr = [], pending_body = [], finished = False,
      response_status = None\<rparr>"

definition read_exact :: "nat \<Rightarrow> client \<Rightarrow> bytes io" where
  "read_exact n c =
     (if n \<le> length (inbound c)
      then (Inr (take n (inbound c)), c\<lparr>inbound := drop n (inbound c)\<rparr>)
      else (Inl (inbound_end c), c\<lparr>inbound := []\<rparr>))"

definition write_all :: "bytes \<Rightarrow> client \<Rightarrow> unit io" where
  "write_all buffer c =
     (case write_outcomes c of
        Some (n, e) # outcomes \<Rightarrow>
          (Inl e, c\<lparr>write_outcomes := outcomes, outbound := outbound c @ take n buffer\<rparr>)
      | None # outcomes \<Rightarrow> (Inr (), c\<lparr>write_outcomes := outcomes, outbound := outbound c @ buffer\<rparr>)
      | [] \<Rightarrow> (Inr (), c\<lparr>outbound := outbound c @ buffer\<rparr>))"

section \<open>Writing records\<close>

definition padding_length :: "nat \<Rightarrow> nat" where
  "padding_length n = (8 - n mod 8) mod 8"

definition frame :: "16 word \<Rightarrow> record_type \<Rightarrow> bytes \<Rightarrow> bytes" where
  "frame rid record_type content =
     [char_of version, char_of (record_type_code record_type)] @ be16 (unat rid) @
     be16 (length content) @ [char_of (padding_length (length content)), char_of (0::nat)] @
     content @ replicate (padding_length (length content)) (char_of (0::nat))"

definition write_record :: "record_type \<Rightarrow> bytes \<Rightarrow> client \<Rightarrow> unit io" where
  "write_record record_type content c =
     (if max_record_content < length content then (Inl (Protocol RecordTooLong), c)
      else write_all (frame (request_id c) record_type content) c)"

definition begin_request :: "client \<Rightarrow> unit io" where
  "begin_request c =
     write_record BeginRequest (be16 role_responder @ replicate 6 (char_of (0::nat))) c"

definition parameter_size :: "nat \<Rightarrow> nat \<Rightarrow> nat" where
  "parameter_size name_len value_len =
     (let prefixes = (if 127 < name_len then 4 else 1) + (if 127 < value_len then 4 else 1);
          saturate = (\<lambda>n. min n (2 ^ 64 - 1))
      in saturate (saturate (name_len + value_len) + prefixes))"

definition encode_size :: "nat \<Rightarrow> bytes" where
  "encode_size n =
     (if 127 < n then
        (let w = (of_nat n :: 32 word) OR push_bit 31 1
         in map (\<lambda>k. char_of (unat (drop_bit k w))) [24, 16, 8, 0])
      else [char_of n])"

definition encode_pair :: "bytes \<times> bytes \<Rightarrow> bytes" where
  "encode_pair pair =
     (case pair of (name, v) \<Rightarrow> encode_size (length name) @ encode_size (length v) @ name @ v)"

definition pair_size :: "bytes \<times> bytes \<Rightarrow> nat" where
  "pair_size pair = (case pair of (name, v) \<Rightarrow> parameter_size (length name) (length v))"

fun send_params_loop :: "(bytes \<times> bytes) list \<Rightarrow> bytes \<Rightarrow> client \<Rightarrow> bytes io" where
  "send_params_loop [] record c = (Inr record, c)"
| "send_params_loop (pair # params) record c =
     (if max_record_content < length record + pair_size pair then
        (case write_record Params record c of
           (Inl e, c) \<Rightarrow> (Inl e, c)
         | (Inr _, c) \<Rightarrow> send_params_loop params (encode_pair pair) c)
      else send_params_loop params (record @ encode_pair pair) c)"

definition send_params :: "(bytes \<times> bytes) list \<Rightarrow> client \<Rightarrow> unit io" where
  "send_params params c =
     (if list_ex (\<lambda>pair. max_record_content < pair_size pair) params then (Inl ParamsTooLarge, c)
      else
        (case send_params_loop params [] c of
           (Inl e, c) \<Rightarrow> (Inl e, c)
         | (Inr record, c) \<Rightarrow>
             (case (if record \<noteq> [] then write_record Params record c else (Inr (), c)) of
                (Inl e, c) \<Rightarrow> (Inl e, c)
              | (Inr _, c) \<Rightarrow> write_record Params [] c)))"

fun send_parts :: "bytes list \<Rightarrow> client \<Rightarrow> unit io" where
  "send_parts [] c = (Inr (), c)"
| "send_parts (part # parts) c =
     (case write_record Stdin part c of
        (Inl e, c) \<Rightarrow> (Inl e, c)
      | (Inr _, c) \<Rightarrow> send_parts parts c)"

definition send_stdin :: "bytes \<Rightarrow> client \<Rightarrow> unit io" where
  "send_stdin chunk c = send_parts (chunks max_record_content chunk) c"

definition finish_stdin :: "client \<Rightarrow> unit io" where
  "finish_stdin c = write_record Stdin [] c"

definition abort :: "client \<Rightarrow> client" where
  "abort c = snd (write_record AbortRequest [] c)"

section \<open>Reading records\<close>

definition read_record :: "client \<Rightarrow> (record_type \<times> bytes) io" where
  "read_record c =
     (case read_exact 8 c of
        (Inl e, c) \<Rightarrow> (Inl e, c)
      | (Inr header, c) \<Rightarrow>
          if byte_val (header ! 0) \<noteq> version then
            (Inl (Protocol (UnsupportedVersion (byte_val (header ! 0)))), c)
          else
            (case record_type_try_from (byte_val (header ! 1)) of
               None \<Rightarrow> (Inl (Protocol (UnknownRecordType (byte_val (header ! 1)))), c)
             | Some record_type \<Rightarrow>
                 (let rid = from_be16 (header ! 2) (header ! 3)
                  in if rid \<noteq> unat (request_id c) then
                       (Inl (Protocol (WrongRequest rid (unat (request_id c)))), c)
                     else
                       (case read_exact (from_be16 (header ! 4) (header ! 5)) c of
                          (Inl e, c) \<Rightarrow> (Inl e, c)
                        | (Inr content, c) \<Rightarrow>
                            (case (if 0 < byte_val (header ! 6) then read_exact (byte_val (header ! 6)) c
                                   else (Inr [], c)) of
                               (Inl e, c) \<Rightarrow> (Inl e, c)
                             | (Inr _, c) \<Rightarrow> (Inr (record_type, content), c))))))"

definition parse_end_request :: "bytes \<Rightarrow> fastcgi_error + (nat \<times> protocol_status)" where
  "parse_end_request content =
     (if length content \<noteq> 8 then Inl (Protocol (EndRequestLength (length content)))
      else
        (case protocol_status_try_from (byte_val (content ! 4)) of
           None \<Rightarrow> Inl (Protocol (UnknownProtocolStatus (byte_val (content ! 4))))
         | Some status \<Rightarrow>
             Inr (from_be16 (content ! 0) (content ! 1) * 65536 + from_be16 (content ! 2) (content ! 3), status)))"

definition keep_stderr :: "bytes \<Rightarrow> client \<Rightarrow> client" where
  "keep_stderr content c =
     (if capture_stderr c \<and> length (stderr c) < max_stderr_bytes then
        c\<lparr>stderr := stderr c @ take (max_stderr_bytes - length (stderr c)) content\<rparr>
      else c)"

lemma read_exact_length: "length (inbound (snd (read_exact n c))) \<le> length (inbound c) - n"
  by (simp add: read_exact_def)

lemma read_record_length:
  "read_record c = (Inr r, c') \<Longrightarrow> length (inbound c') < length (inbound c)"
  by (auto simp: read_record_def read_exact_def Let_def split: if_splits option.splits)

function read_stream_record :: "record_type \<Rightarrow> client \<Rightarrow> (bytes option) io" where
  "read_stream_record expected c =
     (case read_record c of
        (Inl e, c) \<Rightarrow> (Inl e, c)
      | (Inr (record_type, content), c) \<Rightarrow>
          (case record_type of
             Stderr \<Rightarrow> read_stream_record expected (keep_stderr content c)
           | EndRequest \<Rightarrow>
               (case parse_end_request content of
                  Inl e \<Rightarrow> (Inl e, c)
                | Inr (app_status, status) \<Rightarrow>
                    if status \<noteq> RequestComplete then (Inl (Rejected status), c) else (Inr None, c))
           | AbortRequest \<Rightarrow> (Inl (Protocol (RequestDirection record_type)), c)
           | BeginRequest \<Rightarrow> (Inl (Protocol (RequestDirection record_type)), c)
           | Params \<Rightarrow> (Inl (Protocol (RequestDirection record_type)), c)
           | Stdin \<Rightarrow> (Inl (Protocol (RequestDirection record_type)), c)
           | Stdout \<Rightarrow>
               if record_type = expected then (Inr (Some content), c)
               else (Inl (Protocol (UnexpectedRecord record_type expected)), c)))"
  by pat_completeness auto
termination
  by (relation "measure (\<lambda>(expected, c). length (inbound c))")
    (auto simp: keep_stderr_def dest!: sym [THEN read_record_length])

declare read_stream_record.simps [simp del]

lemma read_stream_record_Inl:
  "read_record c = (Inl e, c1) \<Longrightarrow> read_stream_record expected c = (Inl e, c1)"
  by (subst read_stream_record.simps) simp

lemma read_stream_record_Stderr:
  "read_record c = (Inr (Stderr, content), c1) \<Longrightarrow>
    read_stream_record expected c = read_stream_record expected (keep_stderr content c1)"
  by (subst read_stream_record.simps) simp

lemma read_stream_record_other:
  "read_record c = (Inr (t, content), c1) \<Longrightarrow> t \<noteq> Stderr \<Longrightarrow>
    read_stream_record expected c =
      (if t = EndRequest then
         (case parse_end_request content of
            Inl e \<Rightarrow> (Inl e, c1)
          | Inr (app_status, status) \<Rightarrow>
              if status \<noteq> RequestComplete then (Inl (Rejected status), c1) else (Inr None, c1))
       else if t = Stdout then
         (if t = expected then (Inr (Some content), c1)
          else (Inl (Protocol (UnexpectedRecord t expected)), c1))
       else (Inl (Protocol (RequestDirection t)), c1))"
  by (subst read_stream_record.simps) (cases t; simp)

lemma keep_stderr_inbound [simp]: "inbound (keep_stderr content c) = inbound c"
  by (simp add: keep_stderr_def)

lemma read_stream_record_induct [consumes 1, case_names failed stderr other]:
  assumes "read_stream_record expected c = (r, c')"
    and failed: "\<And>c e c1. read_record c = (Inl e, c1) \<Longrightarrow> P c (Inl e) c1"
    and stderr: "\<And>c content c1 r c'. read_record c = (Inr (Stderr, content), c1) \<Longrightarrow>
      P (keep_stderr content c1) r c' \<Longrightarrow> P c r c'"
    and other: "\<And>c t content c1 r. read_record c = (Inr (t, content), c1) \<Longrightarrow> t \<noteq> Stderr \<Longrightarrow>
      read_stream_record expected c = (r, c1) \<Longrightarrow> P c r c1"
  shows "P c r c'"
  using assms(1)
proof (induction "length (inbound c)" arbitrary: c rule: less_induct)
  case less
  obtain o1 c1 where read: "read_record c = (o1, c1)"
    by (cases "read_record c")
  show ?case
  proof (cases o1)
    case (Inl e)
    then show ?thesis
      using less.prems failed [of c e c1] read by (simp add: read_stream_record_Inl)
  next
    case (Inr p)
    obtain t content where p: "p = (t, content)"
      by (cases p)
    show ?thesis
    proof (cases "t = Stderr")
      case True
      then show ?thesis
        using less.hyps [of "keep_stderr content c1"] less.prems read Inr p read_record_length [of c p c1]
          stderr [of c content c1 r c'] by (simp add: read_stream_record_Stderr)
    next
      case False
      have "c' = c1"
        using less.prems read_stream_record_other [of c t content c1 expected] read Inr p False
        by (auto split: if_splits sum.splits)
      then show ?thesis
        using other [of c t content c1 r] less.prems read Inr p False by simp
    qed
  qed
qed

lemma read_stream_record_length:
  "read_stream_record expected c = (Inr r, c') \<Longrightarrow> length (inbound c') < length (inbound c)"
proof (induction c "Inr r :: fastcgi_error + bytes option" c' rule: read_stream_record_induct)
  case (stderr c content c1 c')
  then show ?case
    using read_record_length [of c "(Stderr, content)" c1] by simp
next
  case (other c t content c1)
  then show ?case
    using read_record_length [of c "(t, content)" c1] by simp
qed

section \<open>The response\<close>

definition find_terminator :: "bytes \<Rightarrow> nat option" where
  "find_terminator bs =
     (case find (\<lambda>(i, window). window = header_terminator)
             (zip [0..<length bs + 1] (windows (length header_terminator) bs)) of
        Some (i, _) \<Rightarrow> Some i
      | None \<Rightarrow> None)"

record response_header =
  status :: nat
  reason :: "bytes option"
  headers :: "(bytes \<times> bytes) list"
  first_body :: bytes

fun parse_header_lines :: "bytes list \<Rightarrow> response_header \<Rightarrow> fastcgi_error + response_header" where
  "parse_header_lines [] h = Inr h"
| "parse_header_lines (line # lines) h =
     (if line = [] then parse_header_lines lines h
      else
        (case split_once (CHR '':'') line of
           None \<Rightarrow> Inl (Protocol (LineWithoutColon line))
         | Some (name, v) \<Rightarrow>
             (let v = str_trim v
              in if eq_ignore_ascii_case name ''status'' then
                   (let (code, phrase) = (case split_once (CHR '' '') v of
                                            Some (code, phrase) \<Rightarrow> (code, Some phrase)
                                          | None \<Rightarrow> (v, None))
                    in case parse_uint 16 (str_trim code) of
                         None \<Rightarrow> Inl (Protocol (BadStatus v))
                       | Some code \<Rightarrow> parse_header_lines lines (h\<lparr>status := code, reason := phrase\<rparr>))
                 else parse_header_lines lines (h\<lparr>headers := headers h @ [(name, v)]\<rparr>))))"

definition parse_cgi_header :: "bytes \<Rightarrow> fastcgi_error + response_header" where
  "parse_cgi_header block =
     (if \<not> utf8_valid block then Inl (Protocol HeaderNotUtf8)
      else parse_header_lines (split_str [CHR 0x0D, CHR 0x0A] block)
             \<lparr>status = 200, reason = None, headers = [], first_body = []\<rparr>)"

function read_header_loop :: "bytes \<Rightarrow> client \<Rightarrow> response_header io" where
  "read_header_loop header_bytes c =
     (case find_terminator header_bytes of
        Some offset \<Rightarrow>
          (let block = take (offset + length header_terminator) header_bytes;
               remainder = drop (offset + length header_terminator) header_bytes
           in case parse_cgi_header block of
                Inl e \<Rightarrow> (Inl e, c)
              | Inr parsed \<Rightarrow>
                  (Inr (parsed\<lparr>first_body := remainder\<rparr>),
                   c\<lparr>pending_body := remainder, response_status := Some (status parsed)\<rparr>))
      | None \<Rightarrow>
          if max_header_bytes \<le> length header_bytes then (Inl (Protocol HeaderTooLong), c)
          else
            (case read_stream_record Stdout c of
               (Inl e, c) \<Rightarrow> (Inl e, c)
             | (Inr None, c) \<Rightarrow> (Inl (Protocol EndedBeforeHeaders), c)
             | (Inr (Some content), c) \<Rightarrow> read_header_loop (header_bytes @ content) c))"
  by pat_completeness auto
termination
  by (relation "measure (\<lambda>(header_bytes, c). length (inbound c))")
    (auto dest!: sym [THEN read_stream_record_length])

declare read_header_loop.simps [simp del]

definition read_response_header :: "client \<Rightarrow> response_header io" where
  "read_response_header c = read_header_loop [] c"

function read_body_loop :: "client \<Rightarrow> (bytes option) io" where
  "read_body_loop c =
     (case read_stream_record Stdout c of
        (Inl e, c) \<Rightarrow> (Inl e, c)
      | (Inr None, c) \<Rightarrow> (Inr None, c\<lparr>finished := True\<rparr>)
      | (Inr (Some content), c) \<Rightarrow>
          if content \<noteq> [] then (Inr (Some content), c) else read_body_loop c)"
  by pat_completeness auto
termination
  by (relation "measure (\<lambda>c. length (inbound c))") (auto dest!: sym [THEN read_stream_record_length])

declare read_body_loop.simps [simp del]

definition read_body_chunk :: "client \<Rightarrow> (bytes option) io" where
  "read_body_chunk c =
     (if finished c then (Inr None, c)
      else if pending_body c \<noteq> [] then (Inr (Some (pending_body c)), c\<lparr>pending_body := []\<rparr>)
      else read_body_loop c)"

definition take_stderr :: "client \<Rightarrow> bytes \<times> client" where
  "take_stderr c = (stderr c, c\<lparr>stderr := []\<rparr>)"

definition client_response_status :: "client \<Rightarrow> nat option" where
  "client_response_status c = response_status c"

section \<open>Records survive the stream\<close>

lemma record_type_try_from_code [simp]: "record_type_try_from (record_type_code t) = Some t"
  by (cases t) (simp_all add: record_type_try_from_def)

lemma record_type_code_bound [simp]: "record_type_code t < 256"
  by (cases t) simp_all

lemma padding_length_bound: "padding_length n < 8"
  by (simp add: padding_length_def)

lemma padding_aligns: "8 dvd n + padding_length n"
proof (cases "n mod 8 = 0")
  case True
  then show ?thesis by (auto simp: padding_length_def)
next
  case False
  then have "padding_length n = 8 - n mod 8"
    by (simp add: padding_length_def)
  moreover have "n mod 8 < 8" by simp
  ultimately have "n + padding_length n = 8 * (n div 8 + 1)"
    using div_mult_mod_eq [of n 8] by arith
  then show ?thesis by simp
qed

lemma length_frame: "length (frame rid t content) = 8 + length content + padding_length (length content)"
  by (simp add: frame_def)

lemma read_exact_append [simp]:
  "inbound c = xs @ rest \<Longrightarrow> n = length xs \<Longrightarrow> read_exact n c = (Inr xs, c\<lparr>inbound := rest\<rparr>)"
  by (simp add: read_exact_def)

lemma unat_16_bound: "unat (w :: 16 word) < 65536"
  using unsigned_less [of w] by simp

lemma read_record_frame:
  assumes "inbound c = frame (request_id c) t content @ rest" and len: "length content < 65536"
  shows "read_record c = (Inr (t, content), c\<lparr>inbound := rest\<rparr>)"
proof -
  let ?p = "padding_length (length content)"
  define header where
    "header = [char_of version, char_of (record_type_code t)] @ be16 (unat (request_id c)) @
       be16 (length content) @ [char_of ?p, char_of (0::nat)]"
  have "inbound c = header @ content @ replicate ?p (char_of (0::nat)) @ rest"
    by (simp add: assms(1) frame_def header_def)
  then have header: "read_exact 8 c = (Inr header, c\<lparr>inbound := content @ replicate ?p (char_of (0::nat)) @ rest\<rparr>)"
    by (intro read_exact_append) (simp_all add: header_def)
  have fields: "byte_val (header ! 0) = version" "byte_val (header ! 1) = record_type_code t"
    "from_be16 (header ! 2) (header ! 3) = unat (request_id c)"
    "from_be16 (header ! 4) (header ! 5) = length content" "byte_val (header ! 6) = ?p"
    using padding_length_bound [of "length content"] from_be16_be16 [OF len]
      from_be16_be16 [OF unat_16_bound [of "request_id c"]]
    by (simp_all add: header_def version_def be16_def)
  show ?thesis
    by (cases "?p = 0") (simp_all add: read_record_def header fields del: One_nat_def)
qed

lemma write_record_ok:
  "write_outcomes c = [] \<Longrightarrow> length content \<le> max_record_content \<Longrightarrow>
    write_record t content c = (Inr (), c\<lparr>outbound := outbound c @ frame (request_id c) t content\<rparr>)"
  by (simp add: write_record_def write_all_def)

section \<open>The parameter stream\<close>

text \<open>How a responder reads one \<open>PARAMS\<close> record on its own: name and value lengths of one or four
  bytes, then the name and the value, to the end of the record.\<close>

definition decode_size :: "bytes \<Rightarrow> (nat \<times> bytes) option" where
  "decode_size bs =
     (case bs of
        [] \<Rightarrow> None
      | b # rest \<Rightarrow>
          if byte_val b < 128 then Some (byte_val b, rest)
          else
            (case rest of
               b1 # b2 # b3 # rest \<Rightarrow>
                 Some (((byte_val b - 128) * 256 + byte_val b1) * 65536 + from_be16 b2 b3, rest)
             | _ \<Rightarrow> None))"

definition decode_pair :: "bytes \<Rightarrow> ((bytes \<times> bytes) \<times> bytes) option" where
  "decode_pair bs =
     Option.bind (decode_size bs) (\<lambda>(n, bs).
       Option.bind (decode_size bs) (\<lambda>(v, bs).
         if n + v \<le> length bs then Some ((take n bs, take v (drop n bs)), drop (n + v) bs) else None))"

inductive decodes :: "bytes \<Rightarrow> (bytes \<times> bytes) list \<Rightarrow> bool" where
  "decodes [] []"
| "decode_pair bs = Some (pair, rest) \<Longrightarrow> decodes rest pairs \<Longrightarrow> decodes bs (pair # pairs)"

lemma unat_size_word:
  assumes n: "n < 2 ^ 31"
  shows "unat ((of_nat n :: 32 word) OR push_bit 31 1) = n + 2 ^ 31"
proof -
  from n have u: "unat (of_nat n :: 32 word) = n"
    by (simp add: unsigned_of_nat take_bit_nat_eq_self)
  have "n AND 2 ^ 31 = 0"
    unfolding and_exp_eq_0_iff_not_bit bit_iff_odd using n by simp
  then have "n OR 2 ^ 31 = n + 2 ^ 31"
    by (rule disjunctive_add_eq_or [symmetric])
  then show ?thesis
    by (simp add: unsigned_or_eq u)
qed

lemma char_of_add_256 [simp]: "(char_of (n + k * 256 :: nat) :: char) = char_of n"
  by (metis char_of_mod_256 mod_mult_self1)

lemma encode_size_bytes:
  assumes "127 < n" and "n < 2 ^ 31"
  shows "encode_size n =
    [char_of (n div 16777216 + 128), char_of (n div 65536), char_of (n div 256), char_of n]"
proof -
  define w where "w = (of_nat n :: 32 word) OR push_bit 31 1"
  have u: "unat w = n + 2147483648"
    using unat_size_word [OF assms(2)] by (simp add: w_def)
  have "n + 2147483648 = n + 128 * 16777216" "n + 2147483648 = n + (128 * 256) * 65536"
    "n + 2147483648 = n + (32768 * 256) * 256"
    by simp_all
  then have "(n + 2147483648) div 16777216 = n div 16777216 + 128"
    "(n + 2147483648) div 65536 = n div 65536 + 128 * 256"
    "(n + 2147483648) div 256 = n div 256 + 32768 * 256"
    by (simp_all only: div_mult_self1 zero_neq_numeral [symmetric] not_False_eq_True add.commute)
  moreover have "encode_size n = map (\<lambda>k. char_of (unat (drop_bit k w))) [24, 16, 8, 0]"
    using assms(1) by (simp only: encode_size_def Let_def w_def if_True)
  moreover have "unat (drop_bit k w) = (n + 2147483648) div 2 ^ k" for k
    by (simp only: unat_drop_bit_eq u, simp only: drop_bit_eq_div)
  ultimately show ?thesis
    using char_of_add_256 [of n 8388608] char_of_add_256 [of "n div 65536" 128]
      char_of_add_256 [of "n div 256" 32768]
    by simp
qed

lemma decode_encode_size [simp]:
  assumes "n < 2 ^ 31"
  shows "decode_size (encode_size n @ rest) = Some (n, rest)"
proof (cases "127 < n")
  case True
  have b: "n div 16777216 < 128"
    using assms by (simp add: less_mult_imp_div_less)
  have e: "n = (n div 16777216 * 256 + n div 65536 mod 256) * 65536 + (n div 256 mod 256 * 256 + n mod 256)"
  proof -
    have "n div 256 = n div 256 div 256 * 256 + n div 256 mod 256"
      "n div 65536 = n div 65536 div 256 * 256 + n div 65536 mod 256"
      "n = n div 256 * 256 + n mod 256"
      by simp_all
    then show ?thesis by (simp only: div_mult2_eq [symmetric] mult_numeral_left_semiring_numeral semiring_norm)
  qed
  show ?thesis
    using True b e by (simp add: encode_size_bytes [OF True assms] decode_size_def from_be16_def)
next
  case False
  then show ?thesis by (simp add: encode_size_def decode_size_def)
qed

lemma length_encode_size: "length (encode_size n) = (if 127 < n then 4 else 1)"
  by (simp add: encode_size_def Let_def)

lemma length_encode_pair: "pair_size p \<le> max_record_content \<Longrightarrow> length (encode_pair p) = pair_size p"
  by (auto simp: encode_pair_def pair_size_def parameter_size_def max_record_content_def Let_def
      length_encode_size min_def split: prod.splits if_splits)

lemma encode_pair_not_Nil [simp]: "encode_pair p \<noteq> []"
  by (auto simp: encode_pair_def encode_size_def Let_def split: prod.splits)

lemma decode_encode_pair:
  assumes "pair_size p \<le> max_record_content"
  shows "decode_pair (encode_pair p @ rest) = Some (p, rest)"
proof -
  obtain name v where p: "p = (name, v)" by (cases p)
  have "length name + length v \<le> max_record_content"
    using length_encode_pair [OF assms] assms by (simp add: p encode_pair_def)
  then have "length name < 2 ^ 31" "length v < 2 ^ 31"
    by (simp_all add: max_record_content_def)
  then show ?thesis
    by (simp add: p decode_pair_def encode_pair_def)
qed

definition encode_pairs :: "(bytes \<times> bytes) list \<Rightarrow> bytes" where
  "encode_pairs pairs = concat (map encode_pair pairs)"

lemma encode_pairs_simps [simp]:
  "encode_pairs [] = []" "encode_pairs (p # ps) = encode_pair p @ encode_pairs ps"
  "encode_pairs (ps @ qs) = encode_pairs ps @ encode_pairs qs"
  by (simp_all add: encode_pairs_def)

lemma encode_pairs_Nil_iff [simp]: "encode_pairs ps = [] \<longleftrightarrow> ps = []"
  by (cases ps) simp_all

lemma decodes_encode_pairs:
  "list_all (\<lambda>p. pair_size p \<le> max_record_content) ps \<Longrightarrow> decodes (encode_pairs ps) ps"
  by (induction ps) (auto intro: decodes.intros decode_encode_pair)

definition fits_record :: "(bytes \<times> bytes) list \<Rightarrow> bool" where
  "fits_record pairs \<longleftrightarrow> pairs \<noteq> [] \<and> length (encode_pairs pairs) \<le> max_record_content"

definition params_frames :: "16 word \<Rightarrow> (bytes \<times> bytes) list list \<Rightarrow> bytes" where
  "params_frames rid batches = concat (map (\<lambda>b. frame rid Params (encode_pairs b)) batches)"

lemma params_frames_simps [simp]:
  "params_frames rid [] = []"
  "params_frames rid (b # bs) = frame rid Params (encode_pairs b) @ params_frames rid bs"
  "params_frames rid (as @ bs) = params_frames rid as @ params_frames rid bs"
  by (simp_all add: params_frames_def)

lemma send_params_loop_batches:
  assumes "write_outcomes c = []" and "list_all (\<lambda>p. pair_size p \<le> max_record_content) params"
    and "length (encode_pairs b0) \<le> max_record_content"
  shows "\<exists>batches final.
    send_params_loop params (encode_pairs b0) c =
      (Inr (encode_pairs final), c\<lparr>outbound := outbound c @ params_frames (request_id c) batches\<rparr>) \<and>
    concat batches @ final = b0 @ params \<and> list_all fits_record batches \<and>
    length (encode_pairs final) \<le> max_record_content"
  using assms
proof (induction params arbitrary: b0 c)
  case Nil
  then show ?case
    by (intro exI [of _ "[]"] exI [of _ b0]) simp
next
  case (Cons p params)
  have len: "length (encode_pair p) = pair_size p" "pair_size p \<le> max_record_content"
    using Cons.prems by (simp_all add: length_encode_pair)
  show ?case
  proof (cases "max_record_content < length (encode_pairs b0) + pair_size p")
    case True
    let ?c = "c\<lparr>outbound := outbound c @ frame (request_id c) Params (encode_pairs b0)\<rparr>"
    obtain batches final where ih:
      "send_params_loop params (encode_pairs [p]) ?c =
        (Inr (encode_pairs final), ?c\<lparr>outbound := outbound ?c @ params_frames (request_id ?c) batches\<rparr>)"
      "concat batches @ final = [p] @ params" "list_all fits_record batches"
      "length (encode_pairs final) \<le> max_record_content"
      using Cons.IH [of ?c "[p]"] Cons.prems len by auto
    have "fits_record b0"
      using True len Cons.prems by (auto simp: fits_record_def)
    then show ?thesis
      using True ih Cons.prems
      by (intro exI [of _ "b0 # batches"] exI [of _ final]) (simp add: write_record_ok)
  next
    case False
    then show ?thesis
      using Cons.IH [of c "b0 @ [p]"] Cons.prems len by simp
  qed
qed

lemma fits_record_decodes:
  assumes "list_all (\<lambda>p. pair_size p \<le> max_record_content) params" and "concat batches = params"
  shows "list_all (\<lambda>b. decodes (encode_pairs b) b) batches"
  using assms by (auto simp: list_all_iff intro!: decodes_encode_pairs)

lemma send_params_batches:
  assumes "write_outcomes c = []" and "list_all (\<lambda>p. pair_size p \<le> max_record_content) params"
  shows "\<exists>batches. concat batches = params \<and> list_all fits_record batches \<and>
    send_params params c =
      (Inr (), c\<lparr>outbound := outbound c @ params_frames (request_id c) batches @
                              frame (request_id c) Params []\<rparr>)"
proof -
  obtain batches final where loop:
    "send_params_loop params (encode_pairs []) c =
      (Inr (encode_pairs final), c\<lparr>outbound := outbound c @ params_frames (request_id c) batches\<rparr>)"
    "concat batches @ final = [] @ params" "list_all fits_record batches"
    "length (encode_pairs final) \<le> max_record_content"
    using send_params_loop_batches [OF assms, of "[]"] by auto
  have small: "\<not> list_ex (\<lambda>p. max_record_content < pair_size p) params"
    using assms(2) by (auto simp: list_all_iff list_ex_iff)
  show ?thesis
  proof (cases "final = []")
    case True
    then show ?thesis
      using loop small assms(1)
      by (intro exI [of _ batches]) (simp add: send_params_def write_record_ok)
  next
    case False
    then show ?thesis
      using loop small assms(1)
      by (intro exI [of _ "batches @ [final]"]) (simp add: send_params_def write_record_ok fits_record_def)
  qed
qed

text \<open>
  C37: The parameter stream carries the environment in records a responder can decode one by one. If
  some pair is too large for a record, nothing is written and the error says so. Otherwise, on a
  stream that takes every write, the bytes written are \<open>PARAMS\<close> records, none empty and none over the
  limit, each of which decodes alone into whole name-value pairs, the pairs of all of them in order
  being the environment, and then the empty record that ends the stream.
\<close>

theorem send_params_whole_pairs:
  assumes "write_outcomes c = []"
  shows "if list_ex (\<lambda>p. max_record_content < pair_size p) params
    then send_params params c = (Inl ParamsTooLarge, c)
    else \<exists>batches. concat batches = params \<and>
      list_all (\<lambda>b. b \<noteq> [] \<and> length (encode_pairs b) \<le> max_record_content \<and> decodes (encode_pairs b) b)
        batches \<and>
      send_params params c =
        (Inr (), c\<lparr>outbound := outbound c @
           concat (map (\<lambda>b. frame (request_id c) Params (encode_pairs b)) batches) @
           frame (request_id c) Params []\<rparr>)"
proof (cases "list_ex (\<lambda>p. max_record_content < pair_size p) params")
  case True
  then show ?thesis by (simp add: send_params_def)
next
  case False
  then have small: "list_all (\<lambda>p. pair_size p \<le> max_record_content) params"
    by (auto simp: list_all_iff list_ex_iff)
  then show ?thesis
    using send_params_batches [OF assms small] fits_record_decodes [OF small] False
    by (fastforce simp: fits_record_def params_frames_def list_all_iff)
qed

theorem send_params_whole_pairs_witness:
  "\<exists>batches. concat batches = [(''A'', ''1''), (''B'', '''')] \<and>
     list_all (\<lambda>b. b \<noteq> [] \<and> length (encode_pairs b) \<le> max_record_content \<and> decodes (encode_pairs b) b)
       batches \<and>
     outbound (snd (send_params [(''A'', ''1''), (''B'', '''')] (client_new [] Io [] 1 False))) =
       concat (map (\<lambda>b. frame 1 Params (encode_pairs b)) batches) @ frame 1 Params []"
proof -
  let ?c = "client_new [] Io [] 1 False" and ?params = "[(''A'', ''1''), (''B'', '''')]"
  have "write_outcomes ?c = []" "outbound ?c = []" "request_id ?c = 1"
    by (simp_all add: client_new_def)
  moreover have "\<not> list_ex (\<lambda>p. max_record_content < pair_size p) ?params"
    by (simp add: pair_size_def parameter_size_def max_record_content_def)
  ultimately obtain batches where "concat batches = ?params"
    "list_all (\<lambda>b. b \<noteq> [] \<and> length (encode_pairs b) \<le> max_record_content \<and> decodes (encode_pairs b) b)
       batches"
    "send_params ?params ?c = (Inr (), ?c\<lparr>outbound :=
       concat (map (\<lambda>b. frame 1 Params (encode_pairs b)) batches) @ frame 1 Params []\<rparr>)"
    using send_params_whole_pairs [of ?c ?params] by (simp only: if_False append_Nil) blast
  then show ?thesis by (intro exI [of _ batches]) simp
qed

text \<open>
  A record that was written is read back. Whatever follows on the stream, reading a framed record
  gives its type and content, padding removed, and leaves exactly what followed; and every frame is
  a multiple of eight bytes long, as the specification recommends.
\<close>

theorem record_round_trip:
  assumes "write_outcomes c = []" and "write_record t content c = (Inr (), c')"
    and "inbound d = outbound c' @ rest" and "outbound c = []" and "request_id d = request_id c"
  shows "read_record d = (Inr (t, content), d\<lparr>inbound := rest\<rparr>) \<and> 8 dvd length (outbound c')"
proof -
  have len: "length content \<le> max_record_content"
    and out: "outbound c' = frame (request_id d) t content"
    using assms by (auto simp: write_record_def write_all_def split: if_splits)
  then have "read_record d = (Inr (t, content), d\<lparr>inbound := rest\<rparr>)"
    using assms(3) by (intro read_record_frame) (simp_all add: max_record_content_def)
  moreover have "8 dvd length (outbound c')"
    using dvd_add [OF dvd_refl padding_aligns [of "length content"]]
    by (simp add: out length_frame add.assoc)
  ultimately show ?thesis by simp
qed

theorem record_round_trip_witness:
  "read_record \<lparr>inbound = frame 7 Stdin ''abc'' @ ''rest'', inbound_end = Io, outbound = [],
      write_outcomes = [], request_id = 7, capture_stderr = False, stderr = [], pending_body = [],
      finished = False, response_status = None\<rparr> =
    (Inr (Stdin, ''abc''),
     \<lparr>inbound = ''rest'', inbound_end = Io, outbound = [],
      write_outcomes = [], request_id = 7, capture_stderr = False, stderr = [], pending_body = [],
      finished = False, response_status = None\<rparr>)"
proof -
  let ?c = "client_new [] Io [] 7 False"
  let ?d = "client_new (frame 7 Stdin ''abc'' @ ''rest'') Io [] 7 False"
  have "write_record Stdin ''abc'' ?c = (Inr (), ?c\<lparr>outbound := frame 7 Stdin ''abc''\<rparr>)"
    by (simp add: write_record_ok client_new_def max_record_content_def)
  from record_round_trip [OF _ this, of ?d "''rest''"] show ?thesis
    by (simp add: client_new_def)
qed

section \<open>The response, however it is cut into records\<close>

definition wire :: "16 word \<Rightarrow> (record_type \<times> bytes) list \<Rightarrow> bytes" where
  "wire rid records = concat (map (\<lambda>(t, content). frame rid t content) records)"

definition stdout_of :: "(record_type \<times> bytes) list \<Rightarrow> bytes" where
  "stdout_of records = concat (map snd (filter (\<lambda>(t, content). t = Stdout) records))"

text \<open>The responder's side of one exchange: output and diagnostics records in any order, then the
  end of the request, reported complete, and after it anything.\<close>

definition serves :: "client \<Rightarrow> (record_type \<times> bytes) list \<Rightarrow> bool" where
  "serves c records \<longleftrightarrow>
     (\<exists>final rest. inbound c = wire (request_id c) records @ frame (request_id c) EndRequest final @ rest \<and>
        length final = 8 \<and> final ! 4 = char_of (0::nat)) \<and>
     list_all (\<lambda>(t, content). (t = Stdout \<or> t = Stderr) \<and> length content < 65536) records"

text \<open>What a caller that reads chunks until the end collects.\<close>

inductive delivers :: "client \<Rightarrow> bytes \<Rightarrow> client \<Rightarrow> bool" where
  delivers_end: "read_body_chunk c = (Inr None, c') \<Longrightarrow> delivers c [] c'"
| delivers_chunk: "read_body_chunk c = (Inr (Some chunk), c1) \<Longrightarrow> delivers c1 body c' \<Longrightarrow>
    delivers c (chunk @ body) c'"

lemma stdout_of_simps [simp]:
  "stdout_of [] = []"
  "stdout_of ((t, content) # records) = (if t = Stdout then content else []) @ stdout_of records"
  by (simp_all add: stdout_of_def)

lemma wire_simps [simp]:
  "wire rid [] = []" "wire rid ((t, content) # records) = frame rid t content @ wire rid records"
  by (simp_all add: wire_def)

lemma keep_stderr_frame [simp]:
  "request_id (keep_stderr content c) = request_id c" "pending_body (keep_stderr content c) = pending_body c"
  "finished (keep_stderr content c) = finished c" "response_status (keep_stderr content c) = response_status c"
  by (simp_all add: keep_stderr_def)

lemma parse_end_request_complete:
  assumes "length final = 8" and "final ! 4 = char_of (0::nat)"
  shows "\<exists>app_status. parse_end_request final = Inr (app_status, RequestComplete)"
  using assms by (simp add: parse_end_request_def protocol_status_try_from_def)

definition next_output :: "(record_type \<times> bytes) list \<Rightarrow> client \<Rightarrow> (bytes option) io \<Rightarrow> bool" where
  "next_output records c result =
     (case result of
        (Inl e, c') \<Rightarrow> False
      | (Inr None, c') \<Rightarrow> stdout_of records = []
      | (Inr (Some content), c') \<Rightarrow>
          (\<exists>records'. serves c' records' \<and> stdout_of records = content @ stdout_of records' \<and>
             length records' < length records) \<and>
          pending_body c' = pending_body c \<and> finished c' = finished c)"

lemma next_output_skip:
  "next_output records' c' result \<Longrightarrow> stdout_of records = stdout_of records' \<Longrightarrow>
    length records' < length records \<Longrightarrow> pending_body c' = pending_body c \<Longrightarrow>
    finished c' = finished c \<Longrightarrow> next_output records c result"
  by (auto simp: next_output_def split: prod.splits sum.splits option.splits intro: less_trans)

lemma read_stream_serves: "serves c records \<Longrightarrow> next_output records c (read_stream_record Stdout c)"
proof (induction records arbitrary: c)
  case Nil
  then obtain final rest where c: "inbound c = frame (request_id c) EndRequest final @ rest"
    "length final = 8" "final ! 4 = char_of (0::nat)"
    by (auto simp: serves_def)
  then obtain app_status where "parse_end_request final = Inr (app_status, RequestComplete)"
    using parse_end_request_complete by blast
  then show ?case
    using read_record_frame [OF c(1)] c(2) by (simp add: read_stream_record_other next_output_def)
next
  case (Cons r records)
  obtain t content where r: "r = (t, content)" by (cases r)
  obtain final rest where inb:
    "inbound c = frame (request_id c) t content @ wire (request_id c) records @
       frame (request_id c) EndRequest final @ rest"
    and ok: "length final = 8" "final ! 4 = char_of (0::nat)" "length content < 65536"
      "list_all (\<lambda>(t, content). (t = Stdout \<or> t = Stderr) \<and> length content < 65536) records"
      "t = Stdout \<or> t = Stderr"
    using Cons.prems by (auto simp: serves_def r)
  define c1 where "c1 = c\<lparr>inbound := wire (request_id c) records @ frame (request_id c) EndRequest final @ rest\<rparr>"
  have read: "read_record c = (Inr (t, content), c1)"
    using read_record_frame [OF inb ok(3)] by (simp add: c1_def)
  have c1: "serves c1 records" "serves (keep_stderr content c1) records"
    "pending_body c1 = pending_body c" "finished c1 = finished c"
    using ok by (auto simp: serves_def c1_def)
  show ?case
  proof (cases "t = Stdout")
    case True
    then have "read_stream_record Stdout c = (Inr (Some content), c1)"
      using read by (simp add: read_stream_record_other)
    then show ?thesis
      using c1 True by (simp add: next_output_def r) (intro exI [of _ records], simp)
  next
    case False
    with ok(5) have stderr: "t = Stderr" by simp
    then have "read_stream_record Stdout c = read_stream_record Stdout (keep_stderr content c1)"
      using read by (simp add: read_stream_record_Stderr)
    then show ?thesis
      using next_output_skip [OF Cons.IH [OF c1(2)], of "r # records" c] c1(3,4) stderr by (simp add: r)
  qed
qed

lemma read_body_serves:
  "serves c records \<Longrightarrow> next_output records c (read_body_loop c) \<and>
    (case read_body_loop c of (Inr None, c') \<Rightarrow> finished c' | _ \<Rightarrow> True)"
proof (induction "length records" arbitrary: records c rule: less_induct)
  case less
  obtain result c' where read: "read_stream_record Stdout c = (result, c')"
    by (cases "read_stream_record Stdout c")
  note step = read_stream_serves [OF less.prems, unfolded read next_output_def]
  show ?case
  proof (cases "result = Inr (Some [])")
    case True
    then have loop: "read_body_loop c = read_body_loop c'"
      using read by (subst read_body_loop.simps) simp
    from step True obtain records' where "serves c' records'" "stdout_of records = stdout_of records'"
      "length records' < length records" "pending_body c' = pending_body c" "finished c' = finished c"
      by (simp only: prod.case sum.case option.case append_Nil) blast
    then show ?thesis
      using less.hyps [of records' c'] next_output_skip [of records' c' "read_body_loop c'" records c]
      by (simp add: loop)
  next
    case False
    then have "read_body_loop c = (if result = Inr None then (result, c'\<lparr>finished := True\<rparr>) else (result, c'))"
      using read by (subst read_body_loop.simps) (auto split: sum.splits option.splits)
    then show ?thesis
      using step by (cases result) (simp_all add: next_output_def split: option.splits)
  qed
qed

lemma delivers_serves:
  "serves c records \<Longrightarrow> pending_body c = [] \<Longrightarrow> \<not> finished c \<Longrightarrow>
    \<exists>c'. delivers c (stdout_of records) c' \<and> finished c'"
proof (induction "length records" arbitrary: records c rule: less_induct)
  case less
  obtain result c' where read: "read_body_loop c = (result, c')"
    by (cases "read_body_loop c")
  then have chunk: "read_body_chunk c = (result, c')"
    using less.prems by (simp add: read_body_chunk_def)
  note step = read_body_serves [OF less.prems(1), unfolded read next_output_def]
  show ?case
  proof (cases result)
    case (Inl e)
    then show ?thesis using step by simp
  next
    case (Inr r)
    show ?thesis
    proof (cases r)
      case None
      then show ?thesis
        using step Inr chunk by (auto intro: delivers_end)
    next
      case (Some content)
      with step Inr obtain records' where "serves c' records'"
        "stdout_of records = content @ stdout_of records'" "length records' < length records"
        "pending_body c' = []" "\<not> finished c'"
        using less.prems by auto
      then show ?thesis
        using less.hyps [of records' c'] chunk Inr Some by (auto intro: delivers_chunk)
    qed
  qed
qed

lemma length_header_terminator [simp]: "length header_terminator = 4"
  by (simp add: header_terminator_def)

lemma find_terminator_Some_iff:
  "find_terminator bs = Some i \<longleftrightarrow>
     i + 4 \<le> length bs \<and> take 4 (drop i bs) = header_terminator \<and>
     (\<forall>j<i. take 4 (drop j bs) \<noteq> header_terminator)"
proof -
  define ws where "ws = zip [0..<length bs + 1] (windows 4 bs)"
  have len: "length ws = length bs + 1 - 4"
    by (simp add: ws_def length_windows)
  have nth: "ws ! j = (j, take 4 (drop j bs))" if "j + 4 \<le> length bs" for j
    using that by (simp add: ws_def length_windows nth_windows del: upt_Suc)
  have "find_terminator bs = Some i \<longleftrightarrow>
      (\<exists>w. find (\<lambda>(i, window). window = header_terminator) ws = Some (i, w))"
    unfolding find_terminator_def length_header_terminator ws_def by (auto split: option.splits)
  also have "\<dots> \<longleftrightarrow> i + 4 \<le> length bs \<and> take 4 (drop i bs) = header_terminator \<and>
     (\<forall>j<i. take 4 (drop j bs) \<noteq> header_terminator)"
  proof (intro iffI; (elim exE conjE)?)
    fix w
    assume "find (\<lambda>(i, window). window = header_terminator) ws = Some (i, w)"
    then obtain k where k: "k < length bs + 1 - 4" "snd (ws ! k) = header_terminator" "(i, w) = ws ! k"
      "\<forall>j<k. snd (ws ! j) \<noteq> header_terminator"
      unfolding find_Some_iff len case_prod_beta by blast
    then have i: "k = i" using nth [of k] by simp
    have "\<forall>j<i. take 4 (drop j bs) \<noteq> header_terminator"
      using k(1,4) nth unfolding i by fastforce
    with k nth i show "i + 4 \<le> length bs \<and> take 4 (drop i bs) = header_terminator \<and>
        (\<forall>j<i. take 4 (drop j bs) \<noteq> header_terminator)"
      by simp
  next
    assume "i + 4 \<le> length bs" "take 4 (drop i bs) = header_terminator"
      "\<forall>j<i. take 4 (drop j bs) \<noteq> header_terminator"
    then show "\<exists>w. find (\<lambda>(i, window). window = header_terminator) ws = Some (i, w)"
      unfolding find_Some_iff len by (intro exI [of _ "take 4 (drop i bs)"] exI [of _ i]) (simp add: nth)
  qed

  finally show ?thesis .
qed

lemma find_terminator_append:
  assumes "find_terminator (xs @ ys) = Some i"
  shows "find_terminator xs = (if i + 4 \<le> length xs then Some i else None)"
proof (cases "find_terminator xs")
  case None
  have "\<not> i + 4 \<le> length xs"
  proof
    assume "i + 4 \<le> length xs"
    with assms have "find_terminator xs = Some i"
      by (auto simp: find_terminator_Some_iff)
    with None show False by simp
  qed
  with None show ?thesis by simp
next
  case (Some k)
  then have "find_terminator (xs @ ys) = Some k"
    by (auto simp: find_terminator_Some_iff)
  with assms Some show ?thesis
    by (auto simp: find_terminator_Some_iff)
qed

lemma read_header_serves:
  assumes "serves c records" and "find_terminator (bs @ stdout_of records) = Some i"
    and "i + 4 \<le> max_header_bytes" and "parse_cgi_header (take (i + 4) (bs @ stdout_of records)) = Inr parsed"
    and "\<not> finished c"
  shows "\<exists>c' records'. read_header_loop bs c = (Inr (parsed\<lparr>first_body := pending_body c'\<rparr>), c') \<and>
    serves c' records' \<and> pending_body c' @ stdout_of records' = drop (i + 4) (bs @ stdout_of records) \<and>
    response_status c' = Some (status parsed) \<and> \<not> finished c'"
  using assms
proof (induction "length records" arbitrary: records bs c rule: less_induct)
  case less
  show ?case
  proof (cases "i + 4 \<le> length bs")
    case True
    then have "find_terminator bs = Some i"
      using find_terminator_append [OF less.prems(2)] by simp
    then have "read_header_loop bs c =
        (Inr (parsed\<lparr>first_body := drop (i + 4) bs\<rparr>),
         c\<lparr>pending_body := drop (i + 4) bs, response_status := Some (status parsed)\<rparr>)"
      using less.prems(4) True by (subst read_header_loop.simps) (simp add: Let_def)
    then show ?thesis
      using less.prems True
      by (intro exI [of _ "c\<lparr>pending_body := drop (i + 4) bs, response_status := Some (status parsed)\<rparr>"]
          exI [of _ records]) (simp add: serves_def)
  next
    case False
    then have none: "find_terminator bs = None" and short: "length bs < max_header_bytes"
      using find_terminator_append [OF less.prems(2)] less.prems(3) by simp_all
    obtain result c' where read: "read_stream_record Stdout c = (result, c')"
      by (cases "read_stream_record Stdout c")
    note step = read_stream_serves [OF less.prems(1), unfolded read next_output_def]
    have "stdout_of records \<noteq> []"
      using less.prems(2) none by auto
    with step obtain content where result: "result = Inr (Some content)"
      by (cases result) (auto split: option.splits)
    with step obtain records' where after: "serves c' records'" "stdout_of records = content @ stdout_of records'"
      "length records' < length records" "finished c' = finished c"
      by (simp only: prod.case sum.case option.case) blast
    then have "read_header_loop bs c = read_header_loop (bs @ content) c'"
      using none short read result by (subst read_header_loop.simps) simp
    then show ?thesis
      using less.hyps [OF after(3) after(1), of "bs @ content"] less.prems after(2,4) by simp
  qed
qed

lemma delivers_pending:
  assumes "serves c records" and "\<not> finished c"
  shows "\<exists>c'. delivers c (pending_body c @ stdout_of records) c' \<and> finished c'"
proof (cases "pending_body c = []")
  case True
  then show ?thesis using delivers_serves [OF assms(1)] assms(2) by simp
next
  case False
  let ?c = "c\<lparr>pending_body := []\<rparr>"
  have "read_body_chunk c = (Inr (Some (pending_body c)), ?c)"
    using False assms(2) by (simp add: read_body_chunk_def)
  moreover have "serves ?c records" using assms(1) by (simp add: serves_def)
  ultimately show ?thesis
    using delivers_serves [of ?c records] assms(2) by (auto intro: delivers_chunk)
qed

text \<open>
  C4: The response a client reads does not depend on how the responder cut it into records. Whatever
  the sizes of the output records, empty ones included, and wherever diagnostics are interleaved, if
  the output starts with a header block within the limit that parses, reading the header succeeds
  with it, and reading chunks until the end then terminates and yields exactly the bytes that follow
  the block's blank line: none lost, none repeated.
\<close>

theorem response_arrives_whole:
  assumes "serves c records" and "\<not> finished c"
    and "find_terminator (stdout_of records) = Some i" and "i + 4 \<le> max_header_bytes"
    and "parse_cgi_header (take (i + 4) (stdout_of records)) = Inr parsed"
  shows "\<exists>c1 c2. read_response_header c = (Inr (parsed\<lparr>first_body := pending_body c1\<rparr>), c1) \<and>
    client_response_status c1 = Some (status parsed) \<and>
    delivers c1 (drop (i + 4) (stdout_of records)) c2 \<and> finished c2"
proof -
  obtain c1 records' where "read_response_header c = (Inr (parsed\<lparr>first_body := pending_body c1\<rparr>), c1)"
    "serves c1 records'" "pending_body c1 @ stdout_of records' = drop (i + 4) (stdout_of records)"
    "response_status c1 = Some (status parsed)" "\<not> finished c1"
    using read_header_serves [OF assms(1), of "[]" i parsed] assms by (auto simp: read_response_header_def)
  then show ?thesis
    using delivers_pending [of c1 records'] by (auto simp: client_response_status_def)
qed

theorem response_arrives_whole_witness:
  "\<exists>c1 c2. read_response_header
      (client_new (wire 1 [(Stdout, [CHR ''A'', CHR '':'', CHR ''b'', CHR 0x0D]), (Stderr, ''warn''),
          (Stdout, [CHR 0x0A, CHR 0x0D, CHR 0x0A, CHR ''x'']), (Stdout, []), (Stdout, ''yz'')] @
        frame 1 EndRequest (replicate 8 (char_of (0::nat)))) Io [] 1 True) =
      (Inr \<lparr>status = 200, reason = None, headers = [(''A'', ''b'')], first_body = pending_body c1\<rparr>, c1) \<and>
    delivers c1 ''xyz'' c2"
proof -
  let ?records = "[(Stdout, [CHR ''A'', CHR '':'', CHR ''b'', CHR 0x0D]), (Stderr, ''warn''),
    (Stdout, [CHR 0x0A, CHR 0x0D, CHR 0x0A, CHR ''x'']), (Stdout, []), (Stdout, ''yz'')]"
  let ?c = "client_new (wire 1 ?records @ frame 1 EndRequest (replicate 8 (char_of (0::nat)))) Io [] 1 True"
  have "serves ?c ?records"
    unfolding serves_def
    by (intro conjI exI [of _ "replicate 8 (char_of (0::nat))"] exI [of _ "[]"]) (simp_all add: client_new_def)
  moreover have "\<not> finished ?c"
    by (simp add: client_new_def)
  moreover have "find_terminator (stdout_of ?records) = Some 3"
    by code_simp
  moreover have "3 + 4 \<le> max_header_bytes"
    by (simp add: max_header_bytes_def)
  moreover have "parse_cgi_header (take (3 + 4) (stdout_of ?records)) =
      Inr \<lparr>status = 200, reason = None, headers = [(''A'', ''b'')], first_body = []\<rparr>"
    by code_simp
  ultimately show ?thesis
    using response_arrives_whole [of ?c ?records 3] by fastforce
qed

section \<open>Diagnostics are bounded\<close>

definition stderr_bounded :: "client \<Rightarrow> bool" where
  "stderr_bounded c \<longleftrightarrow>
     length (stderr c) \<le> max_stderr_bytes \<and> (\<not> capture_stderr c \<longrightarrow> stderr c = [])"

lemma read_record_stderr:
  assumes "read_record c = (r, c')"
  shows "stderr c' = stderr c" "capture_stderr c' = capture_stderr c"
  using assms
  by (auto simp: read_record_def read_exact_def Let_def split: if_splits option.splits)

lemma stderr_bounded_keep: "stderr_bounded c \<Longrightarrow> stderr_bounded (keep_stderr content c)"
  by (auto simp: stderr_bounded_def keep_stderr_def)

lemma stderr_bounded_read_record: "read_record c = (r, c') \<Longrightarrow> stderr_bounded c' = stderr_bounded c"
  by (simp add: stderr_bounded_def read_record_stderr)

lemma stderr_bounded_read_stream:
  "read_stream_record expected c = (r, c') \<Longrightarrow> stderr_bounded c \<Longrightarrow> stderr_bounded c'"
proof (induction c r c' rule: read_stream_record_induct)
  case (failed c e c1)
  then show ?case by (simp add: stderr_bounded_read_record)
next
  case (stderr c content c1 r c')
  then show ?case by (simp add: stderr_bounded_read_record stderr_bounded_keep)
next
  case (other c t content c1 r)
  then show ?case using stderr_bounded_read_record by blast
qed

lemma stderr_bounded_read_header:
  "stderr_bounded c \<Longrightarrow> stderr_bounded (snd (read_header_loop bs c))"
proof (induction bs c rule: read_header_loop.induct)
  case (1 bs c)
  obtain r c' where read: "read_stream_record Stdout c = (r, c')"
    by (cases "read_stream_record Stdout c")
  have c': "stderr_bounded c'"
    using stderr_bounded_read_stream [OF read "1.prems"] .
  show ?case
    using "1.IH" [OF _ _ read [symmetric]] c' "1.prems"
    by (subst read_header_loop.simps)
      (auto simp: read Let_def stderr_bounded_def split: option.splits sum.splits)
qed

lemma stderr_bounded_read_body_loop: "stderr_bounded c \<Longrightarrow> stderr_bounded (snd (read_body_loop c))"
proof (induction c rule: read_body_loop.induct)
  case (1 c)
  obtain r c' where read: "read_stream_record Stdout c = (r, c')"
    by (cases "read_stream_record Stdout c")
  have c': "stderr_bounded c'"
    using stderr_bounded_read_stream [OF read "1.prems"] .
  show ?case
    using "1.IH" [OF read [symmetric]] c'
    by (subst read_body_loop.simps)
      (auto simp: read stderr_bounded_def split: option.splits sum.splits)
qed

text \<open>
  However much a responder writes to its diagnostics stream, the client keeps at most
  \<open>MAX_STDERR_BYTES\<close> of it, and nothing at all when capture is off. A new client starts within the
  bound, and reading the header, reading a body chunk (failing or not) and taking what was collected
  keep it.
\<close>

theorem stderr_never_grows_past_its_cap:
  assumes "stderr_bounded c"
  shows "stderr_bounded (client_new input input_end outcomes rid capture) \<and>
    stderr_bounded (snd (read_response_header c)) \<and> stderr_bounded (snd (read_body_chunk c)) \<and>
    stderr_bounded (snd (take_stderr c)) \<and> length (fst (take_stderr c)) \<le> max_stderr_bytes"
proof (intro conjI)
  show "stderr_bounded (snd (read_body_chunk c))"
    using assms stderr_bounded_read_body_loop [OF assms]
    by (simp add: read_body_chunk_def) (simp add: stderr_bounded_def)
qed (use assms in \<open>simp_all add: read_response_header_def stderr_bounded_read_header,
  simp_all add: stderr_bounded_def client_new_def take_stderr_def\<close>)

theorem stderr_never_grows_past_its_cap_witness:
  "stderr_bounded (client_new (frame 1 Stderr ''warn'') Io [] 1 True) \<and>
   stderr_bounded (snd (read_body_chunk (client_new (frame 1 Stderr ''warn'') Io [] 1 True)))"
proof -
  have "stderr_bounded (client_new (frame 1 Stderr ''warn'') Io [] 1 True)"
    by (simp add: stderr_bounded_def client_new_def)
  with stderr_never_grows_past_its_cap [OF this] show ?thesis by simp
qed

end
