(* ===== verification/Byte_Source.thy ===== *)
theory Byte_Source
  imports Prelude
begin

text \<open>
  The \<open>?\<close> operator on results, and the contract of a reader that hands out bytes one at a time: when
  it answers, it answers the first byte of what it still holds. The two parsers that read their
  input this way (the ClientHello cursor and the PROXY protocol stream) read big-endian numbers
  through it, and rely on the same facts.
\<close>

section \<open>Early return\<close>

definition try_bind :: "'e + 'a \<Rightarrow> ('a \<Rightarrow> 'e + 'b) \<Rightarrow> 'e + 'b" where
  "try_bind r f = (case r of Inl e \<Rightarrow> Inl e | Inr x \<Rightarrow> f x)"

lemma try_bind_simps [simp]: "try_bind (Inl e) f = Inl e" "try_bind (Inr x) f = f x"
  by (simp_all add: try_bind_def)

lemma try_bind_cong [fundef_cong]:
  "r = r' \<Longrightarrow> (\<And>x. r' = Inr x \<Longrightarrow> f x = g x) \<Longrightarrow> try_bind r f = try_bind r' g"
  by (cases r') simp_all

lemma try_bind_Inr_iff: "try_bind r f = Inr y \<longleftrightarrow> (\<exists>x. r = Inr x \<and> f x = Inr y)"
  by (cases r) simp_all

lemma try_bind_Inl_iff: "try_bind r f = Inl e \<longleftrightarrow> r = Inl e \<or> (\<exists>x. r = Inr x \<and> f x = Inl e)"
  by (cases r) simp_all

lemma try_bind_assoc: "try_bind (try_bind r f) g = try_bind r (\<lambda>x. try_bind (f x) g)"
  by (cases r) simp_all

definition usize_max :: nat where
  "usize_max = 2 ^ 64 - 1"

section \<open>Readers\<close>

locale byte_source =
  fixes next_byte :: "'s \<Rightarrow> 'e + (byte \<times> 's)"
    and held :: "'s \<Rightarrow> bytes"
    and ready :: "'s \<Rightarrow> bool"
    and exhausted :: 'e
  assumes next_byte_Cons: "ready s \<Longrightarrow> held s = b # bs \<Longrightarrow>
      \<exists>s'. next_byte s = Inr (b, s') \<and> ready s' \<and> held s' = bs"
    and next_byte_Nil: "ready s \<Longrightarrow> held s = [] \<Longrightarrow> next_byte s = Inl exhausted"
begin

lemma next_byte_Inr:
  assumes "ready s" and "next_byte s = Inr (b, s')"
  shows "held s = b # held s' \<and> ready s'"
proof (cases "held s")
  case Nil
  then show ?thesis using next_byte_Nil [of s] assms by auto
next
  case (Cons b' bs)
  then show ?thesis using next_byte_Cons [of s b' bs] assms by auto
qed

text \<open>A big-endian 16-bit number, as \<open>from_be_bytes\<close> over two reads or \<open>read_u16\<close> gives it.\<close>

lemma two_bytes_Cons:
  assumes "ready s" and "held s = a # b # bs"
  shows "\<exists>s'. try_bind (next_byte s) (\<lambda>(a, s). try_bind (next_byte s) (\<lambda>(b, s). Inr (from_be16 a b, s))) =
    Inr (from_be16 a b, s') \<and> ready s' \<and> held s' = bs"
proof -
  obtain s1 where s1: "next_byte s = Inr (a, s1)" "ready s1" "held s1 = b # bs"
    using next_byte_Cons [OF assms] by auto
  then obtain s2 where "next_byte s1 = Inr (b, s2)" "ready s2" "held s2 = bs"
    using next_byte_Cons by blast
  with s1 show ?thesis by simp
qed

lemma two_bytes_short:
  assumes "ready s" and "length (held s) < 2"
  shows "try_bind (next_byte s) (\<lambda>(a, s). try_bind (next_byte s) (\<lambda>(b, s). Inr (from_be16 a b, s))) =
    Inl exhausted"
proof (cases "held s")
  case Nil
  then show ?thesis using next_byte_Nil [OF assms(1)] by auto
next
  case (Cons a bs)
  then obtain s1 where s1: "next_byte s = Inr (a, s1)" "ready s1" "held s1 = bs"
    using next_byte_Cons [OF assms(1)] by auto
  have "bs = []" using assms(2) Cons by simp
  then show ?thesis using next_byte_Nil [OF s1(2)] s1 by auto
qed

end

end
