(* ===== verification/Client_Hello.thy ===== *)
theory Client_Hello
  imports Byte_Source
begin

text \<open>
  TLS ClientHello classification for layer-4 routing (\<open>pingclair-l4/src/hello.rs\<close>): a cursor that
  reads a handshake message in place across TLS records, and the parser over it. A panic (an index
  out of range, or an underflow under overflow checks) is an error value of its own, so that its
  absence is part of what is proved.
\<close>

section \<open>The cursor\<close>

datatype parse_error = More nat | Declined | Panic

record cursor =
  wire :: bytes
  pos :: nat
  stop :: nat
  left :: nat

function cursor_record :: "cursor \<Rightarrow> parse_error + cursor" where
  "cursor_record c =
     (if pos c \<noteq> stop c then Inr c
      else
        (let header_end = pos c + 5
         in if usize_max < header_end then Inl Declined
            else if length (wire c) < header_end then Inl (More header_end)
            else
              (let header = take 5 (drop (pos c) (wire c));
                   stop' = header_end + from_be16 (header ! 3) (header ! 4)
               in if byte_val (header ! 0) \<noteq> 22 \<or> byte_val (header ! 1) \<noteq> 3 then Inl Declined
                  else if length (wire c) < stop' then Inl (More stop')
                  else cursor_record (c\<lparr>stop := stop', pos := header_end\<rparr>))))"
  by pat_completeness auto
termination
  by (relation "measure (\<lambda>c. length (wire c) - pos c)") auto

declare cursor_record.simps [simp del]

definition cursor_byte :: "cursor \<Rightarrow> parse_error + (byte \<times> cursor)" where
  "cursor_byte c =
     (if left c = 0 then Inl Declined
      else
        try_bind (cursor_record c) (\<lambda>c.
          if pos c < length (wire c)
          then Inr (wire c ! pos c, c\<lparr>pos := pos c + 1, left := left c - 1\<rparr>)
          else Inl Panic))"

definition cursor_word :: "cursor \<Rightarrow> parse_error + (nat \<times> cursor)" where
  "cursor_word c =
     try_bind (cursor_byte c) (\<lambda>(a, c). try_bind (cursor_byte c) (\<lambda>(b, c). Inr (from_be16 a b, c)))"

lemma cursor_record_not_at_end: "cursor_record c = Inr c' \<Longrightarrow> pos c' \<noteq> stop c'"
proof (induction c rule: cursor_record.induct)
  case (1 c)
  then show ?case
    by (subst (asm) cursor_record.simps) (auto simp: Let_def split: if_splits)
qed

function take_loop :: "nat \<Rightarrow> cursor \<Rightarrow> parse_error + cursor" where
  "take_loop remaining c =
     (if remaining = 0 then Inr c
      else
        try_bind (cursor_record c) (\<lambda>c.
          if stop c < pos c then Inl Panic
          else
            (let amount = min remaining (stop c - pos c)
             in take_loop (remaining - amount) (c\<lparr>pos := pos c + amount, left := left c - amount\<rparr>))))"
  by pat_completeness auto
termination
  by (relation "measure fst") (auto dest!: cursor_record_not_at_end)

declare take_loop.simps [simp del]

definition cursor_take :: "nat \<Rightarrow> cursor \<Rightarrow> parse_error + (cursor \<times> cursor)" where
  "cursor_take n c =
     (if left c < n then Inl Declined
      else try_bind (take_loop n c) (\<lambda>c'. Inr (c\<lparr>left := n\<rparr>, c')))"

fun equals_loop :: "bytes \<Rightarrow> bool \<Rightarrow> cursor \<Rightarrow> bool" where
  "equals_loop [] insensitive c = True"
| "equals_loop (expected # bs) insensitive c =
     (case cursor_byte c of
        Inl e \<Rightarrow> False
      | Inr (actual, c) \<Rightarrow>
          (if insensitive then eq_ignore_case actual expected else actual = expected) \<and>
          equals_loop bs insensitive c)"

definition equals :: "cursor \<Rightarrow> bytes \<Rightarrow> bool \<Rightarrow> bool" where
  "equals c bs insensitive \<longleftrightarrow> left c = length bs \<and> equals_loop bs insensitive c"

section \<open>What a cursor leaves\<close>

lemma cursor_record_frame:
  "cursor_record c = Inr c' \<Longrightarrow> left c' = left c \<and> wire c' = wire c"
proof (induction c rule: cursor_record.induct)
  case (1 c)
  then show ?case
    by (subst (asm) (2) cursor_record.simps) (auto simp: Let_def split: if_splits)
qed

lemma cursor_byte_left: "cursor_byte c = Inr (b, c') \<Longrightarrow> left c' < left c"
  by (auto simp: cursor_byte_def try_bind_Inr_iff dest!: cursor_record_frame split: if_splits)

lemma cursor_word_left: "cursor_word c = Inr (n, c') \<Longrightarrow> left c' < left c"
  by (auto simp: cursor_word_def try_bind_Inr_iff dest!: cursor_byte_left)

lemma take_loop_left: "take_loop n c = Inr c' \<Longrightarrow> left c' \<le> left c"
proof (induction n c rule: take_loop.induct)
  case (1 n c)
  then show ?case
    by (subst (asm) (2) take_loop.simps)
      (force simp: try_bind_Inr_iff Let_def dest: cursor_record_frame split: if_splits)
qed

lemma cursor_take_left: "cursor_take n c = Inr (field, c') \<Longrightarrow> left c' \<le> left c"
  by (auto simp: cursor_take_def try_bind_Inr_iff dest!: take_loop_left split: if_splits)

section \<open>The hello\<close>

record client_hello =
  sni :: "cursor option"
  alpn :: "cursor option"

definition matches_sni :: "client_hello \<Rightarrow> bytes \<Rightarrow> bool" where
  "matches_sni hello name = (case sni hello of None \<Rightarrow> False | Some c \<Rightarrow> equals c name True)"

function offers_loop :: "bytes \<Rightarrow> cursor \<Rightarrow> bool" where
  "offers_loop protocol protocols =
     (if left protocols = 0 then False
      else
        (case cursor_byte protocols of
           Inl e \<Rightarrow> False
         | Inr (n, protocols) \<Rightarrow>
             (case cursor_take (byte_val n) protocols of
                Inl e \<Rightarrow> False
              | Inr (field, protocols) \<Rightarrow>
                  if equals field protocol False then True else offers_loop protocol protocols)))"
  by pat_completeness auto
termination
  by (relation "measure (\<lambda>(protocol, c). left c)")
    (auto dest!: cursor_byte_left cursor_take_left)

declare offers_loop.simps [simp del]

definition offers_alpn :: "client_hello \<Rightarrow> bytes \<Rightarrow> bool" where
  "offers_alpn hello protocol =
     (case alpn hello of None \<Rightarrow> False | Some protocols \<Rightarrow> offers_loop protocol protocols)"

definition parse_sni :: "cursor \<Rightarrow> parse_error + cursor" where
  "parse_sni extension =
     try_bind (cursor_word extension) (\<lambda>(n, extension).
     if n = 0 \<or> n \<noteq> left extension then Inl Declined else
     try_bind (cursor_byte extension) (\<lambda>(kind, extension).
     if byte_val kind \<noteq> 0 then Inl Declined else
     try_bind (cursor_word extension) (\<lambda>(name, extension).
     if name = 0 \<or> name \<noteq> left extension then Inl Declined else
     try_bind (cursor_take name extension) (\<lambda>(field, _). Inr field))))"

function alpn_loop :: "cursor \<Rightarrow> parse_error + unit" where
  "alpn_loop extension =
     (if left extension = 0 then Inr ()
      else
        try_bind (cursor_byte extension) (\<lambda>(n, extension).
        if byte_val n = 0 then Inl Declined else
        try_bind (cursor_take (byte_val n) extension) (\<lambda>(_, extension). alpn_loop extension)))"
  by pat_completeness auto
termination
  by (relation "measure left") (auto dest!: cursor_byte_left cursor_take_left)

declare alpn_loop.simps [simp del]

definition parse_alpn :: "cursor \<Rightarrow> parse_error + cursor" where
  "parse_alpn extension =
     try_bind (cursor_word extension) (\<lambda>(n, extension).
     if n = 0 \<or> n \<noteq> left extension then Inl Declined else
     try_bind (alpn_loop extension) (\<lambda>_. Inr extension))"

function parse_extensions :: "bool \<Rightarrow> bool \<Rightarrow> client_hello \<Rightarrow> cursor \<Rightarrow> parse_error + client_hello" where
  "parse_extensions saw_sni saw_alpn metadata hello =
     (if left hello = 0 then Inr metadata
      else
        try_bind (cursor_word hello) (\<lambda>(kind, hello).
        try_bind (cursor_word hello) (\<lambda>(n, hello).
        try_bind (cursor_take n hello) (\<lambda>(extension, hello).
        if kind = 0 then
          (if saw_sni then Inl Declined else
           try_bind (parse_sni extension) (\<lambda>name.
             parse_extensions True saw_alpn (metadata\<lparr>sni := Some name\<rparr>) hello))
        else if kind = 16 then
          (if saw_alpn then Inl Declined else
           try_bind (parse_alpn extension) (\<lambda>protocols.
             parse_extensions saw_sni True (metadata\<lparr>alpn := Some protocols\<rparr>) hello))
        else parse_extensions saw_sni saw_alpn metadata hello))))"
  by pat_completeness auto
termination
  by (relation "measure (\<lambda>(saw_sni, saw_alpn, metadata, c). left c)")
    (auto dest!: cursor_word_left cursor_take_left)

declare parse_extensions.simps [simp del]

definition parse_body :: "cursor \<Rightarrow> parse_error + client_hello" where
  "parse_body hello =
     try_bind (cursor_take 34 hello) (\<lambda>(_, hello).
     try_bind (cursor_byte hello) (\<lambda>(session, hello).
     if 32 < byte_val session then Inl Declined else
     try_bind (cursor_take (byte_val session) hello) (\<lambda>(_, hello).
     try_bind (cursor_word hello) (\<lambda>(ciphers, hello).
     if ciphers = 0 \<or> ciphers mod 2 \<noteq> 0 then Inl Declined else
     try_bind (cursor_take ciphers hello) (\<lambda>(_, hello).
     try_bind (cursor_byte hello) (\<lambda>(compression, hello).
     if byte_val compression = 0 then Inl Declined else
     try_bind (cursor_take (byte_val compression) hello) (\<lambda>(_, hello).
     if left hello = 0 then Inr \<lparr>sni = None, alpn = None\<rparr> else
     try_bind (cursor_word hello) (\<lambda>(extensions, hello).
     if extensions \<noteq> left hello then Inl Declined else
     parse_extensions False False \<lparr>sni = None, alpn = None\<rparr> hello))))))))"

definition parse :: "bytes \<Rightarrow> parse_error + client_hello" where
  "parse input_bytes =
     try_bind (cursor_byte \<lparr>wire = input_bytes, pos = 0, stop = 0, left = usize_max\<rparr>) (\<lambda>(kind, input).
     if byte_val kind \<noteq> 1 then Inl Declined else
     try_bind (cursor_byte input) (\<lambda>(high, input).
     try_bind (cursor_word input) (\<lambda>(low, input).
     let n = byte_val high * 65536 + low
     in try_bind (cursor_take n (input\<lparr>left := n\<rparr>)) (\<lambda>(hello, _). parse_body hello))))"

datatype classification = NeedMore nat | NotTls | Tls client_hello

definition classify :: "bytes \<Rightarrow> classification option" where
  "classify input_bytes =
     (if input_bytes \<noteq> [] \<and> byte_val (hd input_bytes) \<noteq> 22 then Some NotTls
      else
        (case parse input_bytes of
           Inr hello \<Rightarrow> Some (Tls hello)
         | Inl (More n) \<Rightarrow> Some (NeedMore n)
         | Inl Declined \<Rightarrow> Some NotTls
         | Inl Panic \<Rightarrow> None))"

section \<open>The bytes a cursor stands for\<close>

text \<open>The handshake bytes from a position on: the rest of its record, then the payloads of the whole
  handshake records that follow.\<close>

function stream :: "bytes \<Rightarrow> nat \<Rightarrow> nat \<Rightarrow> bytes" where
  "stream w p s =
     take (s - p) (drop p w) @
     (if s + 5 \<le> length w \<and> byte_val (w ! s) = 22 \<and> byte_val (w ! (s + 1)) = 3 \<and>
         s + 5 + from_be16 (w ! (s + 3)) (w ! (s + 4)) \<le> length w
      then stream w (s + 5) (s + 5 + from_be16 (w ! (s + 3)) (w ! (s + 4))) else [])"
  by pat_completeness auto
termination
  by (relation "measure (\<lambda>(w, p, s). length w - s)") auto

declare stream.simps [simp del]

abbreviation rest_of :: "cursor \<Rightarrow> bytes" where
  "rest_of c \<equiv> stream (wire c) (pos c) (stop c)"

definition cursor_ok :: "cursor \<Rightarrow> bool" where
  "cursor_ok c \<longleftrightarrow> pos c \<le> stop c \<and> stop c \<le> length (wire c) \<and> length (wire c) < 2 ^ 63"

lemma stream_drop:
  assumes "p + n \<le> s" and "s \<le> length w"
  shows "drop n (stream w p s) = stream w (p + n) s"
proof -
  have "drop n (take (s - p) (drop p w)) = take (s - (p + n)) (drop (p + n) w)"
    by (simp add: drop_take add.commute)
  moreover have "n \<le> length (take (s - p) (drop p w))"
    using assms by simp
  ultimately show ?thesis
    by (subst (1 2) stream.simps) (simp add: assms)
qed

lemma stream_length: "p + n \<le> s \<Longrightarrow> s \<le> length w \<Longrightarrow> n \<le> length (stream w p s)"
  by (subst stream.simps) simp

lemma stream_Cons:
  assumes "p < s" and "s \<le> length w"
  shows "stream w p s = w ! p # stream w (p + 1) s"
proof -
  have "stream w p s \<noteq> []"
    using stream_length [of p 1 s w] assms by auto
  moreover have "hd (stream w p s) = w ! p"
    using assms by (subst stream.simps) (simp add: hd_append hd_drop_conv_nth)
  ultimately show ?thesis
    using stream_drop [of p 1 s w] assms by (cases "stream w p s") (simp_all add: drop_Suc)
qed

definition record_result :: "cursor \<Rightarrow> parse_error + cursor \<Rightarrow> bool" where
  "record_result c r =
     (case r of
        Inr c' \<Rightarrow> cursor_ok c' \<and> pos c' < stop c' \<and> rest_of c' = rest_of c
      | Inl (More n) \<Rightarrow> length (wire c) < n \<and> rest_of c = []
      | Inl Declined \<Rightarrow> rest_of c = []
      | Inl Panic \<Rightarrow> False)"

lemma cursor_record_spec: "cursor_ok c \<Longrightarrow> record_result c (cursor_record c)"
proof (induction "length (wire c) - pos c" arbitrary: c rule: less_induct)
  case less
  show ?case
  proof (cases "pos c = stop c \<and> stop c + 5 \<le> length (wire c)")
    case False
    then have "pos c = stop c \<Longrightarrow> rest_of c = []"
      by (subst stream.simps) simp
    then show ?thesis
      using False less.prems
      by (subst cursor_record.simps) (auto simp: cursor_ok_def usize_max_def Let_def record_result_def)
  next
    case True
    define n where "n = from_be16 (wire c ! (stop c + 3)) (wire c ! (stop c + 4))"
    define c1 where "c1 = c\<lparr>stop := stop c + 5 + n, pos := stop c + 5\<rparr>"
    have nth: "take 5 (drop (stop c) (wire c)) ! i = wire c ! (stop c + i)" if "i < 5" for i
      using True that by simp
    have small: "\<not> usize_max < stop c + 5"
      using True less.prems by (simp add: usize_max_def cursor_ok_def)
    let ?ok = "byte_val (wire c ! stop c) = 22 \<and> byte_val (wire c ! (stop c + 1)) = 3"
    have step: "cursor_record c =
        (if \<not> ?ok then Inl Declined
         else if length (wire c) < stop c + 5 + n then Inl (More (stop c + 5 + n))
         else cursor_record c1)"
      using True small nth [of 0] nth [of 1] nth [of 3] nth [of 4]
      by (subst cursor_record.simps) (simp add: Let_def n_def c1_def add.assoc)
    have rest: "rest_of c = (if ?ok \<and> stop c + 5 + n \<le> length (wire c) then rest_of c1 else [])"
      using True by (subst stream.simps) (simp add: n_def c1_def)
    show ?thesis
    proof (cases "?ok \<and> stop c + 5 + n \<le> length (wire c)")
      case ok: True
      then have "cursor_ok c1" using less.prems by (simp add: cursor_ok_def c1_def)
      moreover have "length (wire c1) - pos c1 < length (wire c) - pos c"
        using True unfolding c1_def by simp linarith
      ultimately have "record_result c1 (cursor_record c1)"
        using less.hyps [of c1] by simp
      moreover have "rest_of c = rest_of c1" "wire c = wire c1"
        using rest ok by (simp_all add: c1_def)
      moreover have "cursor_record c = cursor_record c1"
        using step ok by simp
      ultimately show ?thesis
        unfolding record_result_def by (simp split: sum.splits parse_error.splits)
    qed (use step rest in \<open>auto simp: record_result_def\<close>)
  qed
qed

lemma cursor_byte_spec:
  assumes "cursor_ok c" and "0 < left c"
  shows "case cursor_byte c of
      Inr (b, c') \<Rightarrow> rest_of c = b # rest_of c' \<and> cursor_ok c' \<and> left c' = left c - 1 \<and> wire c' = wire c
    | Inl (More n) \<Rightarrow> length (wire c) < n \<and> rest_of c = []
    | Inl Declined \<Rightarrow> rest_of c = []
    | Inl Panic \<Rightarrow> False"
proof (cases "cursor_record c")
  case (Inl e)
  then show ?thesis
    using cursor_record_spec [OF assms(1)] assms(2)
    by (cases e) (simp_all add: record_result_def cursor_byte_def)
next
  case (Inr c1)
  then have c1: "cursor_ok c1" "pos c1 < stop c1" "rest_of c1 = rest_of c" "left c1 = left c" "wire c1 = wire c"
    using cursor_record_spec [OF assms(1)] cursor_record_frame [OF Inr] by (simp_all add: record_result_def)
  then have "rest_of c = wire c1 ! pos c1 # stream (wire c1) (pos c1 + 1) (stop c1)"
    using stream_Cons [of "pos c1" "stop c1" "wire c1"] by (simp add: cursor_ok_def)
  moreover have "pos c1 < length (wire c1)"
    using c1(1,2) by (simp add: cursor_ok_def)
  ultimately show ?thesis
    using Inr c1 assms(2) by (simp add: cursor_byte_def cursor_ok_def)
qed

lemma take_loop_spec:
  assumes "cursor_ok c" and "n \<le> left c"
  shows "case take_loop n c of
      Inr c' \<Rightarrow> n \<le> length (rest_of c) \<and> cursor_ok c' \<and> rest_of c' = drop n (rest_of c) \<and> left c' = left c - n
    | Inl (More k) \<Rightarrow> length (wire c) < k \<and> length (rest_of c) < n
    | Inl Declined \<Rightarrow> length (rest_of c) < n
    | Inl Panic \<Rightarrow> False"
  using assms
proof (induction n arbitrary: c rule: less_induct)
  case (less n)
  show ?case
  proof (cases "n = 0")
    case True
    then show ?thesis using less.prems by (subst take_loop.simps) simp
  next
    case False
    show ?thesis
    proof (cases "cursor_record c")
      case (Inl e)
      then have "take_loop n c = Inl e"
        using False by (subst take_loop.simps) simp
      then show ?thesis
        using cursor_record_spec [OF less.prems(1)] Inl False by (cases e) (simp_all add: record_result_def)
    next
      case (Inr c1)
      then have c1: "cursor_ok c1" "pos c1 < stop c1" "rest_of c1 = rest_of c" "left c1 = left c" "wire c1 = wire c"
        using cursor_record_spec [OF less.prems(1)] cursor_record_frame [OF Inr]
        by (simp_all add: record_result_def)
      define amount where "amount = min n (stop c1 - pos c1)"
      define c2 where "c2 = c1\<lparr>pos := pos c1 + amount, left := left c1 - amount\<rparr>"
      have amount: "0 < amount" "amount \<le> n" "pos c1 + amount \<le> stop c1"
        using c1(2) False by (simp_all add: amount_def)
      have loop: "take_loop n c = take_loop (n - amount) c2"
        using False c1(2) Inr by (subst take_loop.simps) (simp add: amount_def c2_def Let_def)
      have c2: "cursor_ok c2" "left c2 = left c - amount" "wire c2 = wire c"
        using c1 amount by (simp_all add: c2_def cursor_ok_def)
      have rest: "rest_of c2 = drop amount (rest_of c)" "amount \<le> length (rest_of c)"
        using stream_drop [of "pos c1" amount "stop c1" "wire c1"] amount c1
          stream_length [of "pos c1" amount "stop c1" "wire c1"]
        by (simp_all add: c2_def cursor_ok_def)
      have "n - amount < n" using amount False by simp
      moreover have "n - amount \<le> left c2" using less.prems(2) c2(2) by simp
      ultimately have ih: "case take_loop (n - amount) c2 of
          Inr c' \<Rightarrow> n - amount \<le> length (rest_of c2) \<and> cursor_ok c' \<and>
            rest_of c' = drop (n - amount) (rest_of c2) \<and> left c' = left c2 - (n - amount)
        | Inl (More k) \<Rightarrow> length (wire c2) < k \<and> length (rest_of c2) < n - amount
        | Inl Declined \<Rightarrow> length (rest_of c2) < n - amount
        | Inl Panic \<Rightarrow> False"
        using less.IH c2(1) by blast
      have len: "length (rest_of c2) = length (rest_of c) - amount" using rest by simp
      show ?thesis
      proof (cases "take_loop (n - amount) c2")
        case (Inl e)
        then show ?thesis
          using ih len c2(3) rest(2) amount(2) by (cases e) (simp_all add: loop less_diff_iff)
      next
        case c': (Inr c')
        then have "rest_of c' = drop n (rest_of c)" "left c' = left c - n" "n \<le> length (rest_of c)"
          using ih len amount rest c2(2) less.prems(2) by (simp_all add: le_diff_iff)
        then show ?thesis
          using ih c' by (simp add: loop)
      qed
    qed
  qed
qed

section \<open>Reading a reassembled message\<close>

text \<open>The same reads over a plain list of bytes.\<close>

definition l_byte :: "bytes \<Rightarrow> (byte \<times> bytes) option" where
  "l_byte bs = (case bs of [] \<Rightarrow> None | b # bs \<Rightarrow> Some (b, bs))"

definition l_word :: "bytes \<Rightarrow> (nat \<times> bytes) option" where
  "l_word bs = (case bs of a # b # bs \<Rightarrow> Some (from_be16 a b, bs) | _ \<Rightarrow> None)"

definition l_take :: "nat \<Rightarrow> bytes \<Rightarrow> (bytes \<times> bytes) option" where
  "l_take n bs = (if n \<le> length bs then Some (take n bs, drop n bs) else None)"

definition host_name :: "bytes \<Rightarrow> bytes option" where
  "host_name bs =
     Option.bind (l_word bs) (\<lambda>(n, bs).
     if n = 0 \<or> n \<noteq> length bs then None else
     Option.bind (l_byte bs) (\<lambda>(kind, bs).
     if byte_val kind \<noteq> 0 then None else
     Option.bind (l_word bs) (\<lambda>(n, bs).
     if n = 0 \<or> n \<noteq> length bs then None else
     Option.bind (l_take n bs) (\<lambda>(name, _). Some name))))"

function protocol_names :: "bytes \<Rightarrow> bytes list option" where
  "protocol_names bs =
     (if bs = [] then Some []
      else
        Option.bind (l_byte bs) (\<lambda>(n, bs).
        if byte_val n = 0 then None else
        Option.bind (l_take (byte_val n) bs) (\<lambda>(name, bs).
        Option.bind (protocol_names bs) (\<lambda>names. Some (name # names)))))"
  by pat_completeness auto
termination
  by (relation "measure length") (auto simp: l_byte_def l_take_def split: list.splits if_splits)

declare protocol_names.simps [simp del]

definition offered_protocols :: "bytes \<Rightarrow> bytes list option" where
  "offered_protocols bs =
     Option.bind (l_word bs) (\<lambda>(n, bs). if n = 0 \<or> n \<noteq> length bs then None else protocol_names bs)"

type_synonym hello_fields = "bytes option \<times> bytes list option"

function extension_fields :: "bool \<Rightarrow> bool \<Rightarrow> hello_fields \<Rightarrow> bytes \<Rightarrow> hello_fields option" where
  "extension_fields saw_sni saw_alpn found bs =
     (if bs = [] then Some found
      else
        Option.bind (l_word bs) (\<lambda>(kind, bs).
        Option.bind (l_word bs) (\<lambda>(n, bs).
        Option.bind (l_take n bs) (\<lambda>(extension, bs).
        if kind = 0 then
          (if saw_sni then None else
           Option.bind (host_name extension) (\<lambda>name.
             extension_fields True saw_alpn (Some name, snd found) bs))
        else if kind = 16 then
          (if saw_alpn then None else
           Option.bind (offered_protocols extension) (\<lambda>names.
             extension_fields saw_sni True (fst found, Some names) bs))
        else extension_fields saw_sni saw_alpn found bs))))"
  by pat_completeness auto
termination
  by (relation "measure (\<lambda>(saw_sni, saw_alpn, found, bs). length bs)")
    (auto simp: l_word_def l_take_def split: list.splits if_splits)

declare extension_fields.simps [simp del]

definition body_fields :: "bytes \<Rightarrow> hello_fields option" where
  "body_fields bs =
     Option.bind (l_take 34 bs) (\<lambda>(_, bs).
     Option.bind (l_byte bs) (\<lambda>(session, bs).
     if 32 < byte_val session then None else
     Option.bind (l_take (byte_val session) bs) (\<lambda>(_, bs).
     Option.bind (l_word bs) (\<lambda>(ciphers, bs).
     if ciphers = 0 \<or> ciphers mod 2 \<noteq> 0 then None else
     Option.bind (l_take ciphers bs) (\<lambda>(_, bs).
     Option.bind (l_byte bs) (\<lambda>(compression, bs).
     if byte_val compression = 0 then None else
     Option.bind (l_take (byte_val compression) bs) (\<lambda>(_, bs).
     if bs = [] then Some (None, None) else
     Option.bind (l_word bs) (\<lambda>(extensions, bs).
     if extensions \<noteq> length bs then None else
     extension_fields False False (None, None) bs))))))))"

text \<open>The first handshake message of a stream, when it is a ClientHello that is all there.\<close>

definition message_fields :: "bytes \<Rightarrow> hello_fields option" where
  "message_fields bs =
     (case bs of
        kind # high # a # b # rest \<Rightarrow>
          (let n = byte_val high * 65536 + from_be16 a b
           in if byte_val kind = 1 \<and> n \<le> length rest then body_fields (take n rest) else None)
      | _ \<Rightarrow> None)"

section \<open>A cursor over bytes that are all there reads like the list\<close>

definition covers :: "cursor \<Rightarrow> bytes \<Rightarrow> bool" where
  "covers c bs \<longleftrightarrow> cursor_ok c \<and> left c \<le> length (rest_of c) \<and> take (left c) (rest_of c) = bs"

definition agrees :: "('x \<Rightarrow> 'y \<Rightarrow> bool) \<Rightarrow> parse_error + 'x \<Rightarrow> 'y option \<Rightarrow> bool" where
  "agrees R r s = (case s of None \<Rightarrow> r = Inl Declined | Some y \<Rightarrow> (\<exists>x. r = Inr x \<and> R x y))"

lemma agrees_intros [simp, intro]: "agrees R (Inl Declined) None" "R x y \<Longrightarrow> agrees R (Inr x) (Some y)"
  by (simp_all add: agrees_def)

lemma agrees_bind:
  assumes "agrees R r s" and "\<And>x y. s = Some y \<Longrightarrow> R x y \<Longrightarrow> agrees R' (f x) (g y)"
  shows "agrees R' (try_bind r f) (Option.bind s g)"
proof (cases s)
  case None
  then show ?thesis using assms(1) by (simp add: agrees_def)
next
  case (Some y)
  then obtain x where "r = Inr x" "R x y"
    using assms(1) by (auto simp: agrees_def)
  then show ?thesis using assms(2) Some by simp
qed

lemma covers_left: "covers c bs \<Longrightarrow> left c = length bs"
  by (auto simp: covers_def)

lemma covers_byte:
  "covers c bs \<Longrightarrow> agrees (rel_prod (=) covers) (cursor_byte c) (l_byte bs)"
proof (cases bs)
  case Nil
  moreover assume "covers c bs"
  ultimately show ?thesis
    by (auto simp: covers_def l_byte_def cursor_byte_def)
next
  case (Cons b bs')
  assume c: "covers c bs"
  then have ok: "cursor_ok c" "0 < left c" and rest: "rest_of c \<noteq> []"
    using Cons covers_left [OF c] by (auto simp: covers_def)
  then obtain b' c' where byte: "cursor_byte c = Inr (b', c')" "rest_of c = b' # rest_of c'" "cursor_ok c'"
    "left c' = left c - 1"
    using cursor_byte_spec [OF ok] by (auto split: sum.splits parse_error.splits)
  then have "b' = b" "covers c' bs'"
    using c Cons ok(2) by (auto simp: covers_def take_Cons' split: if_splits)
  then show ?thesis
    using byte Cons by (simp add: l_byte_def agrees_def)
qed

lemma covers_take:
  "covers c bs \<Longrightarrow> agrees (rel_prod covers covers) (cursor_take n c) (l_take n bs)"
proof (cases "n \<le> length bs")
  case False
  moreover assume "covers c bs"
  ultimately show ?thesis
    using covers_left [of c bs] by (simp add: cursor_take_def l_take_def)
next
  case True
  assume c: "covers c bs"
  then have n: "n \<le> left c" "cursor_ok c" "n \<le> length (rest_of c)"
    using True covers_left [OF c] by (auto simp: covers_def)
  then obtain c' where c': "take_loop n c = Inr c'" "cursor_ok c'" "rest_of c' = drop n (rest_of c)"
    "left c' = left c - n"
    using take_loop_spec [OF n(2,1)] by (auto split: sum.splits parse_error.splits)
  then have "covers c' (drop n bs)" "covers (c\<lparr>left := n\<rparr>) (take n bs)"
    using c n by (auto simp: covers_def drop_take cursor_ok_def)
  then show ?thesis
    using c' n True by (simp add: cursor_take_def l_take_def agrees_def)
qed

interpretation cursor_bytes: byte_source cursor_byte "\<lambda>c. take (left c) (rest_of c)"
  "\<lambda>c. covers c (take (left c) (rest_of c))" Declined
proof
  fix s :: cursor and b bs
  assume s: "covers s (take (left s) (rest_of s))" and h: "take (left s) (rest_of s) = b # bs"
  from covers_byte [OF s] h show "\<exists>s'. cursor_byte s = Inr (b, s') \<and> covers s' (take (left s') (rest_of s')) \<and>
      take (left s') (rest_of s') = bs"
    by (auto simp: l_byte_def agrees_def covers_def)
next
  fix s :: cursor
  assume s: "covers s (take (left s) (rest_of s))" and h: "take (left s) (rest_of s) = []"
  from covers_byte [OF s] h show "cursor_byte s = Inl Declined"
    by (auto simp: l_byte_def agrees_def)
qed

lemma covers_word:
  assumes "covers c bs"
  shows "agrees (rel_prod (=) covers) (cursor_word c) (l_word bs)"
proof -
  have c: "take (left c) (rest_of c) = bs" "covers c (take (left c) (rest_of c))"
    using assms by (auto simp: covers_def)
  show ?thesis
  proof (cases "length bs < 2")
    case True
    then have "cursor_word c = Inl Declined"
      using cursor_bytes.two_bytes_short [OF c(2)] c(1) by (simp add: cursor_word_def)
    moreover have "l_word bs = None"
      using True by (auto simp: l_word_def split: list.splits)
    ultimately show ?thesis by simp
  next
    case False
    then obtain a b bs' where bs: "bs = a # b # bs'"
      by (cases bs; cases "tl bs") auto
    then obtain c' where "cursor_word c = Inr (from_be16 a b, c')"
      "covers c' (take (left c') (rest_of c'))" "take (left c') (rest_of c') = bs'"
      using cursor_bytes.two_bytes_Cons [OF c(2), of a b bs'] c(1) by (auto simp: cursor_word_def)
    then show ?thesis by (auto simp: bs l_word_def agrees_def)
  qed
qed

lemma agrees_word:
  assumes "covers c bs"
    and "\<And>n c' bs'. covers c' bs' \<Longrightarrow> length bs' < length bs \<Longrightarrow> agrees R (f n c') (g n bs')"
  shows "agrees R (try_bind (cursor_word c) (\<lambda>(n, c). f n c)) (Option.bind (l_word bs) (\<lambda>(n, bs). g n bs))"
  by (rule agrees_bind [OF covers_word [OF assms(1)]])
    (auto simp: l_word_def split: list.splits intro!: assms(2))

lemma agrees_byte:
  assumes "covers c bs"
    and "\<And>n c' bs'. covers c' bs' \<Longrightarrow> length bs' < length bs \<Longrightarrow> agrees R (f n c') (g n bs')"
  shows "agrees R (try_bind (cursor_byte c) (\<lambda>(n, c). f n c)) (Option.bind (l_byte bs) (\<lambda>(n, bs). g n bs))"
  by (rule agrees_bind [OF covers_byte [OF assms(1)]])
    (auto simp: l_byte_def split: list.splits intro!: assms(2))

lemma agrees_take:
  assumes "covers c bs"
    and "\<And>field field_bs c' bs'. covers field field_bs \<Longrightarrow> covers c' bs' \<Longrightarrow> length bs' \<le> length bs \<Longrightarrow>
      agrees R (f field c') (g field_bs bs')"
  shows "agrees R (try_bind (cursor_take n c) (\<lambda>(field, c). f field c))
    (Option.bind (l_take n bs) (\<lambda>(field, bs). g field bs))"
  by (rule agrees_bind [OF covers_take [OF assms(1)]])
    (auto simp: l_take_def split: if_splits intro!: assms(2))

lemma agrees_if:
  "P = Q \<Longrightarrow> (\<not> Q \<Longrightarrow> agrees R a b) \<Longrightarrow> agrees R (if P then Inl Declined else a) (if Q then None else b)"
  by simp

lemma agrees_collect: "agrees (\<lambda>_ _. True) r s \<Longrightarrow> agrees (\<lambda>_ _. True) r (Option.bind s (\<lambda>x. Some (f x)))"
  by (cases s) (simp_all add: agrees_def)

lemmas agree_steps = agrees_word agrees_byte agrees_take agrees_if agrees_intros

lemma parse_sni_agrees: "covers c bs \<Longrightarrow> agrees covers (parse_sni c) (host_name bs)"
  unfolding parse_sni_def host_name_def
  by (intro agree_steps) (simp_all add: covers_left)

lemma alpn_loop_agrees: "covers c bs \<Longrightarrow> agrees (\<lambda>_ _. True) (alpn_loop c) (protocol_names bs)"
proof (induction "length bs" arbitrary: c bs rule: less_induct)
  case less
  have left: "left c = 0 \<longleftrightarrow> bs = []"
    using covers_left [OF less.prems] by simp
  show ?case
  proof (cases "bs = []")
    case True
    then show ?thesis
      using left by (simp add: alpn_loop.simps protocol_names.simps)
  next
    case False
    then show ?thesis
      using less left
      by (subst alpn_loop.simps, subst protocol_names.simps)
        (simp only: if_False, intro agree_steps agrees_collect, simp_all)
  qed
qed

definition offers :: "cursor \<Rightarrow> bytes list \<Rightarrow> bool" where
  "offers c names \<longleftrightarrow> (\<exists>bs. covers c bs \<and> protocol_names bs = Some names)"

lemma parse_alpn_agrees:
  assumes "covers c bs"
  shows "agrees offers (parse_alpn c) (offered_protocols bs)"
proof -
  have "agrees offers (try_bind (alpn_loop c') (\<lambda>_. Inr c')) (protocol_names bs')" if "covers c' bs'" for c' bs'
    using alpn_loop_agrees [OF that] that by (cases "protocol_names bs'") (auto simp: agrees_def offers_def)
  then show ?thesis
    unfolding parse_alpn_def offered_protocols_def using assms
    by (intro agree_steps) (simp_all add: covers_left)
qed

definition hello_holds :: "client_hello \<Rightarrow> hello_fields \<Rightarrow> bool" where
  "hello_holds h found \<longleftrightarrow> rel_option covers (sni h) (fst found) \<and> rel_option offers (alpn h) (snd found)"

lemma hello_holds_update:
  "hello_holds h found \<Longrightarrow> covers c name \<Longrightarrow> hello_holds (h\<lparr>sni := Some c\<rparr>) (Some name, snd found)"
  "hello_holds h found \<Longrightarrow> offers c names \<Longrightarrow> hello_holds (h\<lparr>alpn := Some c\<rparr>) (fst found, Some names)"
  by (simp_all add: hello_holds_def)

lemma parse_extensions_agrees:
  "covers c bs \<Longrightarrow> hello_holds h found \<Longrightarrow>
    agrees hello_holds (parse_extensions saw_sni saw_alpn h c) (extension_fields saw_sni saw_alpn found bs)"
proof (induction "length bs" arbitrary: c bs h found saw_sni saw_alpn rule: less_induct)
  case less
  have left: "left c = 0 \<longleftrightarrow> bs = []"
    using covers_left [OF less.prems(1)] by simp
  show ?case
  proof (cases "bs = []")
    case True
    then show ?thesis
      using left less.prems(2) by (simp add: parse_extensions.simps extension_fields.simps)
  next
    case False
    have step: "agrees hello_holds
        (if kind = 0 then
           if saw_sni then Inl Declined
           else try_bind (parse_sni ext) (\<lambda>name. parse_extensions True saw_alpn (h\<lparr>sni := Some name\<rparr>) c')
         else if kind = 16 then
           if saw_alpn then Inl Declined
           else try_bind (parse_alpn ext) (\<lambda>ps. parse_extensions saw_sni True (h\<lparr>alpn := Some ps\<rparr>) c')
         else parse_extensions saw_sni saw_alpn h c')
        (if kind = 0 then
           if saw_sni then None
           else Option.bind (host_name ext_bs) (\<lambda>name. extension_fields True saw_alpn (Some name, snd found) bs')
         else if kind = 16 then
           if saw_alpn then None
           else Option.bind (offered_protocols ext_bs) (\<lambda>ps. extension_fields saw_sni True (fst found, Some ps) bs')
         else extension_fields saw_sni saw_alpn found bs')"
      if "covers ext ext_bs" "covers c' bs'" "length bs' < length bs" for kind :: nat and ext ext_bs c' bs'
      using that less.prems(2)
      by (auto intro!: less.hyps agrees_bind [OF parse_sni_agrees] agrees_bind [OF parse_alpn_agrees]
          hello_holds_update)
    show ?thesis
      using False left less.prems(1)
      by (subst parse_extensions.simps, subst extension_fields.simps)
        (simp only: if_False, intro agree_steps step, simp_all)
  qed
qed

lemma parse_body_agrees: "covers c bs \<Longrightarrow> agrees hello_holds (parse_body c) (body_fields bs)"
proof -
  have last: "agrees hello_holds
      (if left c = 0 then Inr \<lparr>sni = None, alpn = None\<rparr> else
       try_bind (cursor_word c) (\<lambda>(extensions, hello).
       if extensions \<noteq> left hello then Inl Declined else
       parse_extensions False False \<lparr>sni = None, alpn = None\<rparr> hello))
      (if bs = [] then Some (None, None) else
       Option.bind (l_word bs) (\<lambda>(extensions, bs).
       if extensions \<noteq> length bs then None else
       extension_fields False False (None, None) bs))" if "covers c bs" for c bs
    using that covers_left [OF that]
    by (auto simp: hello_holds_def covers_left intro!: agree_steps parse_extensions_agrees)
  assume "covers c bs"
  then show ?thesis
    unfolding parse_body_def body_fields_def
    by (intro agree_steps last) simp_all
qed

lemma equals_loop_iff:
  "covers c bs \<Longrightarrow> length bs = length expected \<Longrightarrow>
    equals_loop expected insensitive c \<longleftrightarrow>
      list_all2 (\<lambda>actual e. if insensitive then eq_ignore_case actual e else actual = e) bs expected"
proof (induction expected arbitrary: c bs)
  case (Cons e expected)
  then obtain b bs' where bs: "bs = b # bs'" by (cases bs) auto
  then obtain c' where "cursor_byte c = Inr (b, c')" "covers c' bs'"
    using covers_byte [OF Cons.prems(1)] by (auto simp: l_byte_def agrees_def)
  then show ?case
    using Cons bs by simp
qed simp

lemma equals_iff:
  assumes "covers c bs"
  shows "equals c name True \<longleftrightarrow> eq_ignore_ascii_case bs name" "equals c name False \<longleftrightarrow> bs = name"
proof -
  note left = covers_left [OF assms]
  show "equals c name True \<longleftrightarrow> eq_ignore_ascii_case bs name"
    using equals_loop_iff [OF assms, of name True]
    by (cases "length bs = length name") (simp_all add: equals_def left eq_ignore_ascii_case_def)
  show "equals c name False \<longleftrightarrow> bs = name"
    using equals_loop_iff [OF assms, of name False]
    by (cases "length bs = length name") (auto simp: equals_def left list.rel_eq)
qed

lemma offers_loop_iff:
  "covers c bs \<Longrightarrow> protocol_names bs = Some names \<Longrightarrow> offers_loop p c \<longleftrightarrow> p \<in> set names"
proof (induction "length bs" arbitrary: c bs names rule: less_induct)
  case less
  show ?case
  proof (cases bs)
    case Nil
    then show ?thesis
      using less.prems covers_left [OF less.prems(1)] by (simp add: offers_loop.simps protocol_names.simps)
  next
    case (Cons n bs1)
    then obtain names' where n: "byte_val n \<le> length bs1" "names = take (byte_val n) bs1 # names'"
      "protocol_names (drop (byte_val n) bs1) = Some names'"
      using less.prems(2)
      by (subst (asm) protocol_names.simps) (auto simp: l_byte_def l_take_def bind_eq_Some_conv split: if_splits)
    obtain c1 where c1: "cursor_byte c = Inr (n, c1)" "covers c1 bs1"
      using covers_byte [OF less.prems(1)] Cons by (auto simp: l_byte_def agrees_def)
    then obtain field c2 where c2: "cursor_take (byte_val n) c1 = Inr (field, c2)"
      "covers field (take (byte_val n) bs1)" "covers c2 (drop (byte_val n) bs1)"
      using covers_take [OF c1(2), of "byte_val n"] n(1) by (auto simp: l_take_def agrees_def)
    have "offers_loop p c \<longleftrightarrow> equals field p False \<or> offers_loop p c2"
      using c1 c2 covers_left [OF less.prems(1)] Cons by (subst offers_loop.simps) simp
    then show ?thesis
      using less.hyps [OF _ c2(3) n(3)] Cons n(2) equals_iff(2) [OF c2(2)] by auto
  qed
qed

lemma hello_answers:
  assumes "hello_holds h found"
  shows "matches_sni h name \<longleftrightarrow> (case fst found of None \<Rightarrow> False | Some s \<Rightarrow> eq_ignore_ascii_case s name)"
    and "offers_alpn h p \<longleftrightarrow> (case snd found of None \<Rightarrow> False | Some ps \<Rightarrow> p \<in> set ps)"
  using assms
  by (auto simp: hello_holds_def matches_sni_def offers_alpn_def offers_def equals_iff offers_loop_iff
      elim!: option.rel_cases split: option.splits)

section \<open>Input that may still be short\<close>

definition outcome :: "bytes \<Rightarrow> bool \<Rightarrow> parse_error + 'x \<Rightarrow> ('x \<Rightarrow> bool) \<Rightarrow> bool" where
  "outcome w incomplete r P =
     (case r of
        Inr x \<Rightarrow> P x
      | Inl (More n) \<Rightarrow> length w < n \<and> incomplete
      | Inl Declined \<Rightarrow> incomplete
      | Inl Panic \<Rightarrow> False)"

lemma outcome_simps [simp]:
  "outcome w incomplete (Inr x) P = P x" "outcome w incomplete (Inl Declined) P = incomplete"
  by (simp_all add: outcome_def)

lemma outcome_bind:
  assumes "outcome w incomplete r P" and "\<And>x. P x \<Longrightarrow> outcome w incomplete (f x) Q"
  shows "outcome w incomplete (try_bind r f) Q"
  using assms by (cases r) (auto simp: outcome_def split: parse_error.splits)

lemma outcome_byte:
  assumes "cursor_ok c" and "0 < left c" and "wire c = w" and "rest_of c = [] \<Longrightarrow> incomplete"
  shows "outcome w incomplete (cursor_byte c)
    (\<lambda>(b, c'). rest_of c = b # rest_of c' \<and> cursor_ok c' \<and> left c' = left c - 1 \<and> wire c' = w)"
  using cursor_byte_spec [OF assms(1,2)] assms(3,4)
  by (auto simp: outcome_def split: sum.splits parse_error.splits)

lemma outcome_word:
  assumes "cursor_ok c" and "1 < left c" and "wire c = w" and "length (rest_of c) < 2 \<Longrightarrow> incomplete"
  shows "outcome w incomplete (cursor_word c)
    (\<lambda>(n, c'). \<exists>a b. n = from_be16 a b \<and> rest_of c = a # b # rest_of c' \<and> cursor_ok c' \<and> wire c' = w)"
  unfolding cursor_word_def
proof (rule outcome_bind [OF outcome_byte [OF assms(1) _ assms(3)]], goal_cases)
  case (3 p)
  then obtain a c1 where p: "p = (a, c1)" "rest_of c = a # rest_of c1" "cursor_ok c1"
    "left c1 = left c - 1" "wire c1 = w"
    by auto
  have "outcome w incomplete (try_bind (cursor_byte c1) (\<lambda>(b, c). Inr (from_be16 a b, c)))
    (\<lambda>(n, c'). \<exists>a b. n = from_be16 a b \<and> rest_of c = a # b # rest_of c' \<and> cursor_ok c' \<and> wire c' = w)"
    by (rule outcome_bind [OF outcome_byte [OF p(3) _ p(5)]]) (use assms p in auto)
  then show ?case by (simp add: p(1))
qed (use assms in auto)

lemma outcome_take:
  assumes "cursor_ok c" and "n \<le> left c" and "wire c = w" and "length (rest_of c) < n \<Longrightarrow> incomplete"
  shows "outcome w incomplete (cursor_take n c)
    (\<lambda>(field, _). n \<le> length (rest_of c) \<and> covers field (take n (rest_of c)))"
  using take_loop_spec [OF assms(1,2)] assms
  by (auto simp: outcome_def cursor_take_def covers_def cursor_ok_def try_bind_def
      split: sum.splits parse_error.splits)

lemma outcome_agrees:
  "agrees R r s \<Longrightarrow> (s = None \<Longrightarrow> incomplete) \<Longrightarrow> outcome w incomplete r (\<lambda>x. \<exists>y. s = Some y \<and> R x y)"
  by (cases s) (auto simp: agrees_def outcome_def)

lemma hello_outcome:
  assumes "s = kind # high # a # b # rest_of input" and "cursor_ok input" and "wire input = w"
    and "byte_val kind = 1" and "n = byte_val high * 65536 + from_be16 a b"
  shows "outcome w (message_fields s = None)
    (try_bind (cursor_take n (input\<lparr>left := n\<rparr>)) (\<lambda>(hello, _). parse_body hello))
    (\<lambda>h. \<exists>found. message_fields s = Some found \<and> hello_holds h found)"
proof -
  have m: "message_fields s = (if n \<le> length (rest_of input) then body_fields (take n (rest_of input)) else None)"
    using assms by (simp add: message_fields_def)
  have "outcome w (message_fields s = None) (cursor_take n (input\<lparr>left := n\<rparr>))
      (\<lambda>(field, _). n \<le> length (rest_of input) \<and> covers field (take n (rest_of input)))"
    using outcome_take [of "input\<lparr>left := n\<rparr>" n w "message_fields s = None"] assms(2,3) m
    by (simp add: cursor_ok_def)
  then show ?thesis
  proof (rule outcome_bind, clarify)
    fix field
    assume n: "n \<le> length (rest_of input)" and "covers field (take n (rest_of input))"
    then have "agrees hello_holds (parse_body field) (message_fields s)"
      using parse_body_agrees m by simp
    then show "outcome w (message_fields s = None) (parse_body field)
        (\<lambda>h. \<exists>found. message_fields s = Some found \<and> hello_holds h found)"
      by (rule outcome_agrees)
  qed
qed

lemma parse_outcome:
  assumes "length w < 2 ^ 63"
  shows "outcome w (message_fields (stream w 0 0) = None) (parse w)
    (\<lambda>h. \<exists>found. message_fields (stream w 0 0) = Some found \<and> hello_holds h found)"
proof -
  define s where "s = stream w 0 0"
  define c0 where "c0 = \<lparr>wire = w, pos = 0, stop = 0, left = usize_max\<rparr>"
  let ?short = "message_fields s = None"
  have c0: "cursor_ok c0" "wire c0 = w" "rest_of c0 = s" "left c0 = 2 ^ 64 - 1"
    using assms by (simp_all add: c0_def cursor_ok_def s_def usize_max_def)
  have short: "length s < 4 \<Longrightarrow> ?short"
    by (auto simp: message_fields_def split: list.splits)
  have "outcome w ?short (parse w) (\<lambda>h. \<exists>found. message_fields s = Some found \<and> hello_holds h found)"
    unfolding parse_def c0_def [symmetric]
  proof (rule outcome_bind [OF outcome_byte [OF c0(1) _ c0(2)]], goal_cases)
    case (3 p)
    then obtain kind c1 where p: "p = (kind, c1)" "s = kind # rest_of c1" "cursor_ok c1"
      "left c1 = 2 ^ 64 - 2" "wire c1 = w"
      using c0 by auto
    show ?case
    proof (cases "byte_val kind = 1")
      case False
      then show ?thesis using p by (auto simp: message_fields_def split: list.splits)
    next
      case True
      have "outcome w ?short
          (try_bind (cursor_byte c1) (\<lambda>(high, input).
             try_bind (cursor_word input) (\<lambda>(low, input).
             let n = byte_val high * 65536 + low
             in try_bind (cursor_take n (input\<lparr>left := n\<rparr>)) (\<lambda>(hello, _). parse_body hello))))
          (\<lambda>h. \<exists>found. message_fields s = Some found \<and> hello_holds h found)"
      proof (rule outcome_bind [OF outcome_byte [OF p(3) _ p(5)]], goal_cases)
        case (3 q)
        then obtain high c2 where q: "q = (high, c2)" "s = kind # high # rest_of c2" "cursor_ok c2"
          "left c2 = 2 ^ 64 - 3" "wire c2 = w"
          using p by auto
        have "outcome w ?short
            (try_bind (cursor_word c2) (\<lambda>(low, input).
               let n = byte_val high * 65536 + low
               in try_bind (cursor_take n (input\<lparr>left := n\<rparr>)) (\<lambda>(hello, _). parse_body hello)))
            (\<lambda>h. \<exists>found. message_fields s = Some found \<and> hello_holds h found)"
        proof (rule outcome_bind [OF outcome_word [OF q(3) _ q(5)]], goal_cases)
          case (3 r)
          then obtain a b c3 where r: "r = (from_be16 a b, c3)" "rest_of c2 = a # b # rest_of c3"
            "cursor_ok c3" "wire c3 = w"
            by auto
          show ?case
            using hello_outcome [OF _ r(3,4) True refl, of s high a b] q(2) r(1,2) by (simp add: Let_def)
        qed (use q short in auto)
        then show ?case by (simp add: q(1))
      qed (use p short in auto)
      then show ?thesis using True by (simp add: p(1))
    qed
  qed (use c0 short in auto)
  then show ?thesis by (simp add: s_def)
qed

section \<open>Classification\<close>

text \<open>
  C5: Parsing a ClientHello in place, across however many TLS records, is parsing the reassembled
  message. For any input shorter than a Rust slice can be, classification never panics. It answers a
  hello exactly when the handshake bytes received so far begin with a complete, well-formed
  ClientHello, and then the server name and protocols it matches are those of the message. When it
  asks for more input, it asks for more than it was given.
\<close>

theorem classify_reads_reassembled:
  assumes "length w < 2 ^ 63"
  shows "case classify w of
      None \<Rightarrow> False
    | Some (NeedMore n) \<Rightarrow> length w < n \<and> message_fields (stream w 0 0) = None
    | Some NotTls \<Rightarrow> message_fields (stream w 0 0) = None
    | Some (Tls h) \<Rightarrow> \<exists>name protocols. message_fields (stream w 0 0) = Some (name, protocols) \<and>
        (\<forall>n. matches_sni h n \<longleftrightarrow> (case name of None \<Rightarrow> False | Some s \<Rightarrow> eq_ignore_ascii_case s n)) \<and>
        (\<forall>p. offers_alpn h p \<longleftrightarrow> (case protocols of None \<Rightarrow> False | Some ps \<Rightarrow> p \<in> set ps))"
proof (cases "w \<noteq> [] \<and> byte_val (hd w) \<noteq> 22")
  case True
  then have "stream w 0 0 = []"
    by (subst stream.simps) (auto simp: hd_conv_nth)
  then show ?thesis
    using True by (simp add: classify_def message_fields_def)
next
  case False
  then have classify: "classify w = (case parse w of
      Inr hello \<Rightarrow> Some (Tls hello) | Inl (More n) \<Rightarrow> Some (NeedMore n)
    | Inl Declined \<Rightarrow> Some NotTls | Inl Panic \<Rightarrow> None)"
    by (auto simp: classify_def)
  show ?thesis
  proof (cases "parse w")
    case (Inl e)
    then show ?thesis
      using parse_outcome [OF assms] classify by (cases e) (simp_all add: outcome_def)
  next
    case (Inr h)
    then obtain name protocols where "message_fields (stream w 0 0) = Some (name, protocols)"
      "hello_holds h (name, protocols)"
      using parse_outcome [OF assms] by auto
    then show ?thesis
      using hello_answers [of h "(name, protocols)"] Inr classify by simp
  qed
qed

theorem classify_reads_reassembled_witness:
  "case classify [char_of (22::nat), char_of (3::nat)] of
     Some (NeedMore n) \<Rightarrow> 2 < n
   | _ \<Rightarrow> False"
proof -
  let ?w = "[char_of (22::nat), char_of (3::nat)] :: bytes"
  have "classify ?w = Some (NeedMore 5)"
    by (simp add: classify_def parse_def cursor_byte_def cursor_record.simps usize_max_def)
  then show ?thesis
    using classify_reads_reassembled [of ?w] by simp
qed

section \<open>A well-formed hello, in any records\<close>

definition tls_records :: "byte \<Rightarrow> bytes list \<Rightarrow> bytes" where
  "tls_records minor parts =
     concat (map (\<lambda>part. [char_of (22::nat), char_of (3::nat), minor] @ be16 (length part) @ part) parts)"

definition sni_extension :: "bytes \<Rightarrow> bytes" where
  "sni_extension name =
     be16 0 @ be16 (length name + 5) @ be16 (length name + 3) @ [char_of (0::nat)] @ be16 (length name) @ name"

definition prefixed :: "bytes \<Rightarrow> bytes" where
  "prefixed bs = char_of (length bs) # bs"

definition alpn_extension :: "bytes list \<Rightarrow> bytes" where
  "alpn_extension names =
     (let bs = concat (map prefixed names)
      in be16 16 @ be16 (length bs + 2) @ be16 (length bs) @ bs)"

definition hello_message :: "bytes \<Rightarrow> bytes \<Rightarrow> bytes \<Rightarrow> bytes \<Rightarrow> bytes \<Rightarrow> bytes" where
  "hello_message version_random session ciphers compression extensions =
     (let body = version_random @ prefixed session @ be16 (length ciphers) @ ciphers @ prefixed compression @
                 be16 (length extensions) @ extensions
      in [char_of (1::nat), char_of (length body div 65536)] @ be16 (length body mod 65536) @ body)"

lemma stream_tls_records:
  assumes "list_all (\<lambda>part. length part < 65536) parts"
  shows "stream (w @ tls_records minor parts) (length w) (length w) = concat parts"
  using assms
proof (induction parts arbitrary: w)
  case Nil
  then show ?case by (simp add: tls_records_def stream.simps)
next
  case (Cons part parts)
  define h where "h = [char_of (22::nat), char_of (3::nat), minor] @ be16 (length part)"
  let ?w = "w @ tls_records minor (part # parts)"
  have w: "?w = w @ h @ part @ tls_records minor parts"
    by (simp add: tls_records_def h_def)
  have len: "length h = 5" by (simp add: h_def)
  have nth: "?w ! (length w + i) = h ! i" if "i < 5" for i
    using that len by (simp add: w nth_append)
  have h: "h ! 0 = char_of (22::nat)" "h ! 1 = char_of (3::nat)" "h ! 3 = be16 (length part) ! 0"
    "h ! 4 = be16 (length part) ! 1"
    by (simp_all add: h_def)
  have "length part < 65536" using Cons.prems by simp
  then have size: "from_be16 (?w ! (length w + 3)) (?w ! (length w + 4)) = length part"
    by (simp only: nth h from_be16_be16)
  have kind: "byte_val (?w ! length w) = 22" "byte_val (?w ! (length w + 1)) = 3"
    using nth [of 0] nth [of 1] h by simp_all
  have "stream ?w (length w) (length w) =
      stream ?w (length w + 5) (length w + 5 + length part)"
    by (subst stream.simps) (simp only: size kind, simp add: w len)

  also have "\<dots> = part @ stream ?w (length w + 5 + length part) (length w + 5 + length part)"
    by (subst (1 2) stream.simps) (simp add: w len)
  also have "\<dots> = part @ concat parts"
    using Cons.IH [of "w @ h @ part"] Cons.prems by (simp add: w len add.assoc)
  finally show ?case by simp
qed

lemma l_word_be16 [simp]: "n < 65536 \<Longrightarrow> l_word (be16 n @ bs) = Some (n, bs)"
  using from_be16_be16 [of n] by (simp add: l_word_def be16_def)

lemma l_byte_Cons [simp]: "l_byte (b # bs) = Some (b, bs)"
  by (simp add: l_byte_def)

lemma l_take_append [simp]: "n = length xs \<Longrightarrow> l_take n (xs @ bs) = Some (xs, bs)"
  by (simp add: l_take_def)

lemma host_name_sni:
  assumes "name \<noteq> []" and "length name < 65000"
  shows "host_name (be16 (length name + 3) @ [char_of (0::nat)] @ be16 (length name) @ name) = Some name"
  using assms l_take_append [of "length name" name "[]"] by (simp add: host_name_def)

lemma protocol_names_prefixed:
  "list_all (\<lambda>name. 0 < length name \<and> length name < 256) names \<Longrightarrow>
    protocol_names (concat (map prefixed names)) = Some names"
proof (induction names)
  case Nil
  then show ?case by (simp add: protocol_names.simps)
next
  case (Cons name names)
  then show ?case by (subst protocol_names.simps) (simp add: prefixed_def [of name])
qed

lemma extension_fields_step:
  assumes "kind < 65536" and "length body < 65536"
  shows "extension_fields saw_sni saw_alpn found (be16 kind @ be16 (length body) @ body @ bs) =
    (if kind = 0 then
       (if saw_sni then None else
        Option.bind (host_name body) (\<lambda>name. extension_fields True saw_alpn (Some name, snd found) bs))
     else if kind = 16 then
       (if saw_alpn then None else
        Option.bind (offered_protocols body) (\<lambda>names. extension_fields saw_sni True (fst found, Some names) bs))
     else extension_fields saw_sni saw_alpn found bs)"
proof -
  have "(be16 kind @ be16 (length body) @ body @ bs = []) = False" by (simp add: be16_def)
  moreover have "l_take (length body) (body @ bs) = Some (body, bs)" by simp
  ultimately show ?thesis
    using l_word_be16 [OF assms(1), of "be16 (length body) @ body @ bs"] l_word_be16 [OF assms(2), of "body @ bs"]
    by (subst extension_fields.simps) (simp only: if_False Option.bind.simps prod.case)
qed

definition alpn_names_ok :: "bytes list \<Rightarrow> bool" where
  "alpn_names_ok names \<longleftrightarrow> names \<noteq> [] \<and>
     list_all (\<lambda>name. 0 < length name \<and> length name < 256) names \<and>
     length (concat (map prefixed names)) < 65000"

lemma offered_protocols_prefixed:
  assumes "alpn_names_ok names"
  shows "offered_protocols (be16 (length (concat (map prefixed names))) @ concat (map prefixed names)) = Some names"
proof -
  have "concat (map prefixed names) \<noteq> []"
    using assms by (cases names) (auto simp: alpn_names_ok_def prefixed_def)
  then show ?thesis
    using assms by (simp add: offered_protocols_def protocol_names_prefixed alpn_names_ok_def)
qed

lemma extension_fields_hello:
  assumes "name \<noteq> []" and "length name < 65000" and "alpn_names_ok names"
  shows "extension_fields False False (None, None) (sni_extension name @ alpn_extension names) =
    Some (Some name, Some names)"
proof -
  let ?ps = "concat (map prefixed names)"
  let ?sni = "be16 (length name + 3) @ [char_of (0::nat)] @ be16 (length name) @ name"
  let ?alpn = "be16 (length ?ps) @ ?ps"
  have len: "length ?sni = length name + 5" "length ?alpn = length ?ps + 2"
    by simp_all
  have "sni_extension name @ alpn_extension names =
      be16 0 @ be16 (length ?sni) @ ?sni @ (be16 16 @ be16 (length ?alpn) @ ?alpn @ [])"
    unfolding sni_extension_def alpn_extension_def Let_def len by simp
  moreover have "extension_fields True False (Some name, None) (be16 16 @ be16 (length ?alpn) @ ?alpn @ []) =
      Some (Some name, Some names)"
    using assms(3) offered_protocols_prefixed [OF assms(3)]
    by (subst extension_fields_step) (simp_all add: alpn_names_ok_def extension_fields.simps)
  ultimately show ?thesis
    using extension_fields_step [of 0 ?sni False False "(None, None)"] assms host_name_sni [OF assms(1,2)]
    by simp
qed

definition hello_parts_ok :: "bytes \<Rightarrow> bytes \<Rightarrow> bytes \<Rightarrow> bytes \<Rightarrow> bool" where
  "hello_parts_ok version_random session ciphers compression \<longleftrightarrow>
     length version_random = 34 \<and> length session \<le> 32 \<and>
     ciphers \<noteq> [] \<and> even (length ciphers) \<and> length ciphers < 65536 \<and>
     compression \<noteq> [] \<and> length compression < 256"

lemma body_fields_hello:
  assumes "hello_parts_ok version_random session ciphers compression"
    and "extensions \<noteq> []" and "length extensions < 65536"
  shows "body_fields (version_random @ prefixed session @ be16 (length ciphers) @ ciphers @
      prefixed compression @ be16 (length extensions) @ extensions) =
    extension_fields False False (None, None) extensions"
  using assms
  by (simp add: body_fields_def hello_parts_ok_def prefixed_def even_iff_mod_2_eq_zero)

lemma message_fields_hello:
  assumes "hello_parts_ok version_random session ciphers compression"
    and "extensions \<noteq> []" and "length extensions < 65536"
  shows "message_fields (hello_message version_random session ciphers compression extensions @ rest) =
    extension_fields False False (None, None) extensions"
proof -
  define body where "body = version_random @ prefixed session @ be16 (length ciphers) @ ciphers @
    prefixed compression @ be16 (length extensions) @ extensions"
  have "length body < 16777216"
    using assms by (simp add: body_def hello_parts_ok_def prefixed_def)
  then have high: "length body div 65536 < 256" by (simp add: less_mult_imp_div_less)
  have low: "from_be16 (be16 (length body mod 65536) ! 0) (be16 (length body mod 65536) ! 1) = length body mod 65536"
    by (rule from_be16_be16) simp
  have "hello_message version_random session ciphers compression extensions @ rest =
      char_of (1::nat) # char_of (length body div 65536) # be16 (length body mod 65536) ! 0 #
        be16 (length body mod 65536) ! 1 # body @ rest"
    unfolding hello_message_def Let_def body_def [symmetric] by (simp add: be16_def)
  then have "message_fields (hello_message version_random session ciphers compression extensions @ rest) =
      body_fields body"
    using high by (simp add: message_fields_def low [unfolded One_nat_def] Let_def)
  then show ?thesis
    using body_fields_hello [OF assms] by (simp add: body_def)
qed



end
