(* ===== verification/Proxy_Protocol.thy ===== *)
theory Proxy_Protocol
  imports Ip_Ranges Utf8 Byte_Source
begin

text \<open>
  PROXY protocol ingress (\<open>pingclair-proxy/src/proxy_protocol.rs\<close>): the v1 and v2 header parsers
  over a byte stream, the registry of trusted claims with its expiry, and the accept loop with its
  connection tasks. Networks are the \<open>ipnet\<close> crate's, as in \<open>Ip_Ranges\<close>. An \<open>Instant\<close> is a number
  of nanoseconds. What the stream, the clock and the scheduler do is left open: the loop and its
  tasks are a step relation.
\<close>

section \<open>Constants and data\<close>

definition v2_signature :: bytes where
  "v2_signature = [CHR 0x0D, CHR 0x0A, CHR 0x0D, CHR 0x0A, CHR 0x00, CHR 0x0D, CHR 0x0A] @ ''QUIT'' @ [CHR 0x0A]"

definition max_v1_header_bytes :: nat where
  "max_v1_header_bytes = 108"

definition max_v2_payload_bytes :: nat where
  "max_v2_payload_bytes = 512"

definition identity_ttl :: nat where
  "identity_ttl = 600 * 1000000000"

record socket_addr =
  addr_ip :: ip_addr
  addr_port :: nat

record proxy_protocol_identity =
  identity_client :: socket_addr
  transport_peer :: socket_addr

record tunnel_key =
  key_peer :: socket_addr
  key_listener :: socket_addr

record registry_entry =
  entry_identity :: proxy_protocol_identity
  last_seen :: nat

type_synonym registry = "tunnel_key \<rightharpoonup> registry_entry"

datatype proxy_error =
    UnexpectedEof
  | MissingSignature
  | V1TooLong
  | V1NotAscii
  | V1Fields
  | V1Source
  | V1Destination
  | V1Family
  | V1SourcePort
  | V1DestinationPort
  | V2VersionCommand
  | V2PayloadTooLong
  | V2AddressBlock
  | HeaderTimedOut
  | ClientBlocked
  | InvalidNetwork bytes

section \<open>The registry\<close>

definition retain_fresh :: "nat \<Rightarrow> registry \<Rightarrow> registry" where
  "retain_fresh now entries =
     (\<lambda>k. case entries k of
            None \<Rightarrow> None
          | Some entry \<Rightarrow> if now - last_seen entry < identity_ttl then Some entry else None)"

definition register ::
  "nat \<Rightarrow> socket_addr \<Rightarrow> socket_addr \<Rightarrow> proxy_protocol_identity \<Rightarrow> registry \<Rightarrow> registry" where
  "register now internal_peer internal_listener identity entries =
     (retain_fresh now entries)(\<lparr>key_peer = internal_peer, key_listener = internal_listener\<rparr> \<mapsto>
        \<lparr>entry_identity = identity, last_seen = now\<rparr>)"

definition unregister :: "socket_addr \<Rightarrow> socket_addr \<Rightarrow> registry \<Rightarrow> registry" where
  "unregister internal_peer internal_listener entries =
     entries(\<lparr>key_peer = internal_peer, key_listener = internal_listener\<rparr> := None)"

definition resolve ::
  "nat \<Rightarrow> socket_addr \<Rightarrow> socket_addr \<Rightarrow> registry \<Rightarrow> proxy_protocol_identity option \<times> registry" where
  "resolve now internal_peer internal_listener entries =
     (let key = \<lparr>key_peer = internal_peer, key_listener = internal_listener\<rparr>
      in case entries key of
           None \<Rightarrow> (None, retain_fresh now entries)
         | Some entry \<Rightarrow>
             (Some (entry_identity entry), retain_fresh now (entries(key \<mapsto> entry\<lparr>last_seen := now\<rparr>))))"

fun parse_networks :: "'net ipnet_api \<Rightarrow> bytes list \<Rightarrow> proxy_error + 'net list" where
  "parse_networks ipnet [] = Inr []"
| "parse_networks ipnet (rule # rules) =
     try_bind
       (case net_parse ipnet rule of
          Some network \<Rightarrow> Inr network
        | None \<Rightarrow>
            (case parse_ip_addr rule of
               Some address \<Rightarrow> Inr (net_from_addr ipnet address)
             | None \<Rightarrow> Inl (InvalidNetwork rule)))
       (\<lambda>network. try_bind (parse_networks ipnet rules) (\<lambda>networks. Inr (network # networks)))"

section \<open>The header parsers\<close>

definition read_u8 :: "bytes \<Rightarrow> proxy_error + (byte \<times> bytes)" where
  "read_u8 s = (case s of [] \<Rightarrow> Inl UnexpectedEof | b # s \<Rightarrow> Inr (b, s))"

definition read_u16 :: "bytes \<Rightarrow> proxy_error + (nat \<times> bytes)" where
  "read_u16 s = try_bind (read_u8 s) (\<lambda>(a, s). try_bind (read_u8 s) (\<lambda>(b, s). Inr (from_be16 a b, s)))"

definition read_exact :: "nat \<Rightarrow> bytes \<Rightarrow> proxy_error + (bytes \<times> bytes)" where
  "read_exact n s = (if n \<le> length s then Inr (take n s, drop n s) else Inl UnexpectedEof)"

interpretation stream_bytes: byte_source read_u8 "\<lambda>s. s" "\<lambda>_. True" UnexpectedEof
  by unfold_locales (simp_all add: read_u8_def)

definition crlf :: bytes where
  "crlf = [CHR 0x0D, CHR 0x0A]"

function read_v1_line :: "bytes \<Rightarrow> bytes \<Rightarrow> proxy_error + (bytes \<times> bytes)" where
  "read_v1_line line s =
     (if str_ends_with line crlf then Inr (line, s)
      else if max_v1_header_bytes \<le> length line then Inl V1TooLong
      else try_bind (read_u8 s) (\<lambda>(b, s). read_v1_line (line @ [b]) s))"
  by pat_completeness auto
termination
  by (relation "measure (\<lambda>(line, s). length s)") (auto simp: read_u8_def split: list.splits)

declare read_v1_line.simps [simp del]

definition split_ascii_whitespace :: "bytes \<Rightarrow> bytes list" where
  "split_ascii_whitespace s =
     filter (\<lambda>part. part \<noteq> [])
       (split_on (CHR '' '') (map (\<lambda>c. if is_ascii_whitespace c then CHR '' '' else c) s))"

fun family_matches :: "bytes \<Rightarrow> ip_addr \<Rightarrow> ip_addr \<Rightarrow> bool" where
  "family_matches family (V4 _) (V4 _) = (family = ''TCP4'')"
| "family_matches family (V6 _) (V6 _) = (family = ''TCP6'')"
| "family_matches family _ _ = False"

definition parse_v1_line :: "bytes \<Rightarrow> proxy_error + socket_addr" where
  "parse_v1_line line =
     (if \<not> utf8_valid line then Inl V1NotAscii
      else
        (let parts = split_ascii_whitespace line
         in if length parts \<noteq> 6 \<or> parts ! 0 \<noteq> ''PROXY'' then Inl V1Fields
            else
              (case parse_ip_addr (parts ! 2) of
                 None \<Rightarrow> Inl V1Source
               | Some source \<Rightarrow>
                   (case parse_ip_addr (parts ! 3) of
                      None \<Rightarrow> Inl V1Destination
                    | Some destination \<Rightarrow>
                        if \<not> family_matches (parts ! 1) source destination then Inl V1Family
                        else
                          (case parse_uint 16 (parts ! 4) of
                             None \<Rightarrow> Inl V1SourcePort
                           | Some source_port \<Rightarrow>
                               (case parse_uint 16 (parts ! 5) of
                                  None \<Rightarrow> Inl V1DestinationPort
                                | Some _ \<Rightarrow> Inr \<lparr>addr_ip = source, addr_port = source_port\<rparr>))))))"

definition read_v1_header :: "bytes \<Rightarrow> bytes \<Rightarrow> proxy_error + (socket_addr \<times> bytes)" where
  "read_v1_header line s =
     try_bind (read_v1_line line s) (\<lambda>(line, s).
     try_bind (parse_v1_line (take (length line - 2) line)) (\<lambda>client. Inr (client, s)))"

definition v2_address :: "nat \<Rightarrow> bytes \<Rightarrow> proxy_error + socket_addr" where
  "v2_address family_protocol payload =
     (if family_protocol = 0x11 \<and> 12 \<le> length payload then
        Inr \<lparr>addr_ip = V4 (of_nat (bits_of 256 (map byte_val (take 4 payload)))),
             addr_port = from_be16 (payload ! 8) (payload ! 9)\<rparr>
      else if family_protocol = 0x21 \<and> 36 \<le> length payload then
        Inr \<lparr>addr_ip = V6 (of_nat (bits_of 256 (map byte_val (take 16 payload)))),
             addr_port = from_be16 (payload ! 32) (payload ! 33)\<rparr>
      else Inl V2AddressBlock)"

definition read_v2_header :: "bytes \<Rightarrow> proxy_error + (socket_addr \<times> bytes)" where
  "read_v2_header s =
     try_bind (read_u8 s) (\<lambda>(version_command, s).
     try_bind (read_u8 s) (\<lambda>(family_protocol, s).
     try_bind (read_u16 s) (\<lambda>(payload_length, s).
     if byte_val version_command \<noteq> 0x21 then Inl V2VersionCommand
     else if max_v2_payload_bytes < payload_length then Inl V2PayloadTooLong
     else
       try_bind (read_exact payload_length s) (\<lambda>(payload, s).
       try_bind (v2_address (byte_val family_protocol) payload) (\<lambda>client. Inr (client, s))))))"

definition read_proxy_protocol_header :: "bytes \<Rightarrow> proxy_error + (socket_addr \<times> bytes)" where
  "read_proxy_protocol_header s =
     try_bind (read_exact 12 s) (\<lambda>(prefix, s).
     if prefix = v2_signature then read_v2_header s
     else if str_starts_with prefix ''PROXY '' then read_v1_header prefix s
     else Inl MissingSignature)"

section \<open>The accept loop and its tasks\<close>

text \<open>A connection task waits for its header, then for the internal connection, then tunnels.\<close>

datatype task_phase = Reading | Connecting socket_addr | Tunnelling socket_addr

record task =
  task_peer :: socket_addr
  task_phase :: task_phase

record ingress =
  available :: "nat option"
  tasks :: "task list"
  entries :: registry

definition any_contains :: "'net ipnet_api \<Rightarrow> 'net list \<Rightarrow> socket_addr \<Rightarrow> bool" where
  "any_contains ipnet networks address =
     list_ex (\<lambda>network. net_contains ipnet network (addr_ip address)) networks"

definition ingress_new :: "nat option \<Rightarrow> ingress" where
  "ingress_new max_connections = \<lparr>available = max_connections, tasks = [], entries = Map.empty\<rparr>"

definition accept_connection :: "'net ipnet_api \<Rightarrow> 'net list \<Rightarrow> socket_addr \<Rightarrow> ingress \<Rightarrow> ingress" where
  "accept_connection ipnet trusted_proxies peer s =
     (if \<not> any_contains ipnet trusted_proxies peer then s
      else
        (let spawned = s\<lparr>tasks := tasks s @ [\<lparr>task_peer = peer, task_phase = Reading\<rparr>]\<rparr>
         in case available s of
              Some permits \<Rightarrow>
                (case permits of 0 \<Rightarrow> s | Suc permits \<Rightarrow> spawned\<lparr>available := Some permits\<rparr>)
            | None \<Rightarrow> spawned))"

text \<open>The end of a task drops its permit.\<close>

definition end_task :: "task list \<Rightarrow> ingress \<Rightarrow> ingress" where
  "end_task others s = s\<lparr>tasks := others, available := map_option Suc (available s)\<rparr>"

text \<open>\<open>None\<close> is a header that did not arrive within the deadline.\<close>

definition admit_client :: "'net ipnet_api \<Rightarrow> 'net list \<Rightarrow> bytes option \<Rightarrow> proxy_error + socket_addr" where
  "admit_client ipnet blocked_clients received =
     (case received of
        None \<Rightarrow> Inl HeaderTimedOut
      | Some s \<Rightarrow>
          try_bind (read_proxy_protocol_header s) (\<lambda>(client, _).
          if any_contains ipnet blocked_clients client then Inl ClientBlocked else Inr client))"

text \<open>The attempts to connect, each with the time at which its failure is looked at. A stream is its
  local address. A task whose attempts fail, or whose stream has no local address, ends.\<close>

fun connect_internal :: "nat \<Rightarrow> (('e + 'stream) \<times> nat) list \<Rightarrow> ('e + 'stream) option" where
  "connect_internal deadline [] = None"
| "connect_internal deadline ((Inr stream, now) # attempts) = Some (Inr stream)"
| "connect_internal deadline ((Inl e, now) # attempts) =
     (if now < deadline then connect_internal deadline attempts else Some (Inl e))"

inductive ingress_step ::
  "'net ipnet_api \<Rightarrow> 'net list \<Rightarrow> 'net list \<Rightarrow> socket_addr \<Rightarrow> ingress \<Rightarrow> ingress \<Rightarrow> bool"
  for ipnet trusted_proxies blocked_clients internal_listener where
  step_accept:
    "ingress_step ipnet trusted_proxies blocked_clients internal_listener s
       (accept_connection ipnet trusted_proxies peer s)"
| step_refused:
    "tasks s = before @ \<lparr>task_peer = peer, task_phase = Reading\<rparr> # after \<Longrightarrow>
     admit_client ipnet blocked_clients received = Inl e \<Longrightarrow>
     ingress_step ipnet trusted_proxies blocked_clients internal_listener s (end_task (before @ after) s)"
| step_admitted:
    "tasks s = before @ \<lparr>task_peer = peer, task_phase = Reading\<rparr> # after \<Longrightarrow>
     admit_client ipnet blocked_clients received = Inr client \<Longrightarrow>
     ingress_step ipnet trusted_proxies blocked_clients internal_listener s
       (s\<lparr>tasks := before @ \<lparr>task_peer = peer, task_phase = Connecting client\<rparr> # after\<rparr>)"
| step_unconnected:
    "tasks s = before @ \<lparr>task_peer = peer, task_phase = Connecting client\<rparr> # after \<Longrightarrow>
     ingress_step ipnet trusted_proxies blocked_clients internal_listener s (end_task (before @ after) s)"
| step_connected:
    "tasks s = before @ \<lparr>task_peer = peer, task_phase = Connecting client\<rparr> # after \<Longrightarrow>
     connect_internal deadline (attempts :: ((unit + socket_addr) \<times> nat) list) = Some (Inr internal_peer) \<Longrightarrow>
     ingress_step ipnet trusted_proxies blocked_clients internal_listener s
       (s\<lparr>tasks := before @ \<lparr>task_peer = peer, task_phase = Tunnelling internal_peer\<rparr> # after,
          entries := register now internal_peer internal_listener
            \<lparr>identity_client = client, transport_peer = peer\<rparr> (entries s)\<rparr>)"
| step_closed:
    "tasks s = before @ \<lparr>task_peer = peer, task_phase = Tunnelling internal_peer\<rparr> # after \<Longrightarrow>
     ingress_step ipnet trusted_proxies blocked_clients internal_listener s
       (end_task (before @ after)
          (s\<lparr>entries := unregister internal_peer internal_listener (entries s)\<rparr>))"
| step_resolve:
    "ingress_step ipnet trusted_proxies blocked_clients internal_listener s
       (s\<lparr>entries := snd (resolve now peer listener (entries s))\<rparr>)"

section \<open>The registry answers what was registered\<close>

text \<open>
  A claim is resolved exactly to what was registered for that tunnel and to nothing after it is
  unregistered, and operations on one tunnel never answer for another. Registering, or resolving
  another tunnel, drops every claim last seen ten minutes ago or longer and keeps every younger one;
  resolving a tunnel answers its stored claim whatever its age and makes it fresh.
\<close>

theorem registry_contract:
  "fst (resolve now' peer listener (register now peer listener identity m)) = Some identity \<and>
   fst (resolve now' peer listener (unregister peer listener m)) = None \<and>
   map_option entry_identity (snd (resolve now peer listener m) \<lparr>key_peer = peer, key_listener = listener\<rparr>) =
     fst (resolve now peer listener m) \<and>
   (if k = \<lparr>key_peer = peer, key_listener = listener\<rparr> then True
    else unregister peer listener m k = m k \<and>
      register now peer listener identity m k = snd (resolve now peer listener m) k \<and>
      (case m k of
         None \<Rightarrow> register now peer listener identity m k = None
       | Some entry \<Rightarrow>
           register now peer listener identity m k =
             (if last_seen entry + identity_ttl \<le> now then None else Some entry)))"
  by (auto simp: resolve_def register_def unregister_def retain_fresh_def identity_ttl_def Let_def
      split: option.splits)

section \<open>Headers are read exactly\<close>

definition v1_field :: "bytes \<Rightarrow> bool" where
  "v1_field part \<longleftrightarrow> part \<noteq> [] \<and> list_all (\<lambda>c. byte_val c < 128 \<and> \<not> is_ascii_whitespace c) part"

lemma not_ends_crlf:
  assumes "line @ b # tail = header @ crlf" and "CHR 0x0A \<notin> set header"
  shows "\<not> str_ends_with line crlf"
proof
  assume "str_ends_with line crlf"
  then obtain line' where "line = line' @ crlf"
    by (metis append_take_drop_id str_ends_with_def)
  then have "CHR 0x0A \<in> set (butlast (line @ b # tail))"
    by (simp add: crlf_def butlast_append)
  then show False
    unfolding assms(1) using assms(2) by (simp add: crlf_def butlast_append)
qed

lemma read_v1_line_stops:
  assumes "line @ tail = header @ crlf" and "CHR 0x0A \<notin> set header"
    and "length header + 2 \<le> max_v1_header_bytes"
  shows "read_v1_line line (tail @ rest) = Inr (header @ crlf, rest)"
  using assms(1)
proof (induction tail arbitrary: line)
  case Nil
  then show ?case
    by (subst read_v1_line.simps) (simp add: str_ends_with_def)
next
  case (Cons b tail)
  have "length line + length (b # tail) = length header + 2"
    using arg_cong [OF Cons.prems, of length] by (simp add: crlf_def)
  then have "length line < max_v1_header_bytes"
    using assms(3) by simp
  moreover have "read_v1_line (line @ [b]) (tail @ rest) = Inr (header @ crlf, rest)"
    using Cons by simp
  ultimately show ?case
    using not_ends_crlf [OF Cons.prems assms(2)] by (subst read_v1_line.simps) (simp add: read_u8_def)
qed

lemma split_ascii_whitespace_fields:
  assumes "parts \<noteq> []" and "list_all v1_field parts"
  shows "split_ascii_whitespace (join_with '' '' parts) = parts"
proof -
  have ws: "map (\<lambda>c. if is_ascii_whitespace c then CHR '' '' else c) part = part" if "v1_field part" for part
    using that by (induction part) (auto simp: v1_field_def list_all_iff)
  have "map (\<lambda>c. if is_ascii_whitespace c then CHR '' '' else c) (join_with '' '' parts) = join_with '' '' parts"
    using assms
  proof (induction parts rule: list_nonempty_induct)
    case (cons part parts)
    then show ?case by (simp add: join_with_Cons ws)
  qed (simp add: ws)
  moreover have "split_on (CHR '' '') (join_with '' '' parts) = parts"
    using assms by (intro split_join) (auto simp: list_all_iff v1_field_def is_ascii_whitespace_def)
  moreover have "filter (\<lambda>part. part \<noteq> []) parts = parts"
    using assms(2) by (simp add: filter_id_conv list_all_iff v1_field_def)
  ultimately show ?thesis by (simp add: split_ascii_whitespace_def)
qed

definition v1_header :: "bytes \<Rightarrow> bytes \<Rightarrow> bytes \<Rightarrow> bytes \<Rightarrow> bytes \<Rightarrow> bytes" where
  "v1_header family source destination source_port destination_port =
     join_with '' '' [''PROXY'', family, source, destination, source_port, destination_port]"

lemma v1_header_bytes:
  assumes "list_all v1_field [family, source, destination, source_port, destination_port]"
  shows "list_all (\<lambda>c. byte_val c < 128 \<and> c \<noteq> CHR 0x0A)
    (v1_header family source destination source_port destination_port)"
proof -
  have "list_all (\<lambda>c. byte_val c < 128 \<and> c \<noteq> CHR 0x0A) part" if "v1_field part" for part
    using that unfolding v1_field_def by (auto elim!: list.pred_mono_strong simp: is_ascii_whitespace_def)
  with assms show ?thesis by (simp add: v1_header_def)
qed

lemma parse_v1_line_header:
  assumes "list_all v1_field [family, source, destination, source_port, destination_port]"
    and "parse_ip_addr source = Some a" and "parse_ip_addr destination = Some b" and "family_matches family a b"
    and "parse_uint 16 source_port = Some p" and "parse_uint 16 destination_port = Some q"
  shows "parse_v1_line (v1_header family source destination source_port destination_port) =
    Inr \<lparr>addr_ip = a, addr_port = p\<rparr>"
proof -
  let ?parts = "[''PROXY'', family, source, destination, source_port, destination_port]"
  have "v1_field ''PROXY''" by (simp add: v1_field_def is_ascii_whitespace_def)
  then have parts: "split_ascii_whitespace (v1_header family source destination source_port destination_port) = ?parts"
    unfolding v1_header_def using assms(1) by (intro split_ascii_whitespace_fields) simp_all
  moreover have "utf8_valid (v1_header family source destination source_port destination_port)"
    using v1_header_bytes [OF assms(1)] by (intro utf8_valid_ascii) (auto simp: list_all_iff)
  ultimately show ?thesis
    using assms by (simp add: parse_v1_line_def)
qed

text \<open>
  A version 1 header is read for what it says and not a byte further. For any two addresses of
  the announced family and any two ports, in any spelling that parses, the header gives the source
  as the client and leaves exactly the bytes after its line end, as long as the line fits the limit.
\<close>

theorem v1_header_read_exactly:
  assumes "list_all v1_field [family, source, destination, source_port, destination_port]"
    and "parse_ip_addr source = Some a" and "parse_ip_addr destination = Some b" and "family_matches family a b"
    and "parse_uint 16 source_port = Some p" and "parse_uint 16 destination_port = Some q"
    and "length (v1_header family source destination source_port destination_port) + 2 \<le> max_v1_header_bytes"
  shows "read_proxy_protocol_header (v1_header family source destination source_port destination_port @ crlf @ rest) =
    Inr (\<lparr>addr_ip = a, addr_port = p\<rparr>, rest)"
proof -
  define header where "header = v1_header family source destination source_port destination_port"
  obtain header' where header: "header = ''PROXY '' @ header'"
    by (simp add: header_def v1_header_def)
  have "12 \<le> length header"
    using assms(1) by (cases family; cases source; cases destination; cases source_port; cases destination_port)
      (simp_all add: header_def v1_header_def v1_field_def)
  then have read: "read_exact 12 (header @ crlf @ rest) = Inr (take 12 header, drop 12 header @ crlf @ rest)"
    by (simp add: read_exact_def)
  have prefix: "take 12 header \<noteq> v2_signature" "str_starts_with (take 12 header) ''PROXY ''"
    by (simp_all add: header v2_signature_def str_starts_with_def)
  have "CHR 0x0A \<notin> set header"
    using v1_header_bytes [OF assms(1)] by (auto simp: header_def list_all_iff)
  then have "read_v1_line (take 12 header) ((drop 12 header @ crlf) @ rest) = Inr (header @ crlf, rest)"
    using assms(7) by (intro read_v1_line_stops) (simp_all add: header_def)
  then have "read_v1_header (take 12 header) (drop 12 header @ crlf @ rest) = Inr (\<lparr>addr_ip = a, addr_port = p\<rparr>, rest)"
    using parse_v1_line_header [OF assms(1-6)] by (simp add: read_v1_header_def header_def crlf_def)
  then show ?thesis
    using read prefix by (simp add: read_proxy_protocol_header_def header_def)
qed

theorem v1_header_read_exactly_witness:
  "read_proxy_protocol_header (''PROXY TCP4 203.0.113.7 192.0.2.1 4567 443'' @ crlf @ ''GET'') =
     Inr (\<lparr>addr_ip = V4 (of_nat (bits_of 256 [203, 0, 113, 7])), addr_port = 4567\<rparr>, ''GET'')"
proof -
  have fields: "list_all v1_field [''TCP4'', ''203.0.113.7'', ''192.0.2.1'', ''4567'', ''443'']"
    by (simp add: v1_field_def is_ascii_whitespace_def)
  note address_simps = parse_ip_addr_def parse_ipv4_def read_ipv4_addr_def read_octet_def
    read_separator_def read_number_def digit_value_def Let_def bits_of_def
  have source: "parse_ip_addr ''203.0.113.7'' = Some (V4 (of_nat (bits_of 256 [203, 0, 113, 7])))"
    by (simp add: address_simps)
  have destination: "parse_ip_addr ''192.0.2.1'' = Some (V4 (of_nat (bits_of 256 [192, 0, 2, 1])))"
    by (simp add: address_simps)
  have ports: "parse_uint 16 ''4567'' = Some 4567" "parse_uint 16 ''443'' = Some 443"
    by (simp_all add: parse_uint_def is_ascii_digit_def)
  have "length (v1_header ''TCP4'' ''203.0.113.7'' ''192.0.2.1'' ''4567'' ''443'') + 2 \<le> max_v1_header_bytes"
    by (simp add: v1_header_def max_v1_header_bytes_def)
  from v1_header_read_exactly [OF fields source destination _ ports this, of "''GET''"]
  show ?thesis by (simp add: v1_header_def)
qed

lemma read_u16_be16: "n < 65536 \<Longrightarrow> read_u16 (be16 n @ s) = Inr (n, s)"
  using from_be16_be16 [of n] by (simp add: read_u16_def read_u8_def be16_def)

lemma read_v2_header_payload:
  assumes "length payload \<le> max_v2_payload_bytes"
  shows "read_proxy_protocol_header
      (v2_signature @ [CHR 0x21, family] @ be16 (length payload) @ payload @ rest) =
    try_bind (v2_address (byte_val family) payload) (\<lambda>client. Inr (client, rest))"
proof -
  have "length v2_signature = 12" by (simp add: v2_signature_def)
  then show ?thesis
    using assms read_u16_be16 [of "length payload" "payload @ rest"]
    by (simp add: read_proxy_protocol_header_def read_exact_def read_v2_header_def read_u8_def max_v2_payload_bytes_def)
qed

text \<open>
  A version 2 header is read for what it says and not a byte further. For any addresses and ports
  of either family, and any trailing type-length-value fields within the limit, the header gives the
  source address and port as the client and leaves exactly what follows the announced payload.
\<close>

theorem v2_header_read_exactly:
  assumes "length source4 = 4" and "length destination4 = 4" and "length source6 = 16" and "length destination6 = 16"
    and "source_port < 65536" and "length tlvs \<le> 476"
  shows "read_proxy_protocol_header
      (v2_signature @ [CHR 0x21, CHR 0x11] @
       be16 (length (source4 @ destination4 @ be16 source_port @ be16 destination_port @ tlvs)) @
       (source4 @ destination4 @ be16 source_port @ be16 destination_port @ tlvs) @ rest) =
      Inr (\<lparr>addr_ip = V4 (of_nat (bits_of 256 (map byte_val source4))), addr_port = source_port\<rparr>, rest) \<and>
    read_proxy_protocol_header
      (v2_signature @ [CHR 0x21, CHR 0x21] @
       be16 (length (source6 @ destination6 @ be16 source_port @ be16 destination_port @ tlvs)) @
       (source6 @ destination6 @ be16 source_port @ be16 destination_port @ tlvs) @ rest) =
      Inr (\<lparr>addr_ip = V6 (of_nat (bits_of 256 (map byte_val source6))), addr_port = source_port\<rparr>, rest)"
proof -
  have port: "from_be16 (be16 source_port ! 0) (be16 source_port ! 1) = source_port"
    using assms(5) by (rule from_be16_be16)
  have nth: "(xs @ ys @ be16 source_port @ zs) ! (length xs + length ys) = be16 source_port ! 0"
    "(xs @ ys @ be16 source_port @ zs) ! (length xs + length ys + 1) = be16 source_port ! 1" for xs ys zs
    by (simp_all add: nth_append)
  have v4: "v2_address 0x11 (source4 @ destination4 @ be16 source_port @ be16 destination_port @ tlvs) =
      Inr \<lparr>addr_ip = V4 (of_nat (bits_of 256 (map byte_val source4))), addr_port = source_port\<rparr>"
    using assms nth [of source4 destination4 "be16 destination_port @ tlvs"] port by (simp add: v2_address_def)
  have v6: "v2_address 0x21 (source6 @ destination6 @ be16 source_port @ be16 destination_port @ tlvs) =
      Inr \<lparr>addr_ip = V6 (of_nat (bits_of 256 (map byte_val source6))), addr_port = source_port\<rparr>"
    using assms nth [of source6 destination6 "be16 destination_port @ tlvs"] port by (simp add: v2_address_def)
  have fits: "length (source4 @ destination4 @ be16 source_port @ be16 destination_port @ tlvs) \<le> max_v2_payload_bytes"
    "length (source6 @ destination6 @ be16 source_port @ be16 destination_port @ tlvs) \<le> max_v2_payload_bytes"
    using assms by (simp_all add: max_v2_payload_bytes_def)
  show ?thesis
    unfolding read_v2_header_payload [OF fits(1)] read_v2_header_payload [OF fits(2)] using v4 v6 by simp
qed

theorem v2_header_read_exactly_witness:
  "read_proxy_protocol_header
     (v2_signature @ [CHR 0x21, CHR 0x11] @ be16 12 @
      ([CHR 0xCB, CHR 0x00, CHR 0x71, CHR 0x07] @ [CHR 0xC0, CHR 0x00, CHR 0x02, CHR 0x01] @ be16 4567 @ be16 443) @
      ''GET'') =
     Inr (\<lparr>addr_ip = V4 (of_nat (bits_of 256 [203, 0, 113, 7])), addr_port = 4567\<rparr>, ''GET'')"
  using v2_header_read_exactly [of "[CHR 0xCB, CHR 0x00, CHR 0x71, CHR 0x07]"
      "[CHR 0xC0, CHR 0x00, CHR 0x02, CHR 0x01]" "replicate 16 (CHR 0x00)" "replicate 16 (CHR 0x00)"
      4567 "[]" 443 "''GET''"]
  by simp

section \<open>A header costs a bounded read\<close>

lemma read_v1_line_bounded:
  "read_v1_line line s = Inr (line', s') \<Longrightarrow> length line \<le> max_v1_header_bytes \<Longrightarrow>
    line @ s = line' @ s' \<and> length line' \<le> max_v1_header_bytes"
proof (induction s arbitrary: line)
  case Nil
  then show ?case
    by (subst (asm) read_v1_line.simps) (auto simp: read_u8_def split: if_splits)
next
  case (Cons b s)
  show ?case
  proof (cases "str_ends_with line crlf \<or> max_v1_header_bytes \<le> length line")
    case True
    then show ?thesis
      using Cons.prems by (subst (asm) read_v1_line.simps) (auto split: if_splits)
  next
    case False
    then have "read_v1_line (line @ [b]) s = Inr (line', s')"
      using Cons.prems(1) by (subst (asm) read_v1_line.simps) (simp add: read_u8_def)
    then show ?thesis using Cons.IH [of "line @ [b]"] False by simp
  qed
qed

lemma read_v2_header_bounded:
  "read_v2_header s = Inr (client, s') \<Longrightarrow> \<exists>used. s = used @ s' \<and> length used \<le> 4 + max_v2_payload_bytes"
proof (cases s)
  case (Cons a s1)
  assume read: "read_v2_header s = Inr (client, s')"
  then obtain b s2 n s3 payload where s: "s1 = b # s2" "read_u16 s2 = Inr (n, s3)" "n \<le> max_v2_payload_bytes"
    "read_exact n s3 = Inr (payload, s')"
    using Cons by (auto simp: read_v2_header_def read_u8_def try_bind_Inr_iff split: list.splits if_splits)
  then have "s3 = payload @ s'" "length payload = n"
    by (auto simp: read_exact_def split: if_splits)
  moreover obtain c d where "s2 = c # d # s3"
    using s(2) by (auto simp: read_u16_def read_u8_def try_bind_Inr_iff split: list.splits)
  ultimately show ?thesis
    using Cons s by (intro exI [of _ "a # b # c # d # payload"]) simp
qed (simp add: read_v2_header_def read_u8_def)

text \<open>
  Whatever arrives on a connection, an accepted header is a prefix of it of at most 528 bytes: the
  108 bytes of a version 1 line, or the 16 fixed bytes and 512 payload bytes of version 2. A peer
  cannot make the parser consume, or wait for, an unbounded header.
\<close>

theorem header_consumption_bounded:
  "case read_proxy_protocol_header s of
     Inl e \<Rightarrow> True
   | Inr (client, rest) \<Rightarrow> \<exists>header. s = header @ rest \<and> length header \<le> 528"
proof (cases "read_proxy_protocol_header s")
  case (Inr r)
  obtain client rest where r: "r = (client, rest)" by (cases r)
  define prefix s1 where "prefix = take 12 s" and "s1 = drop 12 s"
  then have p: "s = prefix @ s1" "length prefix = 12"
    "prefix = v2_signature \<and> read_v2_header s1 = Inr (client, rest) \<or> read_v1_header prefix s1 = Inr (client, rest)"
    using Inr r by (auto simp: read_proxy_protocol_header_def try_bind_Inr_iff read_exact_def split: if_splits)
  from p(3) have "\<exists>header. s = header @ rest \<and> length header \<le> 528"
  proof
    assume "prefix = v2_signature \<and> read_v2_header s1 = Inr (client, rest)"
    then obtain used where "s1 = used @ rest" "length used \<le> 516"
      using read_v2_header_bounded [of s1 client rest] by (auto simp: max_v2_payload_bytes_def)
    then show ?thesis using p by (intro exI [of _ "prefix @ used"]) simp
  next
    assume "read_v1_header prefix s1 = Inr (client, rest)"
    then obtain line where "read_v1_line prefix s1 = Inr (line, rest)"
      by (auto simp: read_v1_header_def try_bind_Inr_iff)
    then show ?thesis
      using read_v1_line_bounded [of prefix s1 line rest] p by (auto simp: max_v1_header_bytes_def)
  qed
  then show ?thesis by (simp add: Inr r)
qed simp

section \<open>Only trusted claims, within the limit\<close>

definition entry_trusted :: "'net ipnet_api \<Rightarrow> 'net list \<Rightarrow> 'net list \<Rightarrow> registry_entry \<Rightarrow> bool" where
  "entry_trusted ipnet trusted blocked entry \<longleftrightarrow>
     any_contains ipnet trusted (transport_peer (entry_identity entry)) \<and>
     \<not> any_contains ipnet blocked (identity_client (entry_identity entry))"

definition task_trusted :: "'net ipnet_api \<Rightarrow> 'net list \<Rightarrow> 'net list \<Rightarrow> task \<Rightarrow> bool" where
  "task_trusted ipnet trusted blocked t \<longleftrightarrow>
     any_contains ipnet trusted (task_peer t) \<and>
     (case task_phase t of Connecting client \<Rightarrow> \<not> any_contains ipnet blocked client | _ \<Rightarrow> True)"

definition ingress_ok :: "'net ipnet_api \<Rightarrow> 'net list \<Rightarrow> 'net list \<Rightarrow> nat option \<Rightarrow> ingress \<Rightarrow> bool" where
  "ingress_ok ipnet trusted blocked limit s \<longleftrightarrow>
     map_option (\<lambda>permits. permits + length (tasks s)) (available s) = limit \<and>
     list_all (task_trusted ipnet trusted blocked) (tasks s) \<and>
     (\<forall>k entry. entries s k = Some entry \<longrightarrow> entry_trusted ipnet trusted blocked entry)"

lemma retain_fresh_Some: "retain_fresh now m k = Some entry \<Longrightarrow> m k = Some entry"
  by (auto simp: retain_fresh_def split: option.splits if_splits)

lemma resolve_entries:
  assumes "snd (resolve now peer listener m) k = Some entry"
  shows "\<exists>entry'. m k = Some entry' \<and> entry_identity entry' = entry_identity entry"
  using assms
  by (auto simp: resolve_def Let_def dest!: retain_fresh_Some split: option.splits if_splits)

lemma admit_client_not_blocked:
  "admit_client ipnet blocked received = Inr client \<Longrightarrow> \<not> any_contains ipnet blocked client"
  by (auto simp: admit_client_def try_bind_Inr_iff split: option.splits if_splits)

lemma ingress_step_ok:
  assumes "ingress_step ipnet trusted blocked listener s s'" and "ingress_ok ipnet trusted blocked limit s"
  shows "ingress_ok ipnet trusted blocked limit s'"
  using assms
proof (induction rule: ingress_step.induct)
  case (step_accept s peer)
  then show ?case
    by (auto simp: accept_connection_def ingress_ok_def task_trusted_def Let_def split: option.splits nat.splits)
next
  case (step_admitted s before peer after received client)
  then show ?case
    by (auto simp: ingress_ok_def task_trusted_def dest!: admit_client_not_blocked)
next
  case (step_connected s before peer client after deadline attempts internal_peer now)
  then show ?case
    by (auto simp: ingress_ok_def task_trusted_def entry_trusted_def register_def dest!: retain_fresh_Some
        split: if_splits)
next
  case (step_resolve s now peer listener)
  then show ?case
    by (fastforce simp: ingress_ok_def entry_trusted_def dest!: resolve_entries)
qed (auto simp: ingress_ok_def end_task_def unregister_def option.map_comp comp_def split: if_splits)

text \<open>
  C6: Only a trusted transport peer can introduce a client, and only one that is not blocked. In
  every state the ingress can reach, whatever the order in which connections are accepted, headers
  arrive, tunnels open and close and requests look claims up, each claim in the registry came from a
  peer inside the trusted networks and names a client outside the blocked ones, and the connections
  held never exceed the configured limit.
\<close>

theorem ingress_trusts_only_configured_peers:
  assumes "(ingress_step ipnet trusted blocked listener)\<^sup>*\<^sup>* (ingress_new limit) s"
  shows "(case entries s k of None \<Rightarrow> True | Some entry \<Rightarrow> entry_trusted ipnet trusted blocked entry) \<and>
    (case limit of None \<Rightarrow> True | Some n \<Rightarrow> length (tasks s) \<le> n)"
proof -
  have "ingress_ok ipnet trusted blocked limit s"
    using assms
  proof (induction rule: rtranclp_induct)
    case base
    then show ?case by (simp add: ingress_ok_def ingress_new_def option.map_ident)
  next
    case (step s s')
    then show ?case using ingress_step_ok by blast
  qed
  then show ?thesis
    by (auto simp: ingress_ok_def split: option.splits)
qed

theorem ingress_trusts_only_configured_peers_witness:
  "length (tasks (accept_connection
     \<lparr>net_parse = (\<lambda>_. None), net_from_addr = (\<lambda>a. a), net_contains = (=)\<rparr> [V4 7]
     \<lparr>addr_ip = V4 7, addr_port = 1\<rparr> (ingress_new (Some 1)))) \<le> 1 \<and>
   tasks (accept_connection
     \<lparr>net_parse = (\<lambda>_. None), net_from_addr = (\<lambda>a. a), net_contains = (=)\<rparr> [V4 7]
     \<lparr>addr_ip = V4 7, addr_port = 1\<rparr> (ingress_new (Some 1))) \<noteq> []"
proof -
  let ?ipnet = "\<lparr>net_parse = (\<lambda>_. None), net_from_addr = (\<lambda>a. a), net_contains = (=)\<rparr> :: ip_addr ipnet_api"
  let ?peer = "\<lparr>addr_ip = V4 7, addr_port = 1\<rparr>"
  let ?s = "accept_connection ?ipnet [V4 7] ?peer (ingress_new (Some 1))"
  have "(ingress_step ?ipnet [V4 7] [] ?peer)\<^sup>*\<^sup>* (ingress_new (Some 1)) ?s"
    by (rule r_into_rtranclp) (rule step_accept)
  then have "length (tasks ?s) \<le> 1"
    using ingress_trusts_only_configured_peers [of ?ipnet "[V4 7]" "[]" ?peer "Some 1" ?s] by simp
  moreover have "tasks ?s \<noteq> []"
    by (simp add: accept_connection_def any_contains_def ingress_new_def)
  ultimately show ?thesis by simp
qed

end
