(* ===== verification/Lexer.thy ===== *)
theory Lexer
  imports Byte_Source Utf8
begin

text \<open>
  The configuration lexer (\<open>pingclair-config/src/caddyfile/parser/lexer.rs\<close>). The source is the list
  of its characters, a character being its code point, as the lexer's \<open>Vec<char>\<close> has it; positions
  are offsets into it. A slice that would panic is an error value of its own.
\<close>

type_synonym chars = "nat list"

abbreviation (input) "space \<equiv> (32 :: nat)"
abbreviation (input) "tab \<equiv> (9 :: nat)"
abbreviation (input) "newline \<equiv> (10 :: nat)"
abbreviation (input) "form_feed \<equiv> (12 :: nat)"
abbreviation (input) "carriage \<equiv> (13 :: nat)"
abbreviation (input) "double_quote \<equiv> (34 :: nat)"
abbreviation (input) "hash \<equiv> (35 :: nat)"
abbreviation (input) "dollar \<equiv> (36 :: nat)"
abbreviation (input) "angle \<equiv> (60 :: nat)"
abbreviation (input) "backslash \<equiv> (92 :: nat)"
abbreviation (input) "backtick \<equiv> (96 :: nat)"
abbreviation (input) "open_brace \<equiv> (123 :: nat)"
abbreviation (input) "close_brace \<equiv> (125 :: nat)"

text \<open>ASCII text as characters.\<close>

definition ascii :: "string \<Rightarrow> chars" where
  "ascii s = map of_char s"

section \<open>Locations\<close>

record location =
  loc_start :: nat
  loc_end :: nat
  loc_line :: nat
  loc_column :: nat

definition synthetic :: location where
  "synthetic = \<lparr>loc_start = 0, loc_end = 0, loc_line = 0, loc_column = 0\<rparr>"

definition location_display :: "location \<Rightarrow> chars" where
  "location_display l = ascii (show_nat (loc_line l) @ '':'' @ show_nat (loc_column l))"

definition line_index_new :: "chars \<Rightarrow> nat list" where
  "line_index_new cs = map fst (filter (\<lambda>(i, c). c = newline) (zip [0..<length cs] cs))"

text \<open>\<open>partition_point\<close>: the length of the prefix on which the predicate holds.\<close>

definition line_at :: "nat list \<Rightarrow> nat \<Rightarrow> nat \<times> nat" where
  "line_at newlines offset =
     (let line = length (takeWhile (\<lambda>nl. nl < offset) newlines);
          line_start = (if line = 0 then 0 else newlines ! (line - 1) + 1)
      in (line + 1, offset - line_start + 1))"

definition span :: "nat list \<Rightarrow> nat \<Rightarrow> nat \<Rightarrow> location" where
  "span newlines a b =
     (case line_at newlines a of (line, column) \<Rightarrow>
        \<lparr>loc_start = a, loc_end = b, loc_line = line, loc_column = column\<rparr>)"

section \<open>Tokens\<close>

datatype token =
    Whitespace
  | Comment
  | BlockOpen
  | BlockClose
  | Newline
  | QuotedString chars
  | EnvVar chars
  | Placeholder chars
  | Word chars

fun token_display :: "token \<Rightarrow> chars" where
  "token_display BlockOpen = [open_brace]"
| "token_display BlockClose = [close_brace]"
| "token_display Newline = [backslash, of_char CHR ''n'']"
| "token_display (QuotedString s) = [double_quote] @ s @ [double_quote]"
| "token_display (EnvVar s) = [open_brace, dollar] @ s @ [close_brace]"
| "token_display (Placeholder s) = [open_brace] @ s @ [close_brace]"
| "token_display (Word s) = s"
| "token_display Whitespace = ascii ''Whitespace''"
| "token_display Comment = ascii ''Comment''"

record spanned =
  spanned_value :: token
  spanned_span :: location

datatype lex_error =
    UnexpectedChar nat
  | HeredocMarkerInvalid nat chars
  | HeredocMarkerMissing nat
  | HeredocTooManyAngles nat
  | HeredocUnterminated nat chars
  | HeredocIndentMismatch nat chars
  | SlicePanic

section \<open>Scanning\<close>

text \<open>\<open>while pos < chars.len() && p(chars[pos]) { pos += 1 }\<close>\<close>

definition scan_while :: "(nat \<Rightarrow> bool) \<Rightarrow> chars \<Rightarrow> nat \<Rightarrow> nat" where
  "scan_while p cs pos = pos + length (takeWhile p (drop pos cs))"

text \<open>\<open>&chars[a..b]\<close>, for \<open>a \<le> b \<le> chars.len()\<close>.\<close>

definition slice :: "chars \<Rightarrow> nat \<Rightarrow> nat \<Rightarrow> chars" where
  "slice cs a b = take (b - a) (drop a cs)"

text \<open>\<open>chars[pos] == c\<close> under the bounds test before it.\<close>

definition char_at :: "chars \<Rightarrow> nat \<Rightarrow> nat \<Rightarrow> bool" where
  "char_at cs pos c \<longleftrightarrow> pos < length cs \<and> cs ! pos = c"

fun unescape_string :: "chars \<Rightarrow> chars" where
  "unescape_string [] = []"
| "unescape_string (c # cs) =
     (if c = backslash then
        (case cs of
           [] \<Rightarrow> [backslash]
         | d # cs \<Rightarrow>
             (if d = of_char CHR ''n'' then [newline]
              else if d = of_char CHR ''r'' then [carriage]
              else if d = of_char CHR ''t'' then [tab]
              else if d = backslash then [backslash]
              else if d = double_quote then [double_quote]
              else [backslash, d]) @ unescape_string cs)
      else c # unescape_string cs)"

definition ends_a_word :: "nat list" where
  "ends_a_word = [space, tab, carriage, newline, form_feed, close_brace, hash, double_quote]"

definition is_glued_to_word :: "chars \<Rightarrow> nat \<Rightarrow> bool" where
  "is_glued_to_word cs index \<longleftrightarrow> index < length cs \<and> cs ! index \<notin> set ends_a_word"

section \<open>Heredocs\<close>

definition rfind_newline :: "chars \<Rightarrow> nat option" where
  "rfind_newline cs =
     (if newline \<in> set cs then Some (length cs - 1 - length (takeWhile (\<lambda>c. c \<noteq> newline) (rev cs))) else None)"

fun heredoc_lines :: "chars \<Rightarrow> chars \<Rightarrow> nat \<Rightarrow> nat \<Rightarrow> chars list \<Rightarrow> lex_error + chars" where
  "heredoc_lines padding marker open_line offset [] = Inr []"
| "heredoc_lines padding marker open_line offset (line # lines) =
     (if line = [] \<or> line = [carriage] then
        try_bind (heredoc_lines padding marker open_line (offset + 1) lines) (\<lambda>rest. Inr (newline # rest))
      else
        (case strip_prefix padding line of
           None \<Rightarrow> Inl (HeredocIndentMismatch (open_line + offset + 1) marker)
         | Some line \<Rightarrow>
             try_bind (heredoc_lines padding marker open_line (offset + 1) lines) (\<lambda>rest.
               Inr (filter (\<lambda>c. c \<noteq> carriage) line @ [newline] @ rest))))"

text \<open>The slices of \<open>raw\<close> are by bytes. After a newline, and before the ASCII marker, they fall between
  characters; without a newline in \<open>raw\<close> the first slice starts at byte 1, which is past its end when
  there is nothing before the marker and inside a character when that is not ASCII.\<close>

definition heredoc_padding :: "chars \<Rightarrow> chars \<Rightarrow> lex_error + (chars \<times> chars)" where
  "heredoc_padding raw marker =
     (case rfind_newline raw of
        Some last_newline \<Rightarrow>
          Inr (slice raw (last_newline + 1) (length raw - length marker), take (last_newline + 1) raw)
      | None \<Rightarrow>
          if length raw - length marker = 0 \<or> 128 \<le> hd raw then Inl SlicePanic
          else Inr (slice raw 1 (length raw - length marker), take 1 raw))"

definition finalize_heredoc :: "chars \<Rightarrow> chars \<Rightarrow> nat \<Rightarrow> lex_error + chars" where
  "finalize_heredoc raw marker open_line =
     try_bind (heredoc_padding raw marker) (\<lambda>(padding, body).
     let body_lines = split_on newline body
     in try_bind (heredoc_lines padding marker open_line 0 (take (length body_lines - 1) body_lines)) (\<lambda>out.
          Inr (if out \<noteq> [] \<and> last out = newline then butlast out else out)))"

definition trim_end_carriages :: "chars \<Rightarrow> chars" where
  "trim_end_carriages word = rev (dropWhile (\<lambda>c. c = carriage) (rev word))"

function heredoc_end :: "chars \<Rightarrow> chars \<Rightarrow> nat \<Rightarrow> nat option" where
  "heredoc_end marker cs scan =
     (if length cs \<le> scan then None
      else if is_whitespace (cs ! scan) then heredoc_end marker cs (scan + 1)
      else
        (let word_end = scan_while (\<lambda>c. \<not> is_whitespace c) cs scan;
             word = trim_end_carriages (slice cs scan word_end)
         in if str_ends_with word marker then Some (scan + length word)
            else heredoc_end marker cs word_end))"
  by pat_completeness auto
termination
proof (relation "measure (\<lambda>(marker, cs, scan). length cs - scan)", goal_cases)
  case (3 marker cs scan word_end word)
  then have "drop scan cs = cs ! scan # drop (Suc scan) cs"
    by (simp add: Cons_nth_drop_Suc)
  with 3 have "scan < word_end"
    by (simp add: scan_while_def)
  with 3 show ?case by simp
qed auto

declare heredoc_end.simps [simp del]

definition marker_char :: "nat \<Rightarrow> bool" where
  "marker_char c \<longleftrightarrow>
     (48 \<le> c \<and> c \<le> 57) \<or> (65 \<le> c \<and> c \<le> 90) \<or> (97 \<le> c \<and> c \<le> 122) \<or> c = of_char CHR ''_'' \<or> c = of_char CHR ''-''"

definition lex_heredoc :: "nat list \<Rightarrow> chars \<Rightarrow> nat \<Rightarrow> lex_error + (token \<times> nat)" where
  "lex_heredoc lines cs pos =
     (let open_line = fst (line_at lines pos);
          cursor = pos + 2
      in if char_at cs cursor angle then Inl (HeredocTooManyAngles open_line)
         else
           (let marker_end = scan_while (\<lambda>c. \<not> is_whitespace c) cs cursor;
                marker = slice cs cursor marker_end
            in if marker = [] then Inl (HeredocMarkerMissing open_line)
               else if \<not> list_all marker_char marker then Inl (HeredocMarkerInvalid open_line marker)
               else
                 (let line_end = scan_while (\<lambda>c. c \<noteq> newline) cs marker_end
                  in if length cs \<le> line_end then Inl (HeredocUnterminated open_line marker)
                     else
                       (let body_start = line_end + 1
                        in case heredoc_end marker cs body_start of
                             None \<Rightarrow> Inl (HeredocUnterminated open_line marker)
                           | Some body_end \<Rightarrow>
                               try_bind (finalize_heredoc (slice cs body_start body_end) marker open_line)
                                 (\<lambda>body. Inr (QuotedString body, body_end))))))"

section \<open>Quotes and words\<close>

function scan_quoted :: "chars \<Rightarrow> nat \<Rightarrow> chars \<times> nat" where
  "scan_quoted cs pos =
     (if length cs \<le> pos \<or> cs ! pos = double_quote then ([], pos)
      else if cs ! pos = backslash \<and> pos + 1 < length cs then
        (case scan_quoted cs (pos + 2) of (s, pos') \<Rightarrow> (cs ! pos # cs ! (pos + 1) # s, pos'))
      else (case scan_quoted cs (pos + 1) of (s, pos') \<Rightarrow> (cs ! pos # s, pos')))"
  by pat_completeness auto
termination
  by (relation "measure (\<lambda>(cs, pos). length cs - pos)") auto

declare scan_quoted.simps [simp del]

definition lex_quoted :: "chars \<Rightarrow> nat \<Rightarrow> token \<times> nat" where
  "lex_quoted cs pos =
     (case scan_quoted cs (pos + 1) of (s, pos') \<Rightarrow>
        (QuotedString (unescape_string s), if pos' < length cs then pos' + 1 else pos'))"

definition lex_raw_quoted :: "chars \<Rightarrow> nat \<Rightarrow> token \<times> nat" where
  "lex_raw_quoted cs pos =
     (let pos' = scan_while (\<lambda>c. c \<noteq> backtick) cs (pos + 1)
      in (QuotedString (slice cs (pos + 1) pos'), if pos' < length cs then pos' + 1 else pos'))"

text \<open>\<open>None\<close> is a placeholder glued to the word that follows: the word scanner reads it.\<close>

definition lex_open_brace :: "chars \<Rightarrow> nat \<Rightarrow> (token \<times> nat) option" where
  "lex_open_brace cs pos =
     (let var_end = scan_while (\<lambda>c. c \<noteq> close_brace \<and> c \<noteq> newline) cs (pos + 2)
      in if pos + 2 < length cs \<and> cs ! (pos + 1) = dollar \<and> char_at cs var_end close_brace
         then Some (EnvVar (slice cs (pos + 2) var_end), var_end + 1)
         else
           (let inner_end = scan_while (\<lambda>c. c \<noteq> close_brace \<and> c \<notin> {space, tab, newline, carriage}) cs (pos + 1);
                is_placeholder = (char_at cs inner_end close_brace \<and> pos + 1 < inner_end)
            in if is_placeholder then
                 (if \<not> is_glued_to_word cs (inner_end + 1)
                  then Some (Placeholder (slice cs (pos + 1) inner_end), inner_end + 1)
                  else None)
               else Some (BlockOpen, pos + 1)))"

function scan_word :: "chars \<Rightarrow> nat \<Rightarrow> nat" where
  "scan_word cs pos =
     (if length cs \<le> pos \<or> cs ! pos \<in> set ends_a_word then pos
      else if cs ! pos = open_brace then
        (if char_at cs (pos + 1) dollar then pos
         else
           (let j = scan_while (\<lambda>c. c \<noteq> close_brace \<and> c \<notin> {space, tab, carriage, newline, form_feed}) cs (pos + 1)
            in if char_at cs j close_brace then scan_word cs (j + 1) else pos))
      else scan_word cs (pos + 1))"
  by pat_completeness auto
termination
  by (relation "measure (\<lambda>(cs, pos). length cs - pos)") (auto simp: char_at_def scan_while_def)

declare scan_word.simps [simp del]

definition lex_word :: "chars \<Rightarrow> nat \<Rightarrow> lex_error + (token \<times> nat)" where
  "lex_word cs pos =
     (let pos' = scan_word cs pos
      in if pos < pos' then Inr (Word (slice cs pos pos'), pos') else Inl (UnexpectedChar pos'))"

section \<open>The tokenizer\<close>

text \<open>One round of the main loop: the token it pushes, if any, and the next position.\<close>

definition lex_step :: "nat list \<Rightarrow> chars \<Rightarrow> nat \<Rightarrow> lex_error + (token option \<times> nat)" where
  "lex_step lines cs pos =
     (let c = cs ! pos;
          push = (\<lambda>(t, pos'). Inr (Some t, pos'))
      in if c = space \<or> c = tab \<or> c = form_feed then Inr (None, pos + 1)
         else if c = newline then Inr (Some Newline, pos + 1)
         else if c = carriage then
           Inr (Some Newline, if char_at cs (pos + 1) newline then pos + 2 else pos + 1)
         else if c = hash then Inr (None, scan_while (\<lambda>c. c \<noteq> newline) cs pos)
         else if c = angle \<and> char_at cs (pos + 1) angle then try_bind (lex_heredoc lines cs pos) push
         else if c = double_quote then push (lex_quoted cs pos)
         else if c = backtick then push (lex_raw_quoted cs pos)
         else if c = open_brace then
           (case lex_open_brace cs pos of
              Some pushed \<Rightarrow> push pushed
            | None \<Rightarrow> try_bind (lex_word cs pos) push)
         else if c = close_brace then Inr (Some BlockClose, pos + 1)
         else try_bind (lex_word cs pos) push)"

lemma scan_while_bounds:
  "pos \<le> scan_while p cs pos" "pos \<le> length cs \<Longrightarrow> scan_while p cs pos \<le> length cs"
proof -
  show "pos \<le> length cs \<Longrightarrow> scan_while p cs pos \<le> length cs"
    using length_takeWhile_le [of p "drop pos cs"] by (simp add: scan_while_def)
qed (simp add: scan_while_def)

lemma scan_while_stop: "scan_while p cs pos < length cs \<Longrightarrow> \<not> p (cs ! scan_while p cs pos)"
  using nth_length_takeWhile [of p "drop pos cs"] by (simp add: scan_while_def)

lemma scan_while_start: "pos < length cs \<Longrightarrow> p (cs ! pos) \<Longrightarrow> pos < scan_while p cs pos"
  by (simp add: scan_while_def Cons_nth_drop_Suc [symmetric])

lemma heredoc_end_bounds:
  "heredoc_end marker cs scan = Some e \<Longrightarrow> scan \<le> e \<and> e \<le> length cs"
proof (induction marker cs scan rule: heredoc_end.induct)
  case (1 marker cs scan)
  let ?w = "scan_while (\<lambda>c. \<not> is_whitespace c) cs scan"
  have "length (trim_end_carriages xs) \<le> length xs" for xs
    using length_dropWhile_le [of _ "rev xs"] by (simp add: trim_end_carriages_def)
  then have word: "length (trim_end_carriages (slice cs scan ?w)) \<le> length cs - scan"
    by (rule order_trans) (simp add: slice_def)
  show ?case
    using 1 word scan_while_bounds(1) [of scan "\<lambda>c. \<not> is_whitespace c" cs]
    by (subst (asm) (3) heredoc_end.simps) (fastforce simp: Let_def split: if_splits)
qed

lemma scan_quoted_bounds:
  "scan_quoted cs pos = (s, pos') \<Longrightarrow> pos \<le> pos' \<and> (pos \<le> length cs \<longrightarrow> pos' \<le> length cs)"
proof (induction cs pos arbitrary: s rule: scan_quoted.induct)
  case (1 cs pos)
  then show ?case
    by (subst (asm) (3) scan_quoted.simps) (fastforce split: if_splits prod.splits)
qed

lemma scan_word_bounds: "pos \<le> scan_word cs pos \<and> (pos \<le> length cs \<longrightarrow> scan_word cs pos \<le> length cs)"
proof (induction cs pos rule: scan_word.induct)
  case (1 cs pos)
  then show ?case
    by (subst (1 2) scan_word.simps) (force simp: Let_def char_at_def scan_while_def)
qed

lemma lex_heredoc_progress:
  "lex_heredoc lines cs pos = Inr (t, pos') \<Longrightarrow> pos < pos' \<and> pos' \<le> length cs"
  using scan_while_bounds(1) [of "pos + 2" "\<lambda>c. \<not> is_whitespace c" cs]
    scan_while_bounds(1) [of "scan_while (\<lambda>c. \<not> is_whitespace c) cs (pos + 2)" "\<lambda>c. c \<noteq> newline" cs]
  by (auto simp: lex_heredoc_def Let_def try_bind_Inr_iff dest!: heredoc_end_bounds split: if_splits option.splits)

lemma lex_quoted_progress:
  assumes "pos < length cs" and "lex_quoted cs pos = (t, pos')"
  shows "pos < pos' \<and> pos' \<le> length cs"
  using assms scan_quoted_bounds [of cs "pos + 1"]
  by (auto simp: lex_quoted_def split: prod.splits if_splits)

lemma lex_raw_quoted_progress:
  assumes "pos < length cs" and "lex_raw_quoted cs pos = (t, pos')"
  shows "pos < pos' \<and> pos' \<le> length cs"
  using assms scan_while_bounds(1) [of "pos + 1" "\<lambda>c. c \<noteq> backtick" cs]
    scan_while_bounds(2) [of "pos + 1" cs "\<lambda>c. c \<noteq> backtick"]
  by (auto simp: lex_raw_quoted_def Let_def split: if_splits)

lemma lex_open_brace_progress:
  assumes "pos < length cs" and "lex_open_brace cs pos = Some (t, pos')"
  shows "pos < pos' \<and> pos' \<le> length cs"
  using assms scan_while_bounds(1) [of "pos + 2" "\<lambda>c. c \<noteq> close_brace \<and> c \<noteq> newline" cs]
  by (auto simp: lex_open_brace_def Let_def char_at_def split: if_splits)

lemma lex_word_progress:
  "pos < length cs \<Longrightarrow> lex_word cs pos = Inr (t, pos') \<Longrightarrow> pos < pos' \<and> pos' \<le> length cs"
  using scan_word_bounds [of pos cs] by (auto simp: lex_word_def Let_def split: if_splits)

lemma lex_step_progress:
  assumes "pos < length cs" and "lex_step lines cs pos = Inr (t, pos')"
  shows "pos < pos' \<and> pos' \<le> length cs"
proof -
  have comment: "cs ! pos = hash \<Longrightarrow> pos < scan_while (\<lambda>c. c \<noteq> newline) cs pos"
    using assms(1) by (intro scan_while_start) simp_all
  show ?thesis
    using assms(2) comment assms(1) scan_while_bounds(2) [of pos cs "\<lambda>c. c \<noteq> newline"]
      lex_quoted_progress [OF assms(1)] lex_raw_quoted_progress [OF assms(1)]
    by (auto simp: lex_step_def Let_def try_bind_Inr_iff char_at_def
        dest: lex_heredoc_progress lex_open_brace_progress [OF assms(1)] lex_word_progress [OF assms(1)]
        split: if_splits option.splits prod.splits)
qed

function tokenize_loop :: "nat list \<Rightarrow> chars \<Rightarrow> nat \<Rightarrow> lex_error + spanned list" where
  "tokenize_loop lines cs pos =
     (if length cs \<le> pos then Inr []
      else
        try_bind (lex_step lines cs pos) (\<lambda>(pushed, pos').
        try_bind (tokenize_loop lines cs pos') (\<lambda>tokens.
          Inr (case pushed of
                 None \<Rightarrow> tokens
               | Some t \<Rightarrow> \<lparr>spanned_value = t, spanned_span = span lines pos pos'\<rparr> # tokens))))"
  by pat_completeness auto
termination
  by (relation "measure (\<lambda>(lines, cs, pos). length cs - pos)")
    (auto simp: not_le dest!: lex_step_progress [rotated])

declare tokenize_loop.simps [simp del]

definition tokenize :: "chars \<Rightarrow> lex_error + spanned list" where
  "tokenize source = tokenize_loop (line_index_new source) source 0"

section \<open>Every token is the text it spans\<close>

definition line_number :: "chars \<Rightarrow> nat \<Rightarrow> nat" where
  "line_number cs pos = length (filter (\<lambda>c. c = newline) (take pos cs)) + 1"

definition column_number :: "chars \<Rightarrow> nat \<Rightarrow> nat" where
  "column_number cs pos = length (takeWhile (\<lambda>c. c \<noteq> newline) (rev (take pos cs))) + 1"

lemma line_index_new_Nil [simp]: "line_index_new [] = []"
  by (simp add: line_index_new_def)

lemma line_index_new_snoc:
  "line_index_new (cs @ [c]) = line_index_new cs @ (if c = newline then [length cs] else [])"
  by (simp add: line_index_new_def)

lemma line_index_new_bound: "nl \<in> set (line_index_new cs) \<Longrightarrow> nl < length cs"
  by (auto simp: line_index_new_def set_zip)

lemma line_index_new_append:
  "\<exists>later. line_index_new (cs @ ds) = line_index_new cs @ later \<and> list_all (\<lambda>nl. length cs \<le> nl) later"
proof (induction ds rule: rev_induct)
  case (snoc d ds)
  then show ?case
    using line_index_new_snoc [of "cs @ ds" d] by auto
qed simp

lemma line_index_before:
  assumes "pos \<le> length cs"
  shows "takeWhile (\<lambda>nl. nl < pos) (line_index_new cs) = line_index_new (take pos cs)"
proof -
  obtain later where later: "line_index_new cs = line_index_new (take pos cs) @ later"
    "list_all (\<lambda>nl. pos \<le> nl) later"
    using line_index_new_append [of "take pos cs" "drop pos cs"] assms by (auto simp: min_absorb2)
  have "takeWhile (\<lambda>nl. nl < pos) later = []"
    using later(2) by (cases later) auto
  moreover have "\<forall>nl \<in> set (line_index_new (take pos cs)). nl < pos"
    using line_index_new_bound [of _ "take pos cs"] by fastforce
  ultimately show ?thesis by (simp add: later(1))
qed

lemma line_index_position:
  "length (line_index_new cs) + 1 = line_number cs (length cs)"
  "line_index_new cs \<noteq> [] \<Longrightarrow> last (line_index_new cs) + column_number cs (length cs) = length cs"
  "line_index_new cs = [] \<Longrightarrow> column_number cs (length cs) = length cs + 1"
proof -
  show "length (line_index_new cs) + 1 = line_number cs (length cs)"
    by (induction cs rule: rev_induct) (simp_all add: line_number_def line_index_new_snoc)
  show "line_index_new cs \<noteq> [] \<Longrightarrow> last (line_index_new cs) + column_number cs (length cs) = length cs"
    by (induction cs rule: rev_induct) (auto simp: column_number_def line_index_new_snoc split: if_splits)
  show "line_index_new cs = [] \<Longrightarrow> column_number cs (length cs) = length cs + 1"
    by (induction cs rule: rev_induct) (auto simp: column_number_def line_index_new_snoc split: if_splits)
qed

lemma line_at_position:
  assumes "pos \<le> length cs"
  shows "line_at (line_index_new cs) pos = (line_number cs pos, column_number cs pos)"
proof -
  define before where "before = take pos cs"
  have len: "length before = pos" using assms by (simp add: before_def)
  have take: "take (length (line_index_new before)) (line_index_new cs) = line_index_new before"
    using takeWhile_eq_take [of "\<lambda>nl. nl < pos" "line_index_new cs"] line_index_before [OF assms]
    by (simp add: before_def)
  have nth: "line_index_new before \<noteq> [] \<Longrightarrow>
      line_index_new cs ! (length (line_index_new before) - 1) = last (line_index_new before)"
    using nth_take [of "length (line_index_new before) - 1" "length (line_index_new before)" "line_index_new cs"]
    by (simp add: take last_conv_nth)
  have same: "line_number before pos = line_number cs pos" "column_number before pos = column_number cs pos"
    using assms by (simp_all add: line_number_def column_number_def before_def)
  moreover have "1 \<le> column_number cs pos" by (simp add: column_number_def)
  ultimately show ?thesis
    using line_index_position [of before, unfolded len] nth line_index_before [OF assms]
    by (auto simp: line_at_def Let_def before_def [symmetric])
qed

lemma slice_Cons: "a < b \<Longrightarrow> b \<le> length cs \<Longrightarrow> slice cs a b = cs ! a # slice cs (a + 1) b"
  by (simp add: slice_def Cons_nth_drop_Suc [symmetric] take_Cons')

lemma slice_snoc: "a \<le> b \<Longrightarrow> b < length cs \<Longrightarrow> slice cs a (b + 1) = slice cs a b @ [cs ! b]"
  by (simp add: slice_def Suc_diff_le take_Suc_conv_app_nth)

lemma slice_single: "a < length cs \<Longrightarrow> slice cs a (a + 1) = [cs ! a]"
  using slice_snoc [of a a cs] by (simp add: slice_def)

fun spells :: "token \<Rightarrow> chars \<Rightarrow> bool" where
  "spells BlockOpen s = (s = [open_brace])"
| "spells BlockClose s = (s = [close_brace])"
| "spells Newline s = (s \<in> {[newline], [carriage], [carriage, newline]})"
| "spells (EnvVar v) s = (s = [open_brace, dollar] @ v @ [close_brace])"
| "spells (Placeholder p) s = (s = [open_brace] @ p @ [close_brace])"
| "spells (Word w) s = (s = w)"
| "spells (QuotedString q) s = (s \<noteq> [] \<and> hd s \<in> {double_quote, backtick, angle})"
| "spells Whitespace s = False"
| "spells Comment s = False"

lemma lex_open_brace_spells:
  assumes "cs ! pos = open_brace" and "lex_open_brace cs pos = Some (t, pos')" and "pos < length cs"
  shows "spells t (slice cs pos pos')"
proof -
  define var where "var = scan_while (\<lambda>c. c \<noteq> close_brace \<and> c \<noteq> newline) cs (pos + 2)"
  define inner where
    "inner = scan_while (\<lambda>c. c \<noteq> close_brace \<and> c \<notin> {space, tab, newline, carriage}) cs (pos + 1)"
  have bounds: "pos + 2 \<le> var" "pos + 1 \<le> inner"
    unfolding var_def inner_def by (rule scan_while_bounds(1))+
  have "lex_open_brace cs pos =
      (if pos + 2 < length cs \<and> cs ! (pos + 1) = dollar \<and> char_at cs var close_brace
       then Some (EnvVar (slice cs (pos + 2) var), var + 1)
       else if char_at cs inner close_brace \<and> pos + 1 < inner then
         if \<not> is_glued_to_word cs (inner + 1) then Some (Placeholder (slice cs (pos + 1) inner), inner + 1) else None
       else Some (BlockOpen, pos + 1))"
    by (simp only: lex_open_brace_def Let_def var_def inner_def)
  with assms(2) consider
      "t = EnvVar (slice cs (pos + 2) var)" "pos' = var + 1" "char_at cs var close_brace" "cs ! (pos + 1) = dollar"
    | "t = Placeholder (slice cs (pos + 1) inner)" "pos' = inner + 1" "char_at cs inner close_brace"
    | "t = BlockOpen" "pos' = pos + 1"
    by (auto split: if_splits)
  then show ?thesis
  proof cases
    case 1
    then show ?thesis
      using bounds(1) assms(1) slice_Cons [of pos "var + 1" cs] slice_Cons [of "pos + 1" "var + 1" cs]
        slice_snoc [of "pos + 2" var cs] by (simp add: char_at_def)
  next
    case 2
    then show ?thesis
      using bounds(2) assms(1) slice_Cons [of pos "inner + 1" cs] slice_snoc [of "pos + 1" inner cs]
      by (simp add: char_at_def)
  next
    case 3
    then show ?thesis using assms slice_single [of pos cs] by simp
  qed
qed

lemma lex_step_spells:
  assumes "pos < length cs" and "lex_step lines cs pos = Inr (Some t, pos')"
  shows "spells t (slice cs pos pos')"
proof -
  have first: "slice cs pos pos' = cs ! pos # slice cs (pos + 1) pos'"
    using lex_step_progress [OF assms] by (intro slice_Cons) simp_all
  let ?c = "cs ! pos"
  consider "?c = newline" "t = Newline" "pos' = pos + 1"
    | "?c = carriage" "t = Newline" "pos' = (if char_at cs (pos + 1) newline then pos + 2 else pos + 1)"
    | "?c \<in> {double_quote, backtick, angle}" "\<exists>q. t = QuotedString q"
    | "?c = open_brace" "lex_open_brace cs pos = Some (t, pos')"
    | "?c = close_brace" "t = BlockClose" "pos' = pos + 1"
    | "lex_word cs pos = Inr (t, pos')"
    using assms(2)
    by (auto simp: lex_step_def Let_def try_bind_Inr_iff lex_heredoc_def lex_quoted_def lex_raw_quoted_def
        split: if_splits option.splits prod.splits)
  then show ?thesis
  proof cases
    case 2
    then show ?thesis
      using first slice_single [of "pos + 1" cs] by (auto simp: char_at_def slice_def split: if_splits)
  next
    case 4
    then show ?thesis using lex_open_brace_spells assms(1) by blast
  next
    case 6
    then show ?thesis by (auto simp: lex_word_def Let_def split: if_splits)
  qed (use first in \<open>auto simp: slice_def\<close>)
qed

definition well_spanned :: "chars \<Rightarrow> spanned \<Rightarrow> bool" where
  "well_spanned cs t \<longleftrightarrow>
     (case spanned_span t of l \<Rightarrow>
        loc_start l < loc_end l \<and> loc_end l \<le> length cs \<and>
        loc_line l = line_number cs (loc_start l) \<and> loc_column l = column_number cs (loc_start l) \<and>
        spells (spanned_value t) (slice cs (loc_start l) (loc_end l)))"

lemma tokenize_loop_spans:
  "tokenize_loop (line_index_new cs) cs pos = Inr tokens \<Longrightarrow>
    list_all (well_spanned cs) tokens \<and>
    sorted_wrt (\<lambda>a b. loc_end (spanned_span a) \<le> loc_start (spanned_span b)) tokens \<and>
    list_all (\<lambda>t. pos \<le> loc_start (spanned_span t)) tokens"
proof (induction "length cs - pos" arbitrary: pos tokens rule: less_induct)
  case less
  show ?case
  proof (cases "length cs \<le> pos")
    case True
    then show ?thesis using less.prems by (simp add: tokenize_loop.simps)
  next
    case False
    then obtain pushed pos' rest where step: "lex_step (line_index_new cs) cs pos = Inr (pushed, pos')"
      "tokenize_loop (line_index_new cs) cs pos' = Inr rest"
      "tokens = (case pushed of None \<Rightarrow> rest
        | Some t \<Rightarrow> \<lparr>spanned_value = t, spanned_span = span (line_index_new cs) pos pos'\<rparr> # rest)"
      using less.prems by (subst (asm) tokenize_loop.simps) (auto simp: try_bind_Inr_iff)
    have pos': "pos < pos'" "pos' \<le> length cs"
      using lex_step_progress [OF _ step(1)] False by simp_all
    have ih: "list_all (well_spanned cs) rest"
      "sorted_wrt (\<lambda>a b. loc_end (spanned_span a) \<le> loc_start (spanned_span b)) rest"
      "list_all (\<lambda>t. pos' \<le> loc_start (spanned_span t)) rest"
      using less.hyps [OF _ step(2)] pos' False by auto
    have after: "list_all (\<lambda>t. pos \<le> loc_start (spanned_span t)) rest"
      using ih(3) by (rule list.pred_mono_strong) (use pos' in simp)
    show ?thesis
    proof (cases pushed)
      case None
      then show ?thesis using step(3) ih after by simp
    next
      case (Some t)
      then have "well_spanned cs \<lparr>spanned_value = t, spanned_span = span (line_index_new cs) pos pos'\<rparr>"
        using lex_step_spells [of pos cs "line_index_new cs" t pos'] step(1) pos' False
        by (simp add: well_spanned_def span_def line_at_position)
      then show ?thesis
        using step(3) Some ih after by (simp add: span_def list_all_iff split: prod.splits)
    qed
  qed
qed

text \<open>
  C8: Every token stands for the text it points at. The spans of the tokens lie in the source, in
  order and without overlap; the line and column of each are those of its first character, counted
  from one; and the text a span covers is exactly what the token says: a word is that text, a
  placeholder or variable that text between its braces.
\<close>

theorem tokens_spell_their_spans:
  "case tokenize cs of
     Inl e \<Rightarrow> True
   | Inr tokens \<Rightarrow>
       list_all (well_spanned cs) tokens \<and>
       sorted_wrt (\<lambda>a b. loc_end (spanned_span a) \<le> loc_start (spanned_span b)) tokens"
  using tokenize_loop_spans [of cs 0] by (auto simp: tokenize_def split: sum.splits)

section \<open>Printed tokens are read back\<close>

definition escape_string :: "chars \<Rightarrow> chars" where
  "escape_string s =
     concat (map (\<lambda>c. if c = backslash \<or> c = double_quote then [backslash, c] else [c]) s)"

definition print_token :: "token \<Rightarrow> chars" where
  "print_token t =
     (case t of
        QuotedString s \<Rightarrow> [double_quote] @ escape_string s @ [double_quote]
      | Newline \<Rightarrow> [newline]
      | _ \<Rightarrow> token_display t)"

definition print_tokens :: "token list \<Rightarrow> chars" where
  "print_tokens ts = concat (map (\<lambda>t. print_token t @ [space]) ts)"

definition plain_word :: "chars \<Rightarrow> bool" where
  "plain_word w \<longleftrightarrow>
     w \<noteq> [] \<and> hd w \<noteq> backtick \<and> hd w \<noteq> angle \<and> list_all (\<lambda>c. c \<notin> set ends_a_word \<and> c \<noteq> open_brace) w"

definition placeholder_name :: "chars \<Rightarrow> bool" where
  "placeholder_name p \<longleftrightarrow>
     p \<noteq> [] \<and> hd p \<noteq> dollar \<and> list_all (\<lambda>c. c \<notin> {close_brace, space, tab, newline, carriage}) p"

fun printable :: "token \<Rightarrow> bool" where
  "printable (Word w) = plain_word w"
| "printable (Placeholder p) = placeholder_name p"
| "printable (EnvVar v) = list_all (\<lambda>c. c \<notin> {close_brace, newline}) v"
| "printable Whitespace = False"
| "printable Comment = False"
| "printable _ = True"

lemma scan_while_append:
  assumes "list_all p xs" and "\<not> p y"
  shows "scan_while p (pre @ xs @ y # rest) (length pre) = length pre + length xs"
  using assms by (simp add: scan_while_def list_all_iff takeWhile_append2)

lemma slice_append: "a = length pre \<Longrightarrow> b = length pre + length xs \<Longrightarrow> slice (pre @ xs @ rest) a b = xs"
  by (simp add: slice_def)

lemma unescape_escape: "unescape_string (escape_string s) = s"
  by (induction s) (simp_all add: escape_string_def)

lemma scan_quoted_escape:
  "scan_quoted (pre @ escape_string s @ double_quote # rest) (length pre) =
    (escape_string s, length pre + length (escape_string s))"
proof (induction s arbitrary: pre)
  case Nil
  then show ?case by (subst scan_quoted.simps) (simp add: escape_string_def)
next
  case (Cons c s)
  define esc where "esc = (if c = backslash \<or> c = double_quote then [backslash, c] else [c])"
  have escape: "escape_string (c # s) = esc @ escape_string s"
    by (simp add: escape_string_def esc_def)
  have ih: "scan_quoted ((pre @ esc) @ escape_string s @ double_quote # rest) (length (pre @ esc)) =
      (escape_string s, length (pre @ esc) + length (escape_string s))"
    by (rule Cons.IH)
  show ?case
  proof (cases "c = backslash \<or> c = double_quote")
    case True
    then have esc: "esc = [backslash, c]" by (simp add: esc_def)
    show ?thesis
      using ih unfolding escape esc by (subst scan_quoted.simps) (simp add: nth_append)
  next
    case False
    then have esc: "esc = [c]" by (simp add: esc_def)
    show ?thesis
      using ih False unfolding escape esc by (subst scan_quoted.simps) (simp add: nth_append)
  qed
qed

lemma scan_word_plain:
  assumes "list_all (\<lambda>c. c \<notin> set ends_a_word \<and> c \<noteq> open_brace) w"
  shows "scan_word (pre @ w @ space # rest) (length pre) = length pre + length w"
  using assms
proof (induction w arbitrary: pre)
  case Nil
  then show ?case by (subst scan_word.simps) (simp add: ends_a_word_def)
next
  case (Cons c w)
  then show ?case
    using Cons.IH [of "pre @ [c]"] by (subst scan_word.simps) (simp add: nth_append)
qed

lemma lex_word_plain:
  assumes "plain_word w"
  shows "lex_word (pre @ w @ space # rest) (length pre) = Inr (Word w, length pre + length w)"
  using assms scan_word_plain [of w pre rest]
  by (simp add: lex_word_def Let_def slice_append plain_word_def)

lemma lex_quoted_escape:
  "lex_quoted (pre @ double_quote # escape_string s @ double_quote # rest) (length pre) =
    (QuotedString s, length pre + length (escape_string s) + 2)"
  using scan_quoted_escape [of "pre @ [double_quote]" s rest] by (simp add: lex_quoted_def unescape_escape)

lemma lex_open_brace_env:
  assumes "list_all (\<lambda>c. c \<notin> {close_brace, newline}) v"
  shows "lex_open_brace (pre @ [open_brace, dollar] @ v @ close_brace # rest) (length pre) =
    Some (EnvVar v, length pre + length v + 3)"
proof -
  have scan: "scan_while (\<lambda>c. c \<noteq> close_brace \<and> c \<noteq> newline)
      ((pre @ [open_brace, dollar]) @ v @ close_brace # rest) (length (pre @ [open_brace, dollar])) =
      length (pre @ [open_brace, dollar]) + length v"
    using assms by (intro scan_while_append) (auto simp: list_all_iff)
  have cut: "slice (pre @ open_brace # dollar # v @ close_brace # rest)
      (Suc (Suc (length pre))) (Suc (Suc (length pre + length v))) = v"
    using slice_append [of "length pre + 2" "pre @ [open_brace, dollar]" "length pre + 2 + length v" v "close_brace # rest"]
    by simp
  show ?thesis
    using scan by (simp add: lex_open_brace_def Let_def char_at_def nth_append cut numeral_3_eq_3)
qed

lemma lex_open_brace_placeholder:
  assumes "placeholder_name p"
  shows "lex_open_brace (pre @ open_brace # p @ close_brace # space # rest) (length pre) =
    Some (Placeholder p, length pre + length p + 2)"
proof -
  have scan: "scan_while (\<lambda>c. c \<noteq> close_brace \<and> c \<notin> {space, tab, newline, carriage})
      ((pre @ [open_brace]) @ p @ close_brace # space # rest) (length (pre @ [open_brace])) =
      length (pre @ [open_brace]) + length p"
    using assms by (intro scan_while_append) (auto simp: list_all_iff placeholder_name_def)
  have cut: "slice (pre @ open_brace # p @ close_brace # space # rest) (Suc (length pre)) (Suc (length pre + length p)) = p"
    using slice_append [of "length pre + 1" "pre @ [open_brace]" "length pre + 1 + length p" p "close_brace # space # rest"]
    by simp
  obtain d p' where p: "p = d # p'" "d \<noteq> dollar"
    using assms by (cases p) (auto simp: placeholder_name_def)
  have glued: "\<not> is_glued_to_word (pre @ open_brace # p @ close_brace # space # rest) (Suc (Suc (length pre + length p)))"
    by (simp add: is_glued_to_word_def nth_append ends_a_word_def)
  have no_var: "(pre @ open_brace # p @ close_brace # space # rest) ! Suc (length pre) \<noteq> dollar"
    using p by (simp add: nth_append)
  have "p \<noteq> []" using p by simp
  then show ?thesis
    using scan glued no_var cut by (simp add: lex_open_brace_def Let_def char_at_def nth_append)
qed

lemma lex_open_brace_block:
  "lex_open_brace (pre @ open_brace # space # rest) (length pre) = Some (BlockOpen, length pre + 1)"
proof -
  have "scan_while (\<lambda>c. c \<noteq> close_brace \<and> c \<notin> {space, tab, newline, carriage})
      ((pre @ [open_brace]) @ [] @ space # rest) (length (pre @ [open_brace])) = length (pre @ [open_brace]) + length ([] :: chars)"
    by (rule scan_while_append) simp_all
  then show ?thesis
    by (simp add: lex_open_brace_def Let_def char_at_def nth_append)
qed

lemma lex_step_print:
  assumes "printable t"
  shows "lex_step lines (pre @ print_token t @ space # rest) (length pre) =
    Inr (Some t, length pre + length (print_token t))"
proof (cases t)
  case (QuotedString s)
  then show ?thesis
    using lex_quoted_escape [of pre s "space # rest"]
    by (simp add: lex_step_def print_token_def Let_def nth_append)
next
  case (EnvVar v)
  then show ?thesis
    using lex_open_brace_env [of v pre "space # rest"] assms
    by (simp add: lex_step_def print_token_def Let_def nth_append)
next
  case (Placeholder p)
  then show ?thesis
    using lex_open_brace_placeholder [of p pre rest] assms
    by (simp add: lex_step_def print_token_def Let_def nth_append)
next
  case (Word w)
  then obtain c w' where w: "w = c # w'" "c \<notin> set ends_a_word" "c \<noteq> open_brace" "c \<noteq> backtick" "c \<noteq> angle"
    using assms by (cases w) (auto simp: plain_word_def)
  then have nth: "(pre @ w @ space # rest) ! length pre = c" by (simp add: nth_append)
  have "lex_word (pre @ w @ space # rest) (length pre) = Inr (Word w, length pre + length w)"
    using lex_word_plain assms Word by simp
  then show ?thesis
    using w(2-5) Word by (simp add: lex_step_def print_token_def Let_def nth ends_a_word_def)
qed (use assms lex_open_brace_block [of pre rest] in \<open>simp_all add: lex_step_def print_token_def Let_def nth_append\<close>)

lemma tokenize_loop_print:
  assumes "list_all printable ts"
  shows "\<exists>tokens. tokenize_loop lines (pre @ print_tokens ts) (length pre) = Inr tokens \<and> map spanned_value tokens = ts"
  using assms
proof (induction ts arbitrary: pre)
  case Nil
  then show ?case by (simp add: print_tokens_def tokenize_loop.simps)
next
  case (Cons t ts)
  let ?p = "print_token t"
  let ?cs = "pre @ print_tokens (t # ts)"
  have cs: "?cs = pre @ ?p @ space # print_tokens ts" "?cs = (pre @ ?p) @ space # print_tokens ts"
    "?cs = (pre @ ?p @ [space]) @ print_tokens ts"
    by (simp_all add: print_tokens_def)
  have step: "lex_step lines ?cs (length pre) = Inr (Some t, length (pre @ ?p))"
    unfolding cs(1) using lex_step_print [of t lines pre "print_tokens ts"] Cons.prems by simp
  have skip: "lex_step lines ?cs (length (pre @ ?p)) = Inr (None, length (pre @ ?p @ [space]))"
    unfolding cs(2) by (simp add: lex_step_def Let_def nth_append)
  obtain tokens where ih: "tokenize_loop lines ?cs (length (pre @ ?p @ [space])) = Inr tokens" "map spanned_value tokens = ts"
    unfolding cs(3) using Cons.IH [of "pre @ ?p @ [space]"] Cons.prems by auto
  have bounds: "\<not> length ?cs \<le> length pre" "\<not> length ?cs \<le> length (pre @ ?p)"
    by (simp_all add: cs(1))
  have "tokenize_loop lines ?cs (length (pre @ ?p)) = Inr tokens"
    using skip ih bounds(2) by (subst tokenize_loop.simps) simp
  then show ?case
    using step ih(2) bounds(1) by (subst tokenize_loop.simps) simp
qed

text \<open>
  C9: Written tokens are read back. Any sequence of words, placeholders, variables, braces, line
  ends and strings of any content whatsoever, printed in order with a space after each and the
  strings quoted and escaped, tokenizes to exactly that sequence.
\<close>

theorem printed_tokens_read_back:
  assumes "list_all printable ts"
  shows "\<exists>tokens. tokenize (print_tokens ts) = Inr tokens \<and> map spanned_value tokens = ts"
  using tokenize_loop_print [OF assms, of "line_index_new (print_tokens ts)" "[]"] by (simp add: tokenize_def)

theorem printed_tokens_read_back_witness:
  "\<exists>tokens. tokenize (print_tokens [Word (ascii ''respond''), QuotedString (ascii [CHR 0x5C, CHR 0x22]), BlockOpen]) =
       Inr tokens \<and>
     map spanned_value tokens = [Word (ascii ''respond''), QuotedString (ascii [CHR 0x5C, CHR 0x22]), BlockOpen]"
  by (rule printed_tokens_read_back) (simp add: plain_word_def ascii_def ends_a_word_def)

section \<open>Failures\<close>

text \<open>
  C40: A heredoc with an empty body brings the lexer down. For every marker, the marker alone on the line
  after \<open><<MARKER\<close> makes the slice in front of the marker start after it ends: tokenizing panics
  instead of answering a value or an error.
\<close>

theorem empty_heredoc_panics:
  assumes "marker \<noteq> []" and "list_all marker_char marker"
  shows "tokenize ([angle, angle] @ marker @ [newline] @ marker) = Inl SlicePanic"
proof -
  let ?cs = "[angle, angle] @ marker @ [newline] @ marker"
  let ?lines = "line_index_new ?cs"
  have ws: "\<not> is_whitespace c" if "marker_char c" for c
    using that by (auto simp: marker_char_def is_whitespace_def)
  have marker_ws: "list_all (\<lambda>c. \<not> is_whitespace c) marker"
    using assms(2) ws by (auto simp: list_all_iff)
  have plain: "c \<noteq> angle \<and> c \<noteq> newline \<and> c \<noteq> carriage" if "c \<in> set marker" for c
    using that assms(2) by (auto simp: list_all_iff marker_char_def)
  have two: "length [angle, angle] = 2" and nl: "is_whitespace newline"
    by (simp_all add: is_whitespace_def)
  have first: "\<not> char_at ?cs 2 angle"
    using assms(1) plain by (cases marker) (auto simp: char_at_def)
  have marker_end: "scan_while (\<lambda>c. \<not> is_whitespace c) ?cs 2 = 2 + length marker"
    using scan_while_append [OF marker_ws, of newline "[angle, angle]" marker, unfolded two] nl by simp
  have marker: "slice ?cs 2 (2 + length marker) = marker"
    using slice_append [of 2 "[angle, angle]" "2 + length marker" marker "newline # marker"] by simp
  have line_end: "scan_while (\<lambda>c. c \<noteq> newline) ?cs (2 + length marker) = 2 + length marker"
    using scan_while_append [of "\<lambda>c. c \<noteq> newline" "[]" newline "[angle, angle] @ marker" marker] by simp
  have word: "scan_while (\<lambda>c. \<not> is_whitespace c) ?cs (2 + length marker + 1) = 2 + length marker + 1 + length marker"
    using marker_ws by (simp add: scan_while_def list_all_iff takeWhile_eq_all_conv [THEN iffD2])
  have body: "slice ?cs (2 + length marker + 1) (2 + length marker + 1 + length marker) = marker"
    using slice_append [of "2 + length marker + 1" "[angle, angle] @ marker @ [newline]" "2 + length marker + 1 + length marker" marker "[]"]
    by simp
  have trim: "trim_end_carriages marker = marker"
    using plain by (cases "rev marker") (auto simp: trim_end_carriages_def rev_eq_Cons_iff)
  have nth: "?cs ! (2 + length marker + 1) = hd marker"
    using assms(1) by (simp add: nth_append hd_conv_nth)
  have "heredoc_end marker ?cs (2 + length marker + 1) = Some (2 + length marker + 1 + length marker)"
    using assms(1) marker_ws nth word body trim
    by (subst heredoc_end.simps) (simp add: Let_def str_ends_with_def hd_in_set list_all_iff)
  moreover have "heredoc_padding marker marker = Inl SlicePanic"
    using plain by (auto simp: heredoc_padding_def rfind_newline_def)
  then have "finalize_heredoc marker marker open_line = Inl SlicePanic" for open_line
    by (simp add: finalize_heredoc_def)
  moreover have "\<not> length ?cs \<le> 2 + length marker" by simp
  ultimately have "lex_heredoc ?lines ?cs 0 = Inl SlicePanic"
    by (simp only: lex_heredoc_def Let_def add_0 first marker_end marker line_end body assms if_False
        not_True_eq_False option.case try_bind_simps)
  then show ?thesis
    by (simp add: tokenize_def tokenize_loop.simps [of _ _ 0] lex_step_def char_at_def)
qed

theorem empty_heredoc_panics_witness:
  "tokenize ([angle, angle] @ ascii ''EOF'' @ [newline] @ ascii ''EOF'') = Inl SlicePanic"
  by (rule empty_heredoc_panics) (simp_all add: ascii_def marker_char_def)

lemma scan_while_cong:
  "(\<And>c. c \<in> set cs \<Longrightarrow> p c = q c) \<Longrightarrow> scan_while p cs pos = scan_while q cs pos"
  by (auto simp: scan_while_def dest: in_set_dropD intro!: arg_cong [of _ _ length] takeWhile_cong)

lemma scan_while_holds: "pos \<le> i \<Longrightarrow> i < scan_while p cs pos \<Longrightarrow> p (cs ! i)"
proof -
  assume i: "pos \<le> i" "i < scan_while p cs pos"
  then have k: "i - pos < length (takeWhile p (drop pos cs))"
    by (simp add: scan_while_def)
  then have "i - pos < length (drop pos cs)"
    using length_takeWhile_le [of p "drop pos cs"] by linarith
  then have "takeWhile p (drop pos cs) ! (i - pos) = cs ! i"
    using k i(1) by (simp add: takeWhile_nth)
  then show "p (cs ! i)"
    using nth_mem [OF k] set_takeWhileD by metis
qed

lemma scan_while_unique:
  assumes "pos \<le> i" and "i < length cs" and "\<not> p (cs ! i)" and "\<And>k. pos \<le> k \<Longrightarrow> k < i \<Longrightarrow> p (cs ! k)"
  shows "scan_while p cs pos = i"
proof (rule antisym)
  show "scan_while p cs pos \<le> i"
    using scan_while_holds [of pos i p cs] assms(1,3) by force
  show "i \<le> scan_while p cs pos"
  proof (rule ccontr)
    assume "\<not> i \<le> scan_while p cs pos"
    then show False
      using scan_while_stop [of p cs pos] scan_while_bounds(1) [of pos p cs] assms(2,4) by simp
  qed
qed

lemma glued_placeholder_is_a_word:
  assumes "cs ! pos = open_brace" and "pos < length cs" and "lex_open_brace cs pos = None"
    and "form_feed \<notin> set cs"
  shows "pos < scan_word cs pos"
proof -
  define inner where
    "inner = scan_while (\<lambda>c. c \<noteq> close_brace \<and> c \<notin> {space, tab, newline, carriage}) cs (pos + 1)"
  have inner: "char_at cs inner close_brace" "pos + 1 < inner"
    and no_var: "\<not> (pos + 2 < length cs \<and> cs ! (pos + 1) = dollar \<and>
      char_at cs (scan_while (\<lambda>c. c \<noteq> close_brace \<and> c \<noteq> newline) cs (pos + 2)) close_brace)"
    using assms(3) unfolding lex_open_brace_def Let_def inner_def [symmetric] by (auto split: if_splits)
  have "\<not> char_at cs (pos + 1) dollar"
  proof
    assume dollar: "char_at cs (pos + 1) dollar"
    then have "inner \<noteq> pos + 1" using inner by simp
    have "scan_while (\<lambda>c. c \<noteq> close_brace \<and> c \<noteq> newline) cs (pos + 2) = inner"
    proof (rule scan_while_unique)
      fix k
      assume "pos + 2 \<le> k" "k < inner"
      then show "cs ! k \<noteq> close_brace \<and> cs ! k \<noteq> newline"
        using scan_while_holds [of "pos + 1" k _ cs] unfolding inner_def by fastforce
    qed (use inner in \<open>simp_all add: char_at_def\<close>)
    then show False
      using no_var inner dollar by (auto simp: char_at_def)
  qed
  moreover have "scan_while (\<lambda>c. c \<noteq> close_brace \<and> c \<notin> {space, tab, carriage, newline, form_feed}) cs (pos + 1) = inner"
    unfolding inner_def using assms(4) by (intro scan_while_cong) auto
  ultimately have "scan_word cs pos = scan_word cs (inner + 1)"
    using assms(1,2) inner(1) by (subst scan_word.simps) (simp add: ends_a_word_def Let_def)
  then show ?thesis
    using scan_word_bounds [of "inner + 1" cs] inner(2) by simp
qed

lemma lex_step_succeeds:
  assumes "pos < length cs" and "\<not> (char_at cs pos angle \<and> char_at cs (pos + 1) angle)" and "form_feed \<notin> set cs"
  shows "\<exists>r. lex_step lines cs pos = Inr r"
proof -
  have word: "pos < scan_word cs pos" if "cs ! pos \<notin> set ends_a_word" "cs ! pos \<noteq> open_brace"
    using that assms(1) scan_word_bounds [of "pos + 1" cs] by (subst scan_word.simps) simp
  show ?thesis
    using assms word glued_placeholder_is_a_word [of cs pos]
    by (auto simp: lex_step_def Let_def lex_word_def ends_a_word_def char_at_def split: option.splits prod.splits)
qed

text \<open>
  Only heredocs and form feeds can make the lexer fail. A source in which no two \<open><\<close> are adjacent
  and no form feed occurs always tokenizes, however its quotes and braces are balanced.
\<close>

theorem tokenize_total_on_plain_sources:
  assumes "form_feed \<notin> set cs" and "\<And>i. \<not> (char_at cs i angle \<and> char_at cs (i + 1) angle)"
  shows "\<exists>tokens. tokenize cs = Inr tokens"
proof -
  have "\<exists>tokens. tokenize_loop lines cs pos = Inr tokens" for lines pos
  proof (induction "length cs - pos" arbitrary: pos rule: less_induct)
    case less
    show ?case
    proof (cases "length cs \<le> pos")
      case True
      then show ?thesis by (simp add: tokenize_loop.simps)
    next
      case False
      then obtain pushed pos' where step: "lex_step lines cs pos = Inr (pushed, pos')"
        using lex_step_succeeds [OF _ assms(2) assms(1), of pos lines] by fastforce
      then obtain tokens where "tokenize_loop lines cs pos' = Inr tokens"
        using less [of pos'] lex_step_progress [OF _ step] False by fastforce
      then show ?thesis
        using step False by (subst tokenize_loop.simps) simp
    qed
  qed
  then show ?thesis by (simp add: tokenize_def)
qed

theorem tokenize_total_on_plain_sources_witness:
  "\<exists>tokens. tokenize (ascii ''a { {b'') = Inr tokens"
  by (rule tokenize_total_on_plain_sources)
    (simp_all add: ascii_def char_at_def nth_Cons split: nat.splits)

end
