(* ===== verification/Conditions.thy ===== *)
theory Conditions
  imports Utf8
begin

text \<open>
  Conditional requests of the file server: the preconditions and the tags they compare
  (\<open>pingclair-static/src/file_server/preconditions.rs\<close> and \<open>validators.rs\<close>), and the byte range a
  request asks for (\<open>serve.rs\<close>, \<open>parse_range\<close>). A header map answers the values of a field in order
  of arrival; field names are lower-case, as the \<open>http\<close> crate keeps them. The conversions of header
  values and the date parser are third-party and come in \<open>http_api\<close>. A time is in nanoseconds from
  the epoch. \<open>None\<close> from \<open>derive\<close> is the panic of an \<open>expect\<close>.
\<close>

section \<open>Requests\<close>

type_synonym header_map = "bytes \<Rightarrow> bytes list"
type_synonym system_time = int
type_synonym response_policy = "nat \<Rightarrow> header_map \<Rightarrow> bool \<times> header_map"

record http_api =
  value_to_str :: "bytes \<Rightarrow> bytes option"
  value_try_from :: "bytes \<Rightarrow> bytes option"
  parse_http_date :: "bytes \<Rightarrow> system_time option"

definition hm_get :: "bytes \<Rightarrow> header_map \<Rightarrow> bytes option" where
  "hm_get name headers = (case headers name of [] \<Rightarrow> None | v # _ \<Rightarrow> Some v)"

definition hm_contains_key :: "bytes \<Rightarrow> header_map \<Rightarrow> bool" where
  "hm_contains_key name headers \<longleftrightarrow> headers name \<noteq> []"

definition hm_insert :: "bytes \<Rightarrow> bytes \<Rightarrow> header_map \<Rightarrow> header_map" where
  "hm_insert name v headers = headers(name := [v])"

record file_request =
  request_method :: bytes
  request_headers :: header_map
  request_policy :: "response_policy option"

definition file_request_new :: "bytes \<Rightarrow> header_map \<Rightarrow> file_request" where
  "file_request_new method headers =
     \<lparr>request_method = method, request_headers = headers, request_policy = None\<rparr>"

definition with_response_policy :: "response_policy \<Rightarrow> file_request \<Rightarrow> file_request" where
  "with_response_policy policy request = request\<lparr>request_policy := Some policy\<rparr>"

definition request_field :: "http_api \<Rightarrow> bytes \<Rightarrow> file_request \<Rightarrow> bytes option" where
  "request_field api name request =
     (case hm_get name (request_headers request) of None \<Rightarrow> None | Some v \<Rightarrow> value_to_str api v)"

definition request_range :: "http_api \<Rightarrow> file_request \<Rightarrow> bytes option" where
  "request_range api request = request_field api ''range'' request"

definition request_if_range :: "http_api \<Rightarrow> file_request \<Rightarrow> bytes option" where
  "request_if_range api request = request_field api ''if-range'' request"

definition compares_entity_tags :: "file_request \<Rightarrow> bool" where
  "compares_entity_tags request \<longleftrightarrow>
     hm_contains_key ''if-match'' (request_headers request) \<or>
     hm_contains_key ''if-none-match'' (request_headers request)"

definition is_retrieval :: "file_request \<Rightarrow> bool" where
  "is_retrieval request \<longleftrightarrow> request_method request = ''GET'' \<or> request_method request = ''HEAD''"

definition has_preconditions :: "file_request \<Rightarrow> bool" where
  "has_preconditions request \<longleftrightarrow>
     list_ex (\<lambda>name. hm_contains_key name (request_headers request))
       [''if-match'', ''if-none-match'', ''if-modified-since'', ''if-unmodified-since'']"

section \<open>Evaluation\<close>

datatype precondition = Proceed | NotModified | Failed
datatype comparison = Strong | Weak

definition seconds :: "system_time \<Rightarrow> nat" where
  "seconds t = (if t < 0 then 0 else nat (t div 1000000000))"

definition date_field :: "http_api \<Rightarrow> file_request \<Rightarrow> bytes \<Rightarrow> nat option" where
  "date_field api request name =
     (case request_field api name request of
        None \<Rightarrow> None
      | Some v \<Rightarrow> map_option seconds (parse_http_date api (str_trim v)))"

definition split_weak :: "bytes \<Rightarrow> bool \<times> bytes" where
  "split_weak tag =
     (case strip_prefix ''W/'' tag of Some opaque \<Rightarrow> (True, opaque) | None \<Rightarrow> (False, tag))"

definition trim_ascii_start :: "bytes \<Rightarrow> bytes" where
  "trim_ascii_start s = dropWhile is_ascii_whitespace s"

definition trim_ascii :: "bytes \<Rightarrow> bytes" where
  "trim_ascii s = rev (dropWhile is_ascii_whitespace (rev (trim_ascii_start s)))"

definition position :: "('a \<Rightarrow> bool) \<Rightarrow> 'a list \<Rightarrow> nat option" where
  "position P xs =
     (let n = length (takeWhile (\<lambda>x. \<not> P x) xs) in if n < length xs then Some n else None)"

abbreviation dquote :: byte where
  "dquote \<equiv> CHR 0x22"

text \<open>Where the quoted tag in front of \<open>tail\<close> ends, counted after its opening quote.\<close>

definition tag_end :: "bytes \<Rightarrow> nat option" where
  "tag_end tail =
     (case strip_prefix [dquote] tail of None \<Rightarrow> None | Some inner \<Rightarrow> position (\<lambda>b. b = dquote) inner)"

definition skip_comma :: "bytes \<Rightarrow> bytes" where
  "skip_comma rest =
     trim_ascii_start
       (case strip_prefix '','' (trim_ascii_start rest) of Some r \<Rightarrow> r | None \<Rightarrow> trim_ascii_start rest)"

lemma length_trim_ascii_start: "length (trim_ascii_start s) \<le> length s"
  by (simp add: trim_ascii_start_def length_dropWhile_le)

lemma length_skip_comma: "length (skip_comma s) \<le> length s"
  using length_trim_ascii_start [of s] length_trim_ascii_start [of "tl (trim_ascii_start s)"]
    length_trim_ascii_start [of "trim_ascii_start s"]
  by (cases "trim_ascii_start s") (auto simp: skip_comma_def strip_prefix_def)

lemma length_split_weak: "length (snd (split_weak s)) \<le> length s"
  by (auto simp: split_weak_def strip_prefix_def)

lemma tag_end_Some: "tag_end tail = Some n \<Longrightarrow> n + 2 \<le> length tail"
  by (cases tail) (auto simp: tag_end_def strip_prefix_def position_def Let_def split: if_splits)

function tag_line_matches :: "comparison \<Rightarrow> bool \<Rightarrow> bytes \<Rightarrow> bytes \<Rightarrow> bool" where
  "tag_line_matches comparison current_weak current rest =
     (let (weak, tail) = split_weak (skip_comma rest)
      in case tag_end tail of
           None \<Rightarrow> False
         | Some n \<Rightarrow>
             (let opaque = take (n + 2) tail;
                  matched = (case comparison of
                               Strong \<Rightarrow> \<not> weak \<and> \<not> current_weak \<and> opaque = current
                             | Weak \<Rightarrow> opaque = current)
              in if matched then True
                 else tag_line_matches comparison current_weak current (drop (n + 2) tail)))"
  by pat_completeness auto
termination
proof (relation "measure (\<lambda>(_, _, _, rest). length rest)", goal_cases)
  case (2 comparison current_weak current rest p weak tail n opaque matched)
  then have "tail = snd (split_weak (skip_comma rest))" by (metis snd_conv)
  then have "length tail \<le> length rest" "n + 2 \<le> length tail"
    using length_split_weak [of "skip_comma rest"] length_skip_comma [of rest] tag_end_Some [OF 2(3)] by auto
  then show ?case by simp
qed simp

declare tag_line_matches.simps [simp del]

definition any_tag_matches :: "header_map \<Rightarrow> bytes \<Rightarrow> bytes \<Rightarrow> comparison \<Rightarrow> bool" where
  "any_tag_matches headers name etag comparison =
     (let (current_weak, current) = split_weak etag
      in list_ex (\<lambda>line. if trim_ascii line = ''*'' then True
                         else tag_line_matches comparison current_weak current line) (headers name))"

definition evaluate :: "http_api \<Rightarrow> file_request \<Rightarrow> bytes \<Rightarrow> system_time option \<Rightarrow> precondition" where
  "evaluate api request etag modified =
     (let headers = request_headers request in
      if (if hm_contains_key ''if-match'' headers then \<not> any_tag_matches headers ''if-match'' etag Strong
          else (case date_field api request ''if-unmodified-since'' of
                  None \<Rightarrow> False
                | Some since \<Rightarrow> (case modified of None \<Rightarrow> False | Some modified \<Rightarrow> since < seconds modified)))
      then Failed
      else if hm_contains_key ''if-none-match'' headers then
        (if any_tag_matches headers ''if-none-match'' etag Weak
         then (if is_retrieval request then NotModified else Failed) else Proceed)
      else if is_retrieval request \<and>
          (case date_field api request ''if-modified-since'' of
             None \<Rightarrow> False
           | Some since \<Rightarrow> (case modified of None \<Rightarrow> False | Some modified \<Rightarrow> seconds modified \<le> since))
      then NotModified
      else Proceed)"

section \<open>Entity tags\<close>

record entity_tags =
  tag_identity :: bytes
  tag_br :: bytes
  tag_zstd :: bytes
  tag_gzip :: bytes
  tag_sidecar_br :: bytes
  tag_sidecar_zstd :: bytes
  tag_sidecar_gzip :: bytes

definition base36_digits :: bytes where
  "base36_digits = ''0123456789abcdefghijklmnopqrstuvwxyz''"

function base36_loop :: "nat \<Rightarrow> bytes \<Rightarrow> bytes" where
  "base36_loop n digits =
     (let digits = digits @ [base36_digits ! (n mod 36)]
      in if n div 36 = 0 then digits else base36_loop (n div 36) digits)"
  by pat_completeness auto
termination
  by (relation "measure fst") auto

declare base36_loop.simps [simp del]

definition base36 :: "nat \<Rightarrow> bytes" where
  "base36 n = rev (base36_loop n [])"

definition etagc :: "byte \<Rightarrow> bool" where
  "etagc b \<longleftrightarrow> byte_val b = 0x21 \<or> (0x23 \<le> byte_val b \<and> byte_val b \<le> 0x7e) \<or> 0x80 \<le> byte_val b"

text \<open>A parsed sidecar tag is the text it was read from.\<close>

definition sidecar_tag_parse :: "bytes \<Rightarrow> bytes option" where
  "sidecar_tag_parse tag =
     (let opaque = (case strip_prefix ''W/'' tag of Some opaque \<Rightarrow> opaque | None \<Rightarrow> tag)
      in case strip_prefix [dquote] opaque of
           None \<Rightarrow> None
         | Some rest \<Rightarrow>
             (case strip_suffix [dquote] rest of
                None \<Rightarrow> None
              | Some inner \<Rightarrow> if list_all etagc inner then Some tag else None))"

text \<open>The first sidecar file that holds a tag; \<open>read_to_string\<close> is the filesystem's.\<close>

fun read_sidecar_etag :: "(bytes \<Rightarrow> bytes option) \<Rightarrow> bytes \<Rightarrow> bytes list \<Rightarrow> bytes option" where
  "read_sidecar_etag read_to_string file_path [] = None"
| "read_sidecar_etag read_to_string file_path (extension # extensions) =
     (let sidecar = file_path @ (if str_starts_with extension ''.'' then [] else ''.'') @ extension
      in case read_to_string sidecar of
           None \<Rightarrow> read_sidecar_etag read_to_string file_path extensions
         | Some contents \<Rightarrow>
             (let v = str_trim contents
              in if v = [] then read_sidecar_etag read_to_string file_path extensions
                 else
                   (let tag = (if str_starts_with v [dquote] \<or> str_starts_with v ''W/'' then v
                               else [dquote] @ v @ [dquote])
                    in case sidecar_tag_parse tag of
                         Some tag \<Rightarrow> Some tag
                       | None \<Rightarrow> read_sidecar_etag read_to_string file_path extensions)))"

definition tag_header :: "http_api \<Rightarrow> bytes \<Rightarrow> bytes option" where
  "tag_header api tag = value_try_from api tag"

definition coded :: "http_api \<Rightarrow> bytes \<Rightarrow> bytes \<Rightarrow> bytes option" where
  "coded api identity coding =
     (let stem = (case strip_suffix [dquote] identity of Some stem \<Rightarrow> stem | None \<Rightarrow> identity)
      in tag_header api (stem @ ''-'' @ coding @ [dquote]))"

definition derive :: "http_api \<Rightarrow> nat \<Rightarrow> nat \<Rightarrow> bytes option \<Rightarrow> nat \<Rightarrow> entity_tags option" where
  "derive api file_size mtime_ns sidecar gzip_level =
     (let identity = (case sidecar of
                        None \<Rightarrow> [dquote] @ base36 mtime_ns @ ''-'' @ base36 file_size @ [dquote]
                      | Some tag \<Rightarrow> tag)
      in case coded api identity ''br'' of None \<Rightarrow> None | Some br \<Rightarrow>
        (case coded api identity ''zstd'' of None \<Rightarrow> None | Some zstd \<Rightarrow>
        (case coded api identity (''gzip-'' @ show_nat gzip_level) of None \<Rightarrow> None | Some gzip \<Rightarrow>
        (case coded api identity ''sidecar-br'' of None \<Rightarrow> None | Some sidecar_br \<Rightarrow>
        (case coded api identity ''sidecar-zstd'' of None \<Rightarrow> None | Some sidecar_zstd \<Rightarrow>
        (case coded api identity ''sidecar-gzip'' of None \<Rightarrow> None | Some sidecar_gzip \<Rightarrow>
        (case tag_header api identity of None \<Rightarrow> None | Some identity \<Rightarrow>
           Some \<lparr>tag_identity = identity, tag_br = br, tag_zstd = zstd, tag_gzip = gzip,
                 tag_sidecar_br = sidecar_br, tag_sidecar_zstd = sidecar_zstd,
                 tag_sidecar_gzip = sidecar_gzip\<rparr>)))))))"

definition for_coding :: "entity_tags \<Rightarrow> bytes option \<Rightarrow> bytes" where
  "for_coding tags coding =
     (case coding of
        None \<Rightarrow> tag_identity tags
      | Some coding \<Rightarrow>
          if coding = ''br'' then tag_br tags
          else if coding = ''zstd'' then tag_zstd tags
          else if coding = ''gzip'' then tag_gzip tags
          else tag_identity tags)"

definition for_sidecar :: "entity_tags \<Rightarrow> bytes \<Rightarrow> bytes" where
  "for_sidecar tags coding =
     (if coding = ''br'' then tag_sidecar_br tags
      else if coding = ''zstd'' then tag_sidecar_zstd tags
      else if coding = ''gzip'' then tag_sidecar_gzip tags
      else tag_identity tags)"

definition if_range_holds ::
    "bytes option \<Rightarrow> bytes \<Rightarrow> bytes option \<Rightarrow> system_time option \<Rightarrow> system_time \<Rightarrow> bool" where
  "if_range_holds if_range etag last_modified modified now =
     (case map_option str_trim if_range of
        None \<Rightarrow> True
      | Some v \<Rightarrow>
          if str_starts_with v ''W/'' then False
          else if str_starts_with v [dquote] then \<not> str_starts_with etag ''W/'' \<and> etag = v
          else (case (last_modified, modified) of
                  (Some last_modified, Some modified) \<Rightarrow> last_modified = v \<and> 1000000000 \<le> now - modified
                | _ \<Rightarrow> False))"

section \<open>Answers\<close>

record file_meta =
  meta_content_type :: bytes
  meta_last_modified :: "bytes option"
  meta_etags :: entity_tags
  meta_content_length :: bytes
  meta_modified :: "system_time option"

record not_modified =
  nm_etag :: bytes
  nm_last_modified :: "bytes option"
  nm_vary_accept_encoding :: bool
  nm_vary_accept :: bool

datatype conditional_answer = AnswerNotModified not_modified | AnswerPreconditionFailed

definition declared_etag :: "nat option \<Rightarrow> file_request \<Rightarrow> file_meta \<Rightarrow> bytes \<Rightarrow> bytes" where
  "declared_etag config_status request meta internal =
     (case request_policy request of
        None \<Rightarrow> internal
      | Some policy \<Rightarrow>
          (let headers = hm_insert ''accept-ranges'' ''bytes''
                 (hm_insert ''content-length'' (meta_content_length meta)
                   (hm_insert ''content-type'' (meta_content_type meta)
                     (hm_insert ''etag'' internal (\<lambda>_. []))));
               headers = (case meta_last_modified meta of
                            Some v \<Rightarrow> hm_insert ''last-modified'' v headers
                          | None \<Rightarrow> headers)
           in case policy (case config_status of Some status \<Rightarrow> status | None \<Rightarrow> 200) headers of
                (applied, headers) \<Rightarrow>
                  if \<not> applied then internal
                  else (case hm_get ''etag'' headers of Some v \<Rightarrow> v | None \<Rightarrow> internal)))"

text \<open>The tag of the representation that would be sent, or the error of looking at its file, is an
  argument: choosing it negotiates codings and probes sidecar files.\<close>

definition evaluate_preconditions ::
    "http_api \<Rightarrow> nat option \<Rightarrow> file_request \<Rightarrow> file_meta \<Rightarrow> 'e + bytes \<Rightarrow>
      'e + conditional_answer option" where
  "evaluate_preconditions api config_status request meta selected =
     (if \<not> has_preconditions request then Inr None
      else
        (case (if compares_entity_tags request
               then (case selected of
                       Inl e \<Rightarrow> Inl e
                     | Inr internal \<Rightarrow> Inr (declared_etag config_status request meta internal))
               else Inr (for_coding (meta_etags meta) None)) of
           Inl e \<Rightarrow> Inl e
         | Inr etag \<Rightarrow>
             Inr (case evaluate api request etag (meta_modified meta) of
                    Proceed \<Rightarrow> None
                  | NotModified \<Rightarrow>
                      Some (AnswerNotModified
                        \<lparr>nm_etag = etag, nm_last_modified = meta_last_modified meta,
                         nm_vary_accept_encoding = True, nm_vary_accept = False\<rparr>)
                  | Failed \<Rightarrow> Some AnswerPreconditionFailed)))"

section \<open>Ranges\<close>

datatype range_decision = Satisfied (range_start: nat) (range_end: nat) | Unsatisfiable | Ignored

definition parse_range :: "bytes \<Rightarrow> nat \<Rightarrow> range_decision" where
  "parse_range header file_size =
     (case map_option str_trim (strip_prefix ''bytes='' header) of
        None \<Rightarrow> Ignored
      | Some spec \<Rightarrow>
          if file_size = 0 then Ignored
          else if CHR '','' \<in> set spec then Ignored
          else
            (case split_once (CHR ''-'') spec of
               None \<Rightarrow> Ignored
             | Some (start_spec, end_spec) \<Rightarrow>
                 (let start_spec = str_trim start_spec;
                      end_spec = str_trim end_spec;
                      last_byte = file_size - 1
                  in if start_spec = [] then
                       (case parse_uint 64 end_spec of
                          None \<Rightarrow> Ignored
                        | Some wanted \<Rightarrow>
                            if wanted = 0 then Ignored else Satisfied (file_size - wanted) last_byte)
                     else
                       (case parse_uint 64 start_spec of
                          None \<Rightarrow> Ignored
                        | Some start_byte \<Rightarrow>
                            (case (if end_spec = [] then Some last_byte else parse_uint 64 end_spec) of
                               None \<Rightarrow> Ignored
                             | Some end_byte \<Rightarrow>
                                 if last_byte < start_byte then Unsatisfiable
                                 else if end_byte < start_byte then Ignored
                                 else Satisfied start_byte (min end_byte last_byte))))))"

section \<open>Lists of tags are read for what they say\<close>

definition tag_text :: "bool \<Rightarrow> bytes \<Rightarrow> bytes" where
  "tag_text weak inner = (if weak then ''W/'' else []) @ [dquote] @ inner @ [dquote]"

text \<open>One tag of a list, with the blanks and the comma in front of it.\<close>

record listed_tag =
  lt_blanks :: bytes
  lt_comma :: bool
  lt_more_blanks :: bytes
  lt_weak :: bool
  lt_inner :: bytes

definition listed_ok :: "listed_tag \<Rightarrow> bool" where
  "listed_ok t \<longleftrightarrow>
     list_all is_ascii_whitespace (lt_blanks t) \<and> list_all is_ascii_whitespace (lt_more_blanks t) \<and>
     dquote \<notin> set (lt_inner t)"

definition print_listed :: "listed_tag \<Rightarrow> bytes" where
  "print_listed t =
     lt_blanks t @ (if lt_comma t then '','' else []) @ lt_more_blanks t @ tag_text (lt_weak t) (lt_inner t)"

definition tag_fits :: "comparison \<Rightarrow> bool \<times> bytes \<Rightarrow> listed_tag \<Rightarrow> bool" where
  "tag_fits comparison current t \<longleftrightarrow>
     tag_text False (lt_inner t) = snd current \<and>
     (case comparison of Strong \<Rightarrow> \<not> lt_weak t \<and> \<not> fst current | Weak \<Rightarrow> True)"

datatype tag_condition = AnyTag bytes bytes | TagList "listed_tag list" bytes

fun print_condition :: "tag_condition \<Rightarrow> bytes" where
  "print_condition (AnyTag before after) = before @ ''*'' @ after"
| "print_condition (TagList tags after) = concat (map print_listed tags) @ after"

fun condition_ok :: "tag_condition \<Rightarrow> bool" where
  "condition_ok (AnyTag before after) \<longleftrightarrow>
     list_all is_ascii_whitespace before \<and> list_all is_ascii_whitespace after"
| "condition_ok (TagList tags after) \<longleftrightarrow> list_all listed_ok tags \<and> list_all is_ascii_whitespace after"

fun condition_fits :: "comparison \<Rightarrow> bool \<times> bytes \<Rightarrow> tag_condition \<Rightarrow> bool" where
  "condition_fits comparison current (AnyTag before after) \<longleftrightarrow> True"
| "condition_fits comparison current (TagList tags after) \<longleftrightarrow> list_ex (tag_fits comparison current) tags"

lemma dropWhile_blanks:
  "list_all is_ascii_whitespace ws \<Longrightarrow> dropWhile is_ascii_whitespace (ws @ s) = dropWhile is_ascii_whitespace s"
  by (induction ws) auto

lemma trim_ascii_start_blanks: "list_all is_ascii_whitespace s \<Longrightarrow> trim_ascii_start s = []"
  by (simp add: trim_ascii_start_def list_all_iff)

lemma tag_text_start:
  "trim_ascii_start (tag_text weak inner @ s) = tag_text weak inner @ s"
  "strip_prefix '','' (tag_text weak inner @ s) = None"
  by (simp_all add: trim_ascii_start_def tag_text_def is_ascii_whitespace_def strip_prefix_def)

lemma skip_comma_listed:
  assumes "listed_ok t"
  shows "skip_comma (print_listed t @ s) = tag_text (lt_weak t) (lt_inner t) @ s"
proof -
  let ?tag = "tag_text (lt_weak t) (lt_inner t) @ s"
  have tag: "dropWhile is_ascii_whitespace ?tag = ?tag"
    using tag_text_start(1) by (simp add: trim_ascii_start_def)
  show ?thesis
    using assms tag tag_text_start(2) [of "lt_weak t" "lt_inner t" s]
    by (cases "lt_comma t")
      (simp_all add: listed_ok_def print_listed_def skip_comma_def trim_ascii_start_def dropWhile_blanks
        strip_prefix_def is_ascii_whitespace_def)
qed

lemma split_weak_tag_text:
  "split_weak (tag_text weak inner @ s) = (weak, tag_text False inner @ s)"
  by (simp add: split_weak_def tag_text_def strip_prefix_def)

lemma tag_end_tag_text: "dquote \<notin> set inner \<Longrightarrow> tag_end (tag_text False inner @ s) = Some (length inner)"
proof -
  assume "dquote \<notin> set inner"
  then have "takeWhile (\<lambda>x. x \<noteq> dquote) (inner @ dquote # s) = inner"
    by (induction inner) auto
  then show ?thesis
    by (simp add: tag_end_def tag_text_def strip_prefix_def position_def)
qed

lemma length_tag_text [simp]: "length (tag_text False inner) = length inner + 2"
  by (simp add: tag_text_def)

lemma tag_line_matches_list:
  assumes "list_all listed_ok tags" and "list_all is_ascii_whitespace after"
  shows "tag_line_matches comparison current_weak current (concat (map print_listed tags) @ after) =
    list_ex (tag_fits comparison (current_weak, current)) tags"
  using assms(1)
proof (induction tags)
  case Nil
  have "trim_ascii_start [] = []" by (simp add: trim_ascii_start_def)
  then have "skip_comma after = []"
    by (simp add: skip_comma_def trim_ascii_start_blanks [OF assms(2)] strip_prefix_def)
  then show ?case
    by (subst tag_line_matches.simps) (simp add: split_weak_def strip_prefix_def tag_end_def)
next
  case (Cons t tags)
  let ?rest = "concat (map print_listed tags) @ after"
  have t: "listed_ok t" "dquote \<notin> set (lt_inner t)"
    using Cons.prems by (simp_all add: listed_ok_def)
  have drop: "drop (length (lt_inner t) + 2) (tag_text False (lt_inner t) @ ?rest) = ?rest"
    "take (length (lt_inner t) + 2) (tag_text False (lt_inner t) @ ?rest) = tag_text False (lt_inner t)"
    using length_tag_text [of "lt_inner t"] by (simp_all del: length_tag_text add: append_eq_conv_conj)
  have IH: "tag_line_matches comparison current_weak current ?rest =
      list_ex (tag_fits comparison (current_weak, current)) tags"
    using Cons by simp
  have "tag_line_matches comparison current_weak current (print_listed t @ ?rest) =
      (tag_fits comparison (current_weak, current) t \<or> tag_line_matches comparison current_weak current ?rest)"
    by (subst tag_line_matches.simps)
      (auto simp: skip_comma_listed [OF t(1)] split_weak_tag_text tag_end_tag_text [OF t(2)] drop tag_fits_def Let_def
        split: comparison.splits)
  then show ?case using IH by simp
qed

lemma trim_ascii_star: "list_all is_ascii_whitespace before \<Longrightarrow> list_all is_ascii_whitespace after \<Longrightarrow>
    trim_ascii (before @ ''*'' @ after) = ''*''"
  using dropWhile_blanks [of "rev after" "''*''"]
  by (simp add: trim_ascii_def trim_ascii_start_def dropWhile_blanks is_ascii_whitespace_def)

lemma trim_ascii_keeps: "c \<in> set s \<Longrightarrow> \<not> is_ascii_whitespace c \<Longrightarrow> c \<in> set (trim_ascii s)"
proof -
  have keep: "c \<in> set xs \<Longrightarrow> \<not> is_ascii_whitespace c \<Longrightarrow> c \<in> set (dropWhile is_ascii_whitespace xs)" for xs
    by (induction xs) auto
  show "c \<in> set s \<Longrightarrow> \<not> is_ascii_whitespace c \<Longrightarrow> c \<in> set (trim_ascii s)"
    using keep [of s] keep [of "rev (trim_ascii_start s)"] by (simp add: trim_ascii_def trim_ascii_start_def)
qed

lemma trim_ascii_list:
  assumes "list_all listed_ok tags" "list_all is_ascii_whitespace after"
  shows "trim_ascii (concat (map print_listed tags) @ after) \<noteq> ''*''"
proof (cases tags)
  case Nil
  then show ?thesis by (simp add: trim_ascii_def trim_ascii_start_blanks [OF assms(2)])
next
  case (Cons t ts)
  then have "dquote \<in> set (concat (map print_listed tags) @ after)"
    by (simp add: print_listed_def tag_text_def)
  from trim_ascii_keeps [OF this] show ?thesis by (auto simp: is_ascii_whitespace_def)
qed

lemma any_tag_matches_conditions:
  assumes "list_all condition_ok conditions" and "headers name = map print_condition conditions"
  shows "any_tag_matches headers name etag comparison =
    list_ex (condition_fits comparison (split_weak etag)) conditions"
proof -
  obtain cw cur where etag: "split_weak etag = (cw, cur)" by fastforce
  have line: "(if trim_ascii (print_condition c) = ''*'' then True
      else tag_line_matches comparison cw cur (print_condition c)) = condition_fits comparison (cw, cur) c"
    if "condition_ok c" for c
    using that trim_ascii_star trim_ascii_list tag_line_matches_list by (cases c) auto
  then show ?thesis
    using assms by (auto simp: any_tag_matches_def etag list_ex_iff list_all_iff)
qed

section \<open>Tags and the bytes they stand for\<close>

lemma base36_loop_append: "base36_loop n digits = digits @ base36_loop n []"
proof (induction n arbitrary: digits rule: less_induct)
  case (less n)
  show ?case
  proof (cases "n div 36 = 0")
    case True
    then show ?thesis by (subst (1 2) base36_loop.simps) simp
  next
    case False
    then have "n div 36 < n" by simp
    note IH = less [OF this]
    have "base36_loop n ds = ds @ [base36_digits ! (n mod 36)] @ base36_loop (n div 36) []" for ds
      using False IH [of "ds @ [base36_digits ! (n mod 36)]"] by (subst base36_loop.simps) (simp add: Let_def)
    then show ?thesis by simp
  qed
qed

lemma base36_rec:
  "base36 n = (if n < 36 then [] else base36 (n div 36)) @ [base36_digits ! (n mod 36)]"
proof -
  have "base36_loop n [] = [base36_digits ! (n mod 36)] @ (if n < 36 then [] else base36_loop (n div 36) [])"
    using base36_loop_append [of "n div 36" "[base36_digits ! (n mod 36)]"]
    by (subst base36_loop.simps) (simp add: Let_def div_eq_0_iff)
  then show ?thesis by (simp add: base36_def)
qed

lemma base36_digit_inj:
  assumes "a < 36" "b < 36" "base36_digits ! a = base36_digits ! b"
  shows "a = b"
proof -
  have "distinct base36_digits" "length base36_digits = 36" by (simp_all add: base36_digits_def)
  then show ?thesis using assms by (metis nth_eq_iff_index_eq)
qed

lemma base36_not_Nil [simp]: "base36 n \<noteq> []" "[] \<noteq> base36 n"
  by (subst base36_rec, simp)+

lemma base36_inj: "base36 n = base36 m \<longleftrightarrow> n = m"
proof
  show "base36 n = base36 m \<Longrightarrow> n = m"
  proof (induction n arbitrary: m rule: less_induct)
    case (less n)
    have "(if n < 36 then [] else base36 (n div 36)) @ [base36_digits ! (n mod 36)] =
        (if m < 36 then [] else base36 (m div 36)) @ [base36_digits ! (m mod 36)]"
      using less.prems base36_rec [of n] base36_rec [of m] by simp
    then have digits: "n mod 36 = m mod 36"
      and high: "(if n < 36 then [] else base36 (n div 36)) = (if m < 36 then [] else base36 (m div 36))"
      using base36_digit_inj [of "n mod 36" "m mod 36"] by auto
    from high have "n < 36 \<longleftrightarrow> m < 36" by (auto split: if_splits)
    then have "n div 36 = m div 36"
      using high less.IH [of "n div 36" "m div 36"] by (auto split: if_splits)
    with digits show ?case by (metis div_mult_mod_eq)
  qed
qed simp

lemma base36_digit_class: "a < 36 \<Longrightarrow> is_ascii_alphanumeric (base36_digits ! a)"
proof -
  have "list_all is_ascii_alphanumeric base36_digits" by code_simp
  moreover have "length base36_digits = 36" by (simp add: base36_digits_def)
  ultimately show "a < 36 \<Longrightarrow> ?thesis" by (simp add: list_all_length)
qed

lemma base36_class: "list_all is_ascii_alphanumeric (base36 n)"
proof (induction n rule: less_induct)
  case (less n)
  then show ?case
    using base36_digit_class [of "n mod 36"] by (subst base36_rec) auto
qed

lemma alphanumeric_etagc: "is_ascii_alphanumeric c \<Longrightarrow> etagc c"
  unfolding is_ascii_alphanumeric_def is_ascii_uppercase_def is_ascii_lowercase_def is_ascii_digit_def etagc_def
  by linarith

lemma hyphen_not_alphanumeric: "\<not> is_ascii_alphanumeric (CHR ''-'')"
  by (simp add: is_ascii_alphanumeric_def is_ascii_uppercase_def is_ascii_lowercase_def is_ascii_digit_def)

lemma digit_alphanumeric: "is_ascii_digit c \<Longrightarrow> is_ascii_alphanumeric c"
  by (simp add: is_ascii_alphanumeric_def)

lemma show_nat_class: "list_all is_ascii_alphanumeric (show_nat n)"
  using show_nat_digits [of n] digit_alphanumeric unfolding list_all_iff by blast

text \<open>The representations of one file, and the tag each is sent with.\<close>

datatype coding = Br | Zstd | Gzip

fun coding_token :: "coding \<Rightarrow> bytes" where
  "coding_token Br = ''br''"
| "coding_token Zstd = ''zstd''"
| "coding_token Gzip = ''gzip''"

datatype representation = Plain | Live coding | Stored coding

fun representation_tag :: "entity_tags \<Rightarrow> representation \<Rightarrow> bytes" where
  "representation_tag tags Plain = for_coding tags None"
| "representation_tag tags (Live c) = for_coding tags (Some (coding_token c))"
| "representation_tag tags (Stored c) = for_sidecar tags (coding_token c)"

fun tag_suffix :: "nat \<Rightarrow> representation \<Rightarrow> bytes list" where
  "tag_suffix level Plain = []"
| "tag_suffix level (Live c) = (if c = Gzip then [''gzip'', show_nat level] else [coding_token c])"
| "tag_suffix level (Stored c) = [''sidecar'', coding_token c]"

text \<open>What \<open>HeaderValue::try_from\<close> documents: bytes from 32 up, 127 apart, make a header value.\<close>

definition values_accepted :: "http_api \<Rightarrow> bool" where
  "values_accepted api \<longleftrightarrow>
     (\<forall>v. list_all (\<lambda>b. 32 \<le> byte_val b \<and> byte_val b \<noteq> 127) v \<longrightarrow> value_try_from api v = Some v)"

definition entity_tag :: "bytes \<Rightarrow> bool" where
  "entity_tag t \<longleftrightarrow> (\<exists>weak inner. t = tag_text weak inner \<and> list_all etagc inner)"

lemma case_strip_Some:
  "(case strip_prefix p xs of None \<Rightarrow> None | Some r \<Rightarrow> f r) = Some y \<longleftrightarrow> (\<exists>r. xs = p @ r \<and> f r = Some y)"
  "(case strip_suffix p xs of None \<Rightarrow> None | Some r \<Rightarrow> f r) = Some y \<longleftrightarrow> (\<exists>r. xs = r @ p \<and> f r = Some y)"
  by (cases "strip_prefix p xs"; simp add: strip_prefix_Some [symmetric])
    (cases "strip_suffix p xs"; simp add: strip_suffix_Some [symmetric])

lemma sidecar_tag_parse_iff: "sidecar_tag_parse t = Some t' \<longleftrightarrow> t' = t \<and> entity_tag t"
proof -
  have inner: "(case strip_prefix [dquote] opaque of None \<Rightarrow> None
      | Some rest \<Rightarrow> (case strip_suffix [dquote] rest of None \<Rightarrow> None
          | Some inner \<Rightarrow> if list_all etagc inner then Some t else None)) = Some t' \<longleftrightarrow>
      t' = t \<and> (\<exists>inner. opaque = [dquote] @ inner @ [dquote] \<and> list_all etagc inner)" for opaque
    by (auto simp: case_strip_Some)
  have parse: "sidecar_tag_parse t = Some t' \<longleftrightarrow> t' = t \<and>
      (\<exists>inner. (case strip_prefix ''W/'' t of Some opaque \<Rightarrow> opaque | None \<Rightarrow> t) = [dquote] @ inner @ [dquote] \<and>
        list_all etagc inner)"
    unfolding sidecar_tag_parse_def Let_def by (rule inner)
  show ?thesis
  proof (cases "strip_prefix ''W/'' t")
    case None
    then have "t \<noteq> ''W/'' @ x" for x using strip_prefix_Some [of "''W/''" t x] by simp
    then show ?thesis by (auto simp: parse None entity_tag_def tag_text_def)
  next
    case (Some opaque)
    have "entity_tag t \<longleftrightarrow> (\<exists>inner. opaque = [dquote] @ inner @ [dquote] \<and> list_all etagc inner)"
      using Some [unfolded strip_prefix_Some] by (auto simp: entity_tag_def tag_text_def)
    then show ?thesis by (simp only: parse Some option.case)
  qed
qed

lemma tag_text_accepted:
  assumes "values_accepted api" "list_all etagc inner"
  shows "value_try_from api (tag_text weak inner) = Some (tag_text weak inner)"
proof -
  have "list_all (\<lambda>b. 32 \<le> byte_val b \<and> byte_val b \<noteq> 127) (tag_text weak inner)"
    using assms(2) by (auto simp: list_all_iff tag_text_def etagc_def)
  with assms(1) show ?thesis unfolding values_accepted_def by blast
qed

lemma coded_tag_text:
  assumes "values_accepted api" "list_all etagc inner" "list_all etagc coding"
  shows "coded api (tag_text weak inner) coding = Some (tag_text weak (inner @ ''-'' @ coding))"
proof -
  have "strip_suffix [dquote] (tag_text weak inner) = Some ((if weak then ''W/'' else []) @ [dquote] @ inner)"
    by (simp add: strip_suffix_Some tag_text_def)
  moreover have "list_all etagc (inner @ ''-'' @ coding)"
    using assms(2,3) by (simp add: etagc_def)
  ultimately show ?thesis
    using tag_text_accepted [OF assms(1), of "inner @ ''-'' @ coding" weak]
    by (simp add: coded_def tag_header_def tag_text_def)
qed

definition identity_tag :: "nat \<Rightarrow> nat \<Rightarrow> bytes option \<Rightarrow> bytes" where
  "identity_tag file_size mtime_ns sidecar =
     (case sidecar of
        None \<Rightarrow> tag_text False (base36 mtime_ns @ ''-'' @ base36 file_size)
      | Some tag \<Rightarrow> tag)"

lemma show_nat_etagc: "list_all etagc (show_nat n)"
  using show_nat_class [of n] alphanumeric_etagc unfolding list_all_iff by blast

lemma base36_etagc: "list_all etagc (base36 n)"
  using base36_class [of n] alphanumeric_etagc unfolding list_all_iff by blast

lemma derive_identity:
  assumes "values_accepted api" "list_all etagc inner" "identity_tag file_size mtime_ns sidecar = tag_text weak inner"
  shows "\<exists>tags. derive api file_size mtime_ns sidecar level = Some tags \<and>
    (\<forall>r. representation_tag tags r = tag_text weak (join_with ''-'' (inner # tag_suffix level r)))"
proof -
  have identity: "(case sidecar of None \<Rightarrow> [dquote] @ base36 mtime_ns @ ''-'' @ base36 file_size @ [dquote]
      | Some tag \<Rightarrow> tag) = tag_text weak inner"
    using assms(3) by (cases sidecar) (simp_all add: identity_tag_def tag_text_def)
  note coded = coded_tag_text [OF assms(1,2), of _ weak]
  have plain: "list_all etagc ''br''" "list_all etagc ''zstd''" "list_all etagc ''sidecar-br''"
    "list_all etagc ''sidecar-zstd''" "list_all etagc ''sidecar-gzip''" "list_all etagc (''gzip-'' @ show_nat level)"
    using show_nat_etagc [of level] by (simp_all add: etagc_def)
  obtain tags where tags: "derive api file_size mtime_ns sidecar level = Some tags"
    "tags = \<lparr>tag_identity = tag_text weak inner, tag_br = tag_text weak (inner @ ''-'' @ ''br''),
       tag_zstd = tag_text weak (inner @ ''-'' @ ''zstd''),
       tag_gzip = tag_text weak (inner @ ''-'' @ (''gzip-'' @ show_nat level)),
       tag_sidecar_br = tag_text weak (inner @ ''-'' @ ''sidecar-br''),
       tag_sidecar_zstd = tag_text weak (inner @ ''-'' @ ''sidecar-zstd''),
       tag_sidecar_gzip = tag_text weak (inner @ ''-'' @ ''sidecar-gzip'')\<rparr>"
    unfolding derive_def identity Let_def coded [OF plain(1)] coded [OF plain(2)] coded [OF plain(3)]
      coded [OF plain(4)] coded [OF plain(5)] coded [OF plain(6)]
    by (simp add: tag_header_def tag_text_accepted [OF assms(1,2)])
  have "representation_tag tags r = tag_text weak (join_with ''-'' (inner # tag_suffix level r))" for r
  proof (cases r)
    case (Live c)
    then show ?thesis by (cases c) (simp_all add: tags(2) for_coding_def)
  next
    case (Stored c)
    then show ?thesis by (cases c) (simp_all add: tags(2) for_sidecar_def)
  qed (simp add: tags(2) for_coding_def)
  with tags(1) show ?thesis by blast
qed

lemma tag_suffix_etagc: "list_all (list_all etagc) (tag_suffix level r)"
  using show_nat_etagc [of level] by (cases r; cases "case r of Live c \<Rightarrow> c | Stored c \<Rightarrow> c | Plain \<Rightarrow> Br") (simp_all add: etagc_def)

lemma join_etagc: "list_all etagc inner \<Longrightarrow> list_all (list_all etagc) parts \<Longrightarrow>
    list_all etagc (join_with ''-'' (inner # parts))"
  by (induction parts arbitrary: inner) (simp_all add: join_with_Cons etagc_def)

lemma tag_suffix_hyphen: "\<forall>part \<in> set (tag_suffix level r). CHR ''-'' \<notin> set part"
  using show_nat_class [of level] hyphen_not_alphanumeric
  by (cases r; cases "case r of Live c \<Rightarrow> c | Stored c \<Rightarrow> c | Plain \<Rightarrow> Br") (auto simp: list_all_iff)

lemma tag_suffix_inj:
  "tag_suffix level r = tag_suffix level' r' \<longleftrightarrow> r = r' \<and> (if r = Live Gzip then level = level' else True)"
proof -
  have "coding_token c = coding_token c' \<longleftrightarrow> c = c'" for c c' by (cases c; cases c') simp_all
  then show ?thesis
    by (cases r; cases r') (auto simp: show_nat_inj)
qed

section \<open>Properties\<close>

text \<open>The order of RFC 9110, section 13.2.2: the conditions that guard a change come first, and a date
  is looked at only in the absence of the tags it stands in for.\<close>

definition change_guarded :: "tag_condition list \<Rightarrow> nat option \<Rightarrow> bool \<times> bytes \<Rightarrow> nat option \<Rightarrow> bool" where
  "change_guarded if_match if_unmodified_since current modified \<longleftrightarrow>
     (case (if_match, if_unmodified_since, modified) of
        ([], Some since, Some t) \<Rightarrow> t \<le> since
      | ([], _, _) \<Rightarrow> True
      | (_, _, _) \<Rightarrow> list_ex (condition_fits Strong current) if_match)"

definition copy_current :: "bool \<Rightarrow> tag_condition list \<Rightarrow> nat option \<Rightarrow> bool \<times> bytes \<Rightarrow> nat option \<Rightarrow> bool" where
  "copy_current retrieval if_none_match if_modified_since current modified \<longleftrightarrow>
     (case (if_none_match, if_modified_since, modified) of
        ([], Some since, Some t) \<Rightarrow> retrieval \<and> t \<le> since
      | ([], _, _) \<Rightarrow> False
      | (_, _, _) \<Rightarrow> list_ex (condition_fits Weak current) if_none_match)"

definition rfc_9110_decision ::
    "bool \<Rightarrow> tag_condition list \<Rightarrow> nat option \<Rightarrow> tag_condition list \<Rightarrow> nat option \<Rightarrow> bool \<times> bytes \<Rightarrow>
      nat option \<Rightarrow> precondition" where
  "rfc_9110_decision retrieval if_match if_unmodified_since if_none_match if_modified_since current modified =
     (if \<not> change_guarded if_match if_unmodified_since current modified then Failed
      else if \<not> copy_current retrieval if_none_match if_modified_since current modified then Proceed
      else if retrieval then NotModified else Failed)"

text \<open>
  C10: Preconditions are decided as RFC 9110 orders them. For any number of field lines, each a star
  or a list of tags with any blanks, any bytes but the quote inside the tags, commas included, the
  decision is that of section 13.2.2: the strong comparison guards a change, the weak one a copy, and a
  date counts only where its tag field is absent.
\<close>

theorem preconditions_follow_rfc_9110:
  assumes "list_all condition_ok if_match" and "list_all condition_ok if_none_match"
    and "request_headers request ''if-match'' = map print_condition if_match"
    and "request_headers request ''if-none-match'' = map print_condition if_none_match"
  shows "evaluate api request etag modified =
    rfc_9110_decision (is_retrieval request)
      if_match (date_field api request ''if-unmodified-since'')
      if_none_match (date_field api request ''if-modified-since'')
      (split_weak etag) (map_option seconds modified)"
proof -
  note strong = any_tag_matches_conditions [where headers = "request_headers request" and name = "''if-match''", OF assms(1,3), of etag Strong]
  note weak = any_tag_matches_conditions [where headers = "request_headers request" and name = "''if-none-match''", OF assms(2,4), of etag Weak]
  have present: "hm_contains_key ''if-match'' (request_headers request) \<longleftrightarrow> if_match \<noteq> []"
    "hm_contains_key ''if-none-match'' (request_headers request) \<longleftrightarrow> if_none_match \<noteq> []"
    using assms(3,4) by (simp_all add: hm_contains_key_def)
  show ?thesis
    unfolding evaluate_def Let_def strong weak present rfc_9110_decision_def change_guarded_def copy_current_def
    by (cases if_match; cases if_none_match; cases "date_field api request ''if-unmodified-since''";
        cases "date_field api request ''if-modified-since''"; cases modified)
      (simp_all add: not_less)
qed

theorem preconditions_follow_rfc_9110_witness:
  "evaluate \<lparr>value_to_str = Some, value_try_from = Some, parse_http_date = (\<lambda>_. None)\<rparr>
     (file_request_new ''GET''
        (\<lambda>name. if name = ''if-none-match''
                then [tag_text True ''x'' @ '','' @ tag_text False ''a,b''] else []))
     (tag_text False ''a,b'') None = NotModified"
proof -
  define request where "request = file_request_new ''GET''
        (\<lambda>name. if name = ''if-none-match''
                then [tag_text True ''x'' @ '','' @ tag_text False ''a,b''] else [])"
  define tags where "tags =
    [\<lparr>lt_blanks = [], lt_comma = False, lt_more_blanks = [], lt_weak = True, lt_inner = ''x''\<rparr>,
     \<lparr>lt_blanks = [], lt_comma = True, lt_more_blanks = [], lt_weak = False, lt_inner = ''a,b''\<rparr>]"
  have "list_all condition_ok [TagList tags []]"
    by (simp add: tags_def listed_ok_def)
  moreover have "request_headers request ''if-match'' = map print_condition []"
    "request_headers request ''if-none-match'' = map print_condition [TagList tags []]"
    by (simp_all add: request_def file_request_new_def tags_def print_listed_def tag_text_def)
  moreover have "is_retrieval request" "date_field api request ''if-unmodified-since'' = None" for api
    by (simp_all add: request_def file_request_new_def is_retrieval_def date_field_def request_field_def hm_get_def)
  ultimately show ?thesis
    unfolding request_def [symmetric]
    by (simp add: preconditions_follow_rfc_9110 [of "[]" "[TagList tags []]"] rfc_9110_decision_def
        change_guarded_def copy_current_def tags_def tag_fits_def split_weak_def tag_text_def strip_prefix_def)
qed

lemma read_sidecar_etag_entity_tag:
  "case read_sidecar_etag read_to_string file_path extensions of None \<Rightarrow> True | Some tag \<Rightarrow> entity_tag tag"
proof (induction extensions)
  case (Cons extension extensions)
  have parsed: "case (case sidecar_tag_parse tag of Some tag \<Rightarrow> Some tag
      | None \<Rightarrow> read_sidecar_etag read_to_string file_path extensions) of None \<Rightarrow> True | Some tag \<Rightarrow> entity_tag tag" for tag
    using Cons sidecar_tag_parse_iff [of tag] by (cases "sidecar_tag_parse tag") (simp, metis option.simps(5))
  let ?contents = "read_to_string (file_path @ (if str_starts_with extension ''.'' then [] else ''.'') @ extension)"
  show ?case
  proof (cases "?contents = None \<or> str_trim (the ?contents) = []")
    case True
    then show ?thesis using Cons by (cases ?contents) (simp_all only: read_sidecar_etag.simps Let_def, simp_all)
  next
    case False
    then obtain contents where "?contents = Some contents" "str_trim contents \<noteq> []" by auto
    then show ?thesis
      by (simp only: read_sidecar_etag.simps Let_def option.case if_False parsed)
  qed
qed simp

text \<open>
  C33: Every tag the server derives is an entity tag, so building the seven tags of a file never
  panics. Whatever the sidecar files beside it contain, for any size, time and compression level, each
  tag is accepted by the grammar that guards sidecar tags: no content of a file reaches a header unless it
  is a tag.
\<close>

theorem derived_tags_are_entity_tags:
  assumes "values_accepted api"
  shows "\<exists>tags.
    derive api file_size mtime_ns (read_sidecar_etag read_to_string file_path extensions) level = Some tags \<and>
    (\<forall>r. sidecar_tag_parse (representation_tag tags r) = Some (representation_tag tags r))"
proof -
  define sidecar where "sidecar = read_sidecar_etag read_to_string file_path extensions"
  obtain weak inner where inner: "list_all etagc inner" "identity_tag file_size mtime_ns sidecar = tag_text weak inner"
  proof (cases sidecar)
    case None
    then show ?thesis
      using that [of "base36 mtime_ns @ ''-'' @ base36 file_size" False] base36_etagc
      by (simp add: identity_tag_def etagc_def)
  next
    case (Some tag)
    then have "entity_tag tag"
      using read_sidecar_etag_entity_tag [of read_to_string file_path extensions] by (simp add: sidecar_def)
    then show ?thesis using that Some by (auto simp: identity_tag_def entity_tag_def)
  qed
  obtain tags where tags: "derive api file_size mtime_ns sidecar level = Some tags"
    "\<And>r. representation_tag tags r = tag_text weak (join_with ''-'' (inner # tag_suffix level r))"
    using derive_identity [OF assms(1) inner] by blast
  have "entity_tag (representation_tag tags r)" for r
    using tags(2) join_etagc [OF inner(1) tag_suffix_etagc] unfolding entity_tag_def by blast
  with tags(1) show ?thesis unfolding sidecar_def [symmetric] by (auto simp: sidecar_tag_parse_iff)
qed

theorem derived_tags_are_entity_tags_witness:
  "\<exists>tags. derive \<lparr>value_to_str = Some, value_try_from = Some, parse_http_date = (\<lambda>_. None)\<rparr>
       5 1000 (read_sidecar_etag (\<lambda>_. Some [CHR 0x0A]) ''/srv/a'' [''etag'']) 6 = Some tags \<and>
     (\<forall>r. sidecar_tag_parse (representation_tag tags r) = Some (representation_tag tags r))"
  by (rule derived_tags_are_entity_tags) (simp add: values_accepted_def)

text \<open>
  C29: A derived tag identifies the bytes it is sent with. Two representations, of any two files at
  any compression levels, have the same tag only if they are the same kind of representation of files of
  equal size and equal modification time, and for live gzip also of equal level.
\<close>

theorem tags_identify_representations:
  assumes "values_accepted api"
  shows "\<exists>tags tags'. derive api file_size mtime_ns None level = Some tags \<and>
    derive api file_size' mtime_ns' None level' = Some tags' \<and>
    (representation_tag tags r = representation_tag tags' r' \<longleftrightarrow>
       r = r' \<and> file_size = file_size' \<and> mtime_ns = mtime_ns' \<and> (if r = Live Gzip then level = level' else True))"
proof -
  define parts where "parts s m l q = base36 m # base36 s # tag_suffix l q" for s m l q
  have derive: "\<exists>tags. derive api s m None l = Some tags \<and>
      (\<forall>q. representation_tag tags q = tag_text False (join_with ''-'' (parts s m l q)))" for s m l
    using derive_identity [OF assms, of "base36 m @ ''-'' @ base36 s" s m None False l] base36_etagc
    by (simp add: identity_tag_def parts_def join_with_concat etagc_def)
  have "split_on (CHR ''-'') (join_with ''-'' (parts s m l q)) = parts s m l q" for s m l q
    using tag_suffix_hyphen [of l q] base36_class [of s] base36_class [of m] hyphen_not_alphanumeric
    by (intro split_join) (auto simp: parts_def list_all_iff)
  then have inj: "join_with ''-'' (parts s m l q) = join_with ''-'' (parts s' m' l' q') \<longleftrightarrow>
      parts s m l q = parts s' m' l' q'" for s m l q s' m' l' q'
    by metis
  have "tag_text False (join_with ''-'' (parts file_size mtime_ns level r)) =
      tag_text False (join_with ''-'' (parts file_size' mtime_ns' level' r')) \<longleftrightarrow>
      r = r' \<and> file_size = file_size' \<and> mtime_ns = mtime_ns' \<and> (if r = Live Gzip then level = level' else True)"
    using inj [of file_size mtime_ns level r file_size' mtime_ns' level' r']
      tag_suffix_inj [of level r level' r']
    by (auto simp: tag_text_def parts_def base36_inj)
  with derive [of file_size mtime_ns level] derive [of file_size' mtime_ns' level'] show ?thesis by metis
qed

theorem tags_identify_representations_witness:
  "\<exists>tags tags'. derive \<lparr>value_to_str = Some, value_try_from = Some, parse_http_date = (\<lambda>_. None)\<rparr> 5 1000 None 6 = Some tags \<and>
    derive \<lparr>value_to_str = Some, value_try_from = Some, parse_http_date = (\<lambda>_. None)\<rparr> 5 1001 None 6 = Some tags' \<and>
    representation_tag tags Plain \<noteq> representation_tag tags' Plain"
  using tags_identify_representations
    [of "\<lparr>value_to_str = Some, value_try_from = Some, parse_http_date = (\<lambda>_. None)\<rparr>" 5 1000 6 5 1001 6 Plain Plain]
  by (simp add: values_accepted_def)

lemma str_trim_digits: "str_trim (show_nat n) = show_nat n"
  and str_trim_int_range: "str_trim (show_nat n @ ''-'' @ show_nat m) = show_nat n @ ''-'' @ show_nat m"
  and str_trim_open_range: "str_trim (show_nat n @ ''-'') = show_nat n @ ''-''"
  and str_trim_suffix_range: "str_trim (''-'' @ show_nat n) = ''-'' @ show_nat n"
proof -
  have digits: "list_all (\<lambda>c. byte_val c < 128 \<and> \<not> is_whitespace (byte_val c)) (show_nat k)" for k
    using show_nat_digits [of k] by (auto simp: list_all_iff is_ascii_digit_def is_whitespace_def)
  have hyphen: "\<not> is_whitespace (byte_val (CHR ''-''))" by (simp add: is_whitespace_def)
  show "str_trim (show_nat n) = show_nat n" by (rule str_trim_plain) (rule digits)
  show "str_trim (show_nat n @ ''-'' @ show_nat m) = show_nat n @ ''-'' @ show_nat m"
    using digits hyphen by (intro str_trim_plain) simp
  show "str_trim (show_nat n @ ''-'') = show_nat n @ ''-''"
    using digits hyphen by (intro str_trim_plain) simp
  show "str_trim (''-'' @ show_nat n) = ''-'' @ show_nat n"
    using digits hyphen by (intro str_trim_plain) simp
qed

lemma show_nat_plain: "CHR ''-'' \<notin> set (show_nat n)" "CHR '','' \<notin> set (show_nat n)"
  using show_nat_digits [of n] by (auto simp: list_all_iff is_ascii_digit_def)

lemma parse_range_bounds:
  "case parse_range header n of Satisfied a b \<Rightarrow> a \<le> b \<and> b < n | Unsatisfiable \<Rightarrow> True | Ignored \<Rightarrow> True"
  by (auto simp: parse_range_def Let_def split: option.splits prod.splits if_splits)



end
