(* ===== verification/File_Cache.thy ===== *)
theory File_Cache
  imports Byte_Source
begin

text \<open>
  The body caches of the file server and the budgets they share
  (\<open>pingclair-static/src/file_server/cache.rs\<close> and \<open>budget.rs\<close>). A budget lives in a store at an address,
  since caches of several routes charge the same one; a reservation is the address and the amount it
  returns when dropped. Routes run side by side: each cache is behind its own lock, the budgets are
  atomic counters, so the relation \<open>cache_step\<close> interleaves the accesses of the routes to the budgets.
\<close>

section \<open>Budgets\<close>

record cache_budgets =
  compressed_bytes :: nat
  content_bytes :: nat
  metadata_entries :: nat

definition cache_budgets_defaults :: cache_budgets where
  "cache_budgets_defaults =
     \<lparr>compressed_bytes = 64 * 1024 * 1024, content_bytes = 16 * 1024 * 1024, metadata_entries = 4096\<rparr>"

definition memory_share :: "nat \<Rightarrow> nat \<Rightarrow> nat \<Rightarrow> nat \<Rightarrow> nat" where
  "memory_share memory divisor floor_value ceiling_value =
     max floor_value (min ceiling_value (min (memory div divisor) usize_max))"

definition for_available_memory :: "nat option \<Rightarrow> cache_budgets" where
  "for_available_memory memory =
     (case memory of
        None \<Rightarrow> cache_budgets_defaults
      | Some memory \<Rightarrow>
          \<lparr>compressed_bytes = memory_share memory 64 (4 * 1024 * 1024) (compressed_bytes cache_budgets_defaults),
           content_bytes = memory_share memory 256 (1024 * 1024) (content_bytes cache_budgets_defaults),
           metadata_entries = memory_share memory (512 * 1024) 256 (metadata_entries cache_budgets_defaults)\<rparr>)"

record budget =
  budget_limit :: nat
  budget_used :: nat

type_synonym budgets = "nat \<Rightarrow> budget"

record reservation =
  res_budget :: nat
  res_amount :: nat

definition budget_new :: "nat \<Rightarrow> budget" where
  "budget_new limit = \<lparr>budget_limit = limit, budget_used = 0\<rparr>"

definition reserve :: "nat \<Rightarrow> nat \<Rightarrow> budgets \<Rightarrow> (reservation \<times> budgets) option" where
  "reserve b amount store =
     (let total = budget_used (store b) + amount
      in if total \<le> usize_max \<and> total \<le> budget_limit (store b)
         then Some (\<lparr>res_budget = b, res_amount = amount\<rparr>, store(b := (store b)\<lparr>budget_used := total\<rparr>))
         else None)"

text \<open>Dropping a reservation; the subtraction of an atomic counter wraps.\<close>

definition drop_reservation :: "reservation \<Rightarrow> budgets \<Rightarrow> budgets" where
  "drop_reservation r store =
     (let b = res_budget r
      in store(b := (store b)\<lparr>budget_used :=
           (budget_used (store b) + (usize_max + 1) - res_amount r) mod (usize_max + 1)\<rparr>))"

section \<open>Caches\<close>

record file_key =
  key_path :: bytes
  key_mtime_ns :: nat
  key_encoding :: bytes
  key_body_len :: nat

record cached_body =
  body_value :: bytes
  body_reservation :: reservation
  body_entry_reservation :: reservation

record body_cache =
  cache_entries :: "file_key \<rightharpoonup> cached_body"
  cache_lru :: "file_key list"
  cache_bytes :: nat
  cache_budget :: nat
  cache_entry_budget :: nat

definition body_cache_new :: "nat \<Rightarrow> nat \<Rightarrow> body_cache" where
  "body_cache_new b entry_b =
     \<lparr>cache_entries = Map.empty, cache_lru = [], cache_bytes = 0, cache_budget = b, cache_entry_budget = entry_b\<rparr>"

definition touch :: "file_key \<Rightarrow> body_cache \<Rightarrow> body_cache" where
  "touch key c = c\<lparr>cache_lru := remove1 key (cache_lru c) @ [key]\<rparr>"

definition cache_get :: "file_key \<Rightarrow> body_cache \<Rightarrow> bytes option \<times> body_cache" where
  "cache_get key c =
     (case cache_entries c key of
        Some entry \<Rightarrow> (Some (body_value entry), touch key c)
      | None \<Rightarrow> (None, c))"

text \<open>Dropping an entry returns what it holds of both budgets.\<close>

definition drop_body :: "cached_body \<Rightarrow> budgets \<Rightarrow> budgets" where
  "drop_body entry store = drop_reservation (body_entry_reservation entry) (drop_reservation (body_reservation entry) store)"

definition remove_entry :: "file_key \<Rightarrow> budgets \<Rightarrow> body_cache \<Rightarrow> budgets \<times> body_cache" where
  "remove_entry key store c =
     (case cache_entries c key of
        None \<Rightarrow> (store, c)
      | Some old \<Rightarrow>
          (drop_body old store,
           c\<lparr>cache_entries := (cache_entries c)(key := None), cache_bytes := cache_bytes c - length (body_value old)\<rparr>))"

definition replace_old :: "file_key \<Rightarrow> budgets \<Rightarrow> body_cache \<Rightarrow> budgets \<times> body_cache" where
  "replace_old key store c =
     (case cache_entries c key of
        None \<Rightarrow> (store, c)
      | Some _ \<Rightarrow>
          (case remove_entry key store c of
             (store, c) \<Rightarrow> (store, c\<lparr>cache_lru := remove1 key (cache_lru c)\<rparr>)))"

text \<open>Both reservations, or neither: the first is dropped when the second is refused.\<close>

definition try_admit :: "nat \<Rightarrow> budgets \<Rightarrow> body_cache \<Rightarrow> (reservation \<times> reservation) option \<times> budgets" where
  "try_admit amount store c =
     (case reserve (cache_budget c) amount store of
        None \<Rightarrow> (None, store)
      | Some (r, store') \<Rightarrow>
          (case reserve (cache_entry_budget c) 1 store' of
             None \<Rightarrow> (None, drop_reservation r store')
           | Some (entry_r, store'') \<Rightarrow> (Some (r, entry_r), store'')))"

definition evict_front :: "budgets \<Rightarrow> body_cache \<Rightarrow> (budgets \<times> body_cache) option" where
  "evict_front store c =
     (case cache_lru c of
        [] \<Rightarrow> None
      | evicted # lru \<Rightarrow> Some (remove_entry evicted store (c\<lparr>cache_lru := lru\<rparr>)))"

definition push_entry :: "file_key \<Rightarrow> bytes \<Rightarrow> reservation \<Rightarrow> reservation \<Rightarrow> body_cache \<Rightarrow> body_cache" where
  "push_entry key v r entry_r c =
     c\<lparr>cache_entries := (cache_entries c)(key \<mapsto>
         \<lparr>body_value = v, body_reservation = r, body_entry_reservation = entry_r\<rparr>),
       cache_bytes := cache_bytes c + length v, cache_lru := cache_lru c @ [key]\<rparr>"

lemma cache_lru_remove_entry [simp]: "cache_lru (snd (remove_entry key store c)) = cache_lru c"
  by (simp add: remove_entry_def split: option.splits)

lemma evict_front_shorter:
  assumes "evict_front store c = Some (store', c')"
  shows "length (cache_lru c') < length (cache_lru c)"
proof -
  obtain evicted lru where lru: "cache_lru c = evicted # lru" "remove_entry evicted store (c\<lparr>cache_lru := lru\<rparr>) = (store', c')"
    using assms by (auto simp: evict_front_def split: list.splits)
  then have "cache_lru c' = lru"
    using cache_lru_remove_entry [of evicted store "c\<lparr>cache_lru := lru\<rparr>"] by simp
  with lru show ?thesis by simp
qed

function insert_loop :: "file_key \<Rightarrow> bytes \<Rightarrow> budgets \<Rightarrow> body_cache \<Rightarrow> budgets \<times> body_cache" where
  "insert_loop key v store c =
     (case try_admit (length v) store c of
        (Some (r, entry_r), store) \<Rightarrow> (store, push_entry key v r entry_r c)
      | (None, store) \<Rightarrow>
          (case evict_front store c of
             None \<Rightarrow> (store, c)
           | Some (store, c) \<Rightarrow> insert_loop key v store c))"
  by pat_completeness auto
termination
  by (relation "measure (\<lambda>(_, _, _, c). length (cache_lru c))") (auto dest!: evict_front_shorter)

declare insert_loop.simps [simp del]

definition cache_insert :: "file_key \<Rightarrow> bytes \<Rightarrow> budgets \<Rightarrow> body_cache \<Rightarrow> budgets \<times> body_cache" where
  "cache_insert key v store c =
     (if budget_limit (store (cache_budget c)) < length v then (store, c)
      else (case replace_old key store c of (store, c) \<Rightarrow> insert_loop key v store c))"

section \<open>Routes side by side\<close>

datatype insert_phase =
    Idle
  | Reserving file_key bytes
  | Charged file_key bytes reservation
  | Evicting file_key bytes

record slot =
  slot_cache :: body_cache
  slot_phase :: insert_phase

text \<open>The end of a file server drops its cache.\<close>

definition drop_cache :: "body_cache \<Rightarrow> budgets \<Rightarrow> budgets" where
  "drop_cache c store = fold (\<lambda>key. drop_body (the (cache_entries c key))) (cache_lru c) store"

inductive cache_step :: "budgets \<times> slot list \<Rightarrow> budgets \<times> slot list \<Rightarrow> bool" where
  step_open:
    "cache_step (store, slots) (store, slots @ [\<lparr>slot_cache = body_cache_new b entry_b, slot_phase = Idle\<rparr>])"
| step_close:
    "slots = before @ \<lparr>slot_cache = c, slot_phase = Idle\<rparr> # after \<Longrightarrow>
     cache_step (store, slots) (drop_cache c store, before @ after)"
| step_get:
    "slots = before @ \<lparr>slot_cache = c, slot_phase = Idle\<rparr> # after \<Longrightarrow>
     cache_step (store, slots)
       (store, before @ \<lparr>slot_cache = snd (cache_get key c), slot_phase = Idle\<rparr> # after)"
| step_begin:
    "slots = before @ \<lparr>slot_cache = c, slot_phase = Idle\<rparr> # after \<Longrightarrow>
     \<not> budget_limit (store (cache_budget c)) < length v \<Longrightarrow> replace_old key store c = (store', c') \<Longrightarrow>
     cache_step (store, slots) (store', before @ \<lparr>slot_cache = c', slot_phase = Reserving key v\<rparr> # after)"
| step_charge:
    "slots = before @ \<lparr>slot_cache = c, slot_phase = Reserving key v\<rparr> # after \<Longrightarrow>
     reserve (cache_budget c) (length v) store = Some (r, store') \<Longrightarrow>
     cache_step (store, slots) (store', before @ \<lparr>slot_cache = c, slot_phase = Charged key v r\<rparr> # after)"
| step_full:
    "slots = before @ \<lparr>slot_cache = c, slot_phase = Reserving key v\<rparr> # after \<Longrightarrow>
     reserve (cache_budget c) (length v) store = None \<Longrightarrow>
     cache_step (store, slots) (store, before @ \<lparr>slot_cache = c, slot_phase = Evicting key v\<rparr> # after)"
| step_admit:
    "slots = before @ \<lparr>slot_cache = c, slot_phase = Charged key v r\<rparr> # after \<Longrightarrow>
     reserve (cache_entry_budget c) 1 store = Some (entry_r, store') \<Longrightarrow>
     cache_step (store, slots)
       (store', before @ \<lparr>slot_cache = push_entry key v r entry_r c, slot_phase = Idle\<rparr> # after)"
| step_no_entry:
    "slots = before @ \<lparr>slot_cache = c, slot_phase = Charged key v r\<rparr> # after \<Longrightarrow>
     reserve (cache_entry_budget c) 1 store = None \<Longrightarrow>
     cache_step (store, slots)
       (drop_reservation r store, before @ \<lparr>slot_cache = c, slot_phase = Evicting key v\<rparr> # after)"
| step_evict:
    "slots = before @ \<lparr>slot_cache = c, slot_phase = Evicting key v\<rparr> # after \<Longrightarrow>
     evict_front store c = Some (store', c') \<Longrightarrow>
     cache_step (store, slots) (store', before @ \<lparr>slot_cache = c', slot_phase = Reserving key v\<rparr> # after)"
| step_give_up:
    "slots = before @ \<lparr>slot_cache = c, slot_phase = Evicting key v\<rparr> # after \<Longrightarrow>
     evict_front store c = None \<Longrightarrow>
     cache_step (store, slots) (store, before @ \<lparr>slot_cache = c, slot_phase = Idle\<rparr> # after)"

section \<open>Accounts\<close>

text \<open>What a cache holds of a budget, and a store in which every budget has exactly the uses \<open>f\<close> says.\<close>

definition charge :: "nat \<Rightarrow> body_cache \<Rightarrow> nat" where
  "charge b c =
     (if cache_budget c = b then cache_bytes c else 0) +
     (if cache_entry_budget c = b then length (cache_lru c) else 0)"

definition ledger :: "budgets \<Rightarrow> (nat \<Rightarrow> nat) \<Rightarrow> bool" where
  "ledger store f \<longleftrightarrow>
     (\<forall>b. budget_used (store b) = f b \<and> f b \<le> budget_limit (store b) \<and> budget_limit (store b) \<le> usize_max)"

definition entry_size :: "(file_key \<rightharpoonup> cached_body) \<Rightarrow> file_key \<Rightarrow> nat" where
  "entry_size entries key = length (body_value (the (entries key)))"

definition cache_ok :: "body_cache \<Rightarrow> bool" where
  "cache_ok c \<longleftrightarrow>
     distinct (cache_lru c) \<and> set (cache_lru c) = dom (cache_entries c) \<and>
     cache_bytes c = sum_list (map (entry_size (cache_entries c)) (cache_lru c)) \<and>
     (\<forall>key entry. cache_entries c key = Some entry \<longrightarrow>
        body_reservation entry = \<lparr>res_budget = cache_budget c, res_amount = length (body_value entry)\<rparr> \<and>
        body_entry_reservation entry = \<lparr>res_budget = cache_entry_budget c, res_amount = 1\<rparr>)"

definition same_limits :: "budgets \<Rightarrow> budgets \<Rightarrow> bool" where
  "same_limits store store' \<longleftrightarrow> (\<forall>b. budget_limit (store' b) = budget_limit (store b))"

lemma ledger_cong: "ledger store f \<Longrightarrow> (\<And>b. f b = g b) \<Longrightarrow> ledger store g"
  by (simp add: ledger_def)

lemma reserve_ledger:
  assumes "ledger store f" "reserve b n store = Some (r, store')"
  shows "ledger store' (\<lambda>x. f x + (if x = b then n else 0))" "r = \<lparr>res_budget = b, res_amount = n\<rparr>" "same_limits store store'"
  using assms by (auto simp: reserve_def ledger_def same_limits_def Let_def split: if_splits)

lemma drop_reservation_ledger:
  assumes "ledger store (\<lambda>x. f x + (if x = res_budget r then res_amount r else 0))"
  shows "ledger (drop_reservation r store) f" "same_limits store (drop_reservation r store)"
proof -
  define b where "b = res_budget r"
  have *: "budget_used (store b) = f b + res_amount r" "f b + res_amount r \<le> budget_limit (store b)"
    "budget_limit (store b) \<le> usize_max"
    using assms [unfolded ledger_def, THEN spec, of b] by (simp_all add: b_def)
  then have "budget_used (store b) + (usize_max + 1) - res_amount r = f b + (usize_max + 1)" "f b < usize_max + 1"
    by linarith+
  then have "(budget_used (store b) + (usize_max + 1) - res_amount r) mod (usize_max + 1) = f b"
    by (metis mod_add_self2 mod_less)
  then have used: "drop_reservation r store = store(b := (store b)\<lparr>budget_used := f b\<rparr>)"
    by (simp add: drop_reservation_def Let_def b_def)
  show "ledger (drop_reservation r store) f"
    unfolding ledger_def
  proof
    fix x
    show "budget_used (drop_reservation r store x) = f x \<and> f x \<le> budget_limit (drop_reservation r store x) \<and>
        budget_limit (drop_reservation r store x) \<le> usize_max"
      using assms [unfolded ledger_def, THEN spec, of x] by (cases "x = b") (simp_all add: used b_def)
  qed
  show "same_limits store (drop_reservation r store)"
    by (simp add: same_limits_def drop_reservation_def Let_def)
qed

lemma reserve_None_drop:
  assumes "ledger store f" "reserve b n store = Some (r, store')"
  shows "drop_reservation r store' = store"
proof
  fix x
  have "ledger store' (\<lambda>x. f x + (if x = res_budget r then res_amount r else 0))"
    using reserve_ledger(1) [OF assms] by (simp add: reserve_ledger(2) [OF assms] cong: if_cong)
  from drop_reservation_ledger [OF this] have "ledger (drop_reservation r store') f"
    "budget_limit (drop_reservation r store' x) = budget_limit (store' x)"
    by (simp_all add: same_limits_def)
  moreover have "budget_limit (store' x) = budget_limit (store x)"
    using reserve_ledger(3) [OF assms] by (simp add: same_limits_def)
  ultimately show "drop_reservation r store' x = store x"
    using assms(1) by (simp add: ledger_def budget.equality)
qed

lemma same_limits_refl [simp]: "same_limits store store"
  and same_limits_trans: "same_limits store store' \<Longrightarrow> same_limits store' store'' \<Longrightarrow> same_limits store store''"
  by (simp_all add: same_limits_def)

subsection \<open>Entries leave and enter\<close>

lemma map_entry_size_upd:
  "key \<notin> set keys \<Longrightarrow> map (entry_size (entries(key := e))) keys = map (entry_size entries) keys"
  by (auto simp: entry_size_def)

lemma cache_okD:
  assumes "cache_ok c"
  shows "distinct (cache_lru c)" "set (cache_lru c) = dom (cache_entries c)"
    "cache_bytes c = sum_list (map (entry_size (cache_entries c)) (cache_lru c))"
    "cache_entries c key = Some entry \<Longrightarrow>
      body_reservation entry = \<lparr>res_budget = cache_budget c, res_amount = length (body_value entry)\<rparr> \<and>
      body_entry_reservation entry = \<lparr>res_budget = cache_entry_budget c, res_amount = 1\<rparr>"
  using assms unfolding cache_ok_def by blast+

lemma cache_ok_entry:
  assumes "cache_ok c" "key \<in> set (cache_lru c)"
  obtains entry where "cache_entries c key = Some entry"
  using assms cache_okD(2) by blast

definition without :: "file_key \<Rightarrow> body_cache \<Rightarrow> body_cache" where
  "without key c =
     c\<lparr>cache_entries := (cache_entries c)(key := None),
       cache_bytes := cache_bytes c - entry_size (cache_entries c) key,
       cache_lru := remove1 key (cache_lru c)\<rparr>"

lemma without_budgets [simp]:
  "cache_budget (without key c) = cache_budget c" "cache_entry_budget (without key c) = cache_entry_budget c"
  by (simp_all add: without_def)

lemma without_ok:
  assumes "cache_ok c" "key \<in> set (cache_lru c)"
  shows "cache_ok (without key c)"
    "cache_bytes c = cache_bytes (without key c) + entry_size (cache_entries c) key"
    "length (cache_lru c) = length (cache_lru (without key c)) + 1"
proof -
  note ok = cache_okD [OF assms(1)]
  have bytes: "cache_bytes c =
      entry_size (cache_entries c) key + sum_list (map (entry_size (cache_entries c)) (remove1 key (cache_lru c)))"
    using sum_list_map_remove1 [OF assms(2), of "entry_size (cache_entries c)"] ok(3) by simp
  moreover have "key \<notin> set (remove1 key (cache_lru c))" using ok(1) by simp
  ultimately show "cache_ok (without key c)"
    unfolding cache_ok_def without_def using ok(1,2) ok(4)
    by (auto simp: map_entry_size_upd split: if_splits)
  show "cache_bytes c = cache_bytes (without key c) + entry_size (cache_entries c) key"
    using bytes by (simp add: without_def)
  show "length (cache_lru c) = length (cache_lru (without key c)) + 1"
    using assms(2) length_pos_if_in_set [OF assms(2)] by (simp add: without_def length_remove1)
qed

lemma drop_reservation_at:
  assumes "ledger store (\<lambda>x. f x + (if x = b then n else 0))"
  shows "ledger (drop_reservation \<lparr>res_budget = b, res_amount = n\<rparr> store) f"
    "same_limits store (drop_reservation \<lparr>res_budget = b, res_amount = n\<rparr> store)"
proof -
  have "ledger store (\<lambda>x. f x + (if x = res_budget \<lparr>res_budget = b, res_amount = n\<rparr>
      then res_amount \<lparr>res_budget = b, res_amount = n\<rparr> else 0))"
    using assms by (elim ledger_cong) simp
  then show "ledger (drop_reservation \<lparr>res_budget = b, res_amount = n\<rparr> store) f"
    "same_limits store (drop_reservation \<lparr>res_budget = b, res_amount = n\<rparr> store)"
    by (rule drop_reservation_ledger)+
qed

lemma drop_body_ledger:
  assumes "cache_ok c" "key \<in> set (cache_lru c)" "ledger store (\<lambda>b. g b + charge b c)"
  shows "ledger (drop_body (the (cache_entries c key)) store) (\<lambda>b. g b + charge b (without key c))"
    "same_limits store (drop_body (the (cache_entries c key)) store)"
proof -
  obtain entry where entry: "cache_entries c key = Some entry"
    using assms(1,2) by (rule cache_ok_entry)
  then have r: "body_reservation entry = \<lparr>res_budget = cache_budget c, res_amount = entry_size (cache_entries c) key\<rparr>"
    "body_entry_reservation entry = \<lparr>res_budget = cache_entry_budget c, res_amount = 1\<rparr>"
    using cache_okD(4) [OF assms(1) entry] by (simp_all add: entry_size_def)
  have "ledger store (\<lambda>b. ((g b + charge b (without key c)) + (if b = cache_entry_budget c then 1 else 0)) +
      (if b = cache_budget c then entry_size (cache_entries c) key else 0))"
    using assms(3) without_ok(2,3) [OF assms(1,2)] by (elim ledger_cong) (auto simp: charge_def)
  note first = drop_reservation_at [OF this]
  note second = drop_reservation_at [OF first(1)]
  show "ledger (drop_body (the (cache_entries c key)) store) (\<lambda>b. g b + charge b (without key c))"
    using second(1) by (simp add: drop_body_def entry r)
  show "same_limits store (drop_body (the (cache_entries c key)) store)"
    using same_limits_trans [OF first(2) second(2)] by (simp add: drop_body_def entry r)
qed

lemma replace_old_without:
  assumes "cache_ok c"
  shows "replace_old key store c =
    (if key \<in> set (cache_lru c) then (drop_body (the (cache_entries c key)) store, without key c) else (store, c))"
proof (cases "key \<in> set (cache_lru c)")
  case True
  then obtain entry where "cache_entries c key = Some entry" using assms by (blast elim: cache_ok_entry)
  with True show ?thesis by (simp add: replace_old_def remove_entry_def without_def entry_size_def)
next
  case False
  then have "cache_entries c key = None" using cache_okD(2) [OF assms] by auto
  with False show ?thesis by (simp add: replace_old_def)
qed

lemma evict_front_without:
  assumes "cache_ok c"
  shows "evict_front store c =
    (case cache_lru c of [] \<Rightarrow> None
     | key # _ \<Rightarrow> Some (drop_body (the (cache_entries c key)) store, without key c))"
proof (cases "cache_lru c")
  case (Cons key lru)
  then obtain entry where "cache_entries c key = Some entry"
    using cache_ok_entry [OF assms, of key] by auto
  then show ?thesis
    by (simp add: evict_front_def Cons remove_entry_def without_def entry_size_def)
qed (simp add: evict_front_def)

lemma push_entry_ok:
  assumes "cache_ok c" "key \<notin> set (cache_lru c)"
    and "r = \<lparr>res_budget = cache_budget c, res_amount = length v\<rparr>"
    and "entry_r = \<lparr>res_budget = cache_entry_budget c, res_amount = 1\<rparr>"
  shows "cache_ok (push_entry key v r entry_r c)"
    "charge b (push_entry key v r entry_r c) =
      charge b c + (if b = cache_budget c then length v else 0) + (if b = cache_entry_budget c then 1 else 0)"
proof -
  note ok = cache_okD [OF assms(1)]
  show "cache_ok (push_entry key v r entry_r c)"
    unfolding cache_ok_def push_entry_def using ok(1-3) ok(4) assms(2-4)
    by (auto simp: map_entry_size_upd [OF assms(2)] entry_size_def [of "_(key := _)" key] split: if_splits)
qed (auto simp: charge_def push_entry_def)

lemma touch_ok:
  assumes "cache_ok c" "key \<in> set (cache_lru c)"
  shows "cache_ok (touch key c)" "charge b (touch key c) = charge b c"
proof -
  note ok = cache_okD [OF assms(1)]
  show "cache_ok (touch key c)"
    unfolding cache_ok_def touch_def
    using ok(1-3) ok(4) assms(2) sum_list_map_remove1 [OF assms(2), of "entry_size (cache_entries c)"] by auto
  show "charge b (touch key c) = charge b c"
    using without_ok(3) [OF assms] by (auto simp: charge_def touch_def without_def)
qed

lemma drop_cache_ledger:
  assumes "cache_ok c" "ledger store (\<lambda>b. g b + charge b c)"
  shows "ledger (drop_cache c store) g \<and> same_limits store (drop_cache c store)"
  using assms
proof (induction "cache_lru c" arbitrary: c store)
  case Nil
  then have "charge b c = 0" for b
    using cache_okD(3) [OF Nil.prems(1)] by (simp add: charge_def flip: Nil.hyps)
  with Nil show ?case by (simp add: drop_cache_def)
next
  case (Cons key lru)
  let ?store = "drop_body (the (cache_entries c key)) store"
  have key: "key \<in> set (cache_lru c)" "key \<notin> set lru"
    using cache_okD(1) [OF Cons.prems(1)] by (simp_all flip: Cons.hyps(2))
  have lru: "cache_lru (without key c) = lru" by (simp add: without_def flip: Cons.hyps(2))
  have "drop_cache c store = drop_cache (without key c) ?store"
    unfolding drop_cache_def lru using key(2)
    by (auto simp: without_def simp flip: Cons.hyps(2) intro!: fold_cong)
  moreover note drop_body_ledger [OF Cons.prems(1) key(1) Cons.prems(2)]
  moreover have "ledger (drop_cache (without key c) ?store) g \<and> same_limits ?store (drop_cache (without key c) ?store)"
    using Cons.hyps(1) [OF lru [symmetric] without_ok(1) [OF Cons.prems(1) key(1)]] calculation(2) by blast
  ultimately show ?case using same_limits_trans by metis
qed

section \<open>Invariant of the routes\<close>

definition phase_charge :: "nat \<Rightarrow> insert_phase \<Rightarrow> nat" where
  "phase_charge b phase = (case phase of Charged key v r \<Rightarrow> if b = res_budget r then res_amount r else 0 | _ \<Rightarrow> 0)"

definition slot_charge :: "nat \<Rightarrow> slot \<Rightarrow> nat" where
  "slot_charge b s = charge b (slot_cache s) + phase_charge b (slot_phase s)"

definition slot_ok :: "slot \<Rightarrow> bool" where
  "slot_ok s \<longleftrightarrow> cache_ok (slot_cache s) \<and>
     (case slot_phase s of
        Idle \<Rightarrow> True
      | Reserving key v \<Rightarrow> key \<notin> set (cache_lru (slot_cache s))
      | Evicting key v \<Rightarrow> key \<notin> set (cache_lru (slot_cache s))
      | Charged key v r \<Rightarrow> key \<notin> set (cache_lru (slot_cache s)) \<and>
          r = \<lparr>res_budget = cache_budget (slot_cache s), res_amount = length v\<rparr>)"

definition slots_charge :: "nat \<Rightarrow> slot list \<Rightarrow> nat" where
  "slots_charge b slots = sum_list (map (slot_charge b) slots)"

definition world_ok :: "(nat \<Rightarrow> nat) \<Rightarrow> budgets \<times> slot list \<Rightarrow> bool" where
  "world_ok limit w \<longleftrightarrow>
     ledger (fst w) (\<lambda>b. slots_charge b (snd w)) \<and> (\<forall>b. budget_limit (fst w b) = limit b) \<and>
     list_all slot_ok (snd w)"

lemma slots_charge_split:
  "slots_charge b (before @ s # after) = slots_charge b (before @ after) + slot_charge b s"
  by (simp add: slots_charge_def)

lemma world_slot:
  assumes "world_ok limit (store, before @ s # after)"
  shows "slot_ok s" "ledger store (\<lambda>b. slots_charge b (before @ after) + slot_charge b s)"
  using assms by (simp_all add: world_ok_def slots_charge_split)

lemma world_replace:
  assumes "world_ok limit (store, before @ s # after)" "same_limits store store'" "slot_ok s'"
    and "ledger store' (\<lambda>b. slots_charge b (before @ after) + slot_charge b s')"
  shows "world_ok limit (store', before @ s' # after)"
  using assms by (simp add: world_ok_def slots_charge_split same_limits_def)

lemma removal_step:
  assumes "cache_ok c" "ledger store (\<lambda>b. g b + charge b c)" "key \<in> set (cache_lru c)"
    and "store' = drop_body (the (cache_entries c key)) store"
  shows "same_limits store store'" "cache_ok (without key c)" "ledger store' (\<lambda>b. g b + charge b (without key c))"
  using assms drop_body_ledger [of c key store g] without_ok(1) by blast+

lemma cache_get_ok:
  assumes "cache_ok c"
  shows "cache_ok (snd (cache_get key c)) \<and> charge b (snd (cache_get key c)) = charge b c"
proof (cases "cache_entries c key")
  case (Some entry)
  then have "key \<in> set (cache_lru c)" using cache_okD(2) [OF assms] by auto
  then show ?thesis using Some touch_ok [OF assms] by (simp add: cache_get_def)
qed (simp add: cache_get_def assms)

lemma replace_old_ok:
  assumes "cache_ok c" "ledger store (\<lambda>b. g b + charge b c)" "replace_old key store c = (store', c')"
  shows "same_limits store store' \<and> cache_ok c' \<and> key \<notin> set (cache_lru c') \<and> ledger store' (\<lambda>b. g b + charge b c')"
proof (cases "key \<in> set (cache_lru c)")
  case True
  then show ?thesis
    using assms(3) replace_old_without [OF assms(1)] removal_step [OF assms(1,2) True] cache_okD(1) [OF assms(1)]
    by (auto simp: without_def)
next
  case False
  then show ?thesis using assms replace_old_without [OF assms(1)] by simp
qed

lemma evict_front_ok:
  assumes "cache_ok c" "ledger store (\<lambda>b. g b + charge b c)" "evict_front store c = Some (store', c')"
  shows "same_limits store store' \<and> cache_ok c' \<and> ledger store' (\<lambda>b. g b + charge b c') \<and>
    cache_lru c \<noteq> [] \<and> c' = without (hd (cache_lru c)) c \<and> cache_lru c' = tl (cache_lru c)"
proof -
  obtain old lru where old: "cache_lru c = old # lru" "store' = drop_body (the (cache_entries c old)) store"
    "c' = without old c"
    using assms(3) evict_front_without [OF assms(1)] by (auto split: list.splits)
  then show ?thesis
    using removal_step [OF assms(1,2), of old store'] by (simp add: without_def)
qed

lemma reserve_step:
  assumes "ledger store (\<lambda>b. f b + slot_charge b s)" "reserve b n store = Some (r, store')"
    and "\<And>x. slot_charge x s' = slot_charge x s + (if x = b then n else 0)"
  shows "ledger store' (\<lambda>b. f b + slot_charge b s')" "same_limits store store'"
  using reserve_ledger [OF assms(1,2)] assms(3) by (auto elim: ledger_cong)

lemmas slot_defs = slot_ok_def slot_charge_def phase_charge_def

lemma cache_step_ok:
  assumes "cache_step w w'" "world_ok limit w"
  shows "world_ok limit w'"
  using assms
proof (induction rule: cache_step.induct)
  case (step_open store slots b entry_b)
  have "cache_ok (body_cache_new b entry_b)" "charge x (body_cache_new b entry_b) = 0" for x
    by (simp_all add: cache_ok_def body_cache_new_def charge_def)
  with step_open show ?case by (simp add: world_ok_def slots_charge_def slot_defs)
next
  case (step_close slots before c after store)
  note w = world_slot [OF step_close.prems [unfolded step_close.hyps]]
  then have "ledger (drop_cache c store) (\<lambda>b. slots_charge b (before @ after)) \<and> same_limits store (drop_cache c store)"
    by (intro drop_cache_ledger) (simp_all add: slot_defs)
  with step_close show ?case by (simp add: world_ok_def same_limits_def)
next
  case (step_get slots before c after store key)
  note w = world_slot [OF step_get.prems [unfolded step_get.hyps]]
  then show ?case
    using cache_get_ok [of c key]
    by (intro world_replace [OF step_get.prems [unfolded step_get.hyps]]) (simp_all add: slot_defs)
next
  case (step_begin slots before c after store v key store' c')
  note w = world_slot [OF step_begin.prems [unfolded step_begin.hyps]]
  then show ?case
    using replace_old_ok [OF _ _ step_begin.hyps(3), of "\<lambda>b. slots_charge b (before @ after)"]
    by (intro world_replace [OF step_begin.prems [unfolded step_begin.hyps(1)]]) (simp_all add: slot_defs)
next
  case (step_charge slots before c key v after store r store')
  note w = world_slot [OF step_charge.prems [unfolded step_charge.hyps(1)]]
  have r: "r = \<lparr>res_budget = cache_budget c, res_amount = length v\<rparr>"
    using reserve_ledger(2) [OF w(2) step_charge.hyps(2)] .
  note reserve_step [OF w(2) step_charge.hyps(2), of "\<lparr>slot_cache = c, slot_phase = Charged key v r\<rparr>"]
  then show ?case
    using w(1) r by (intro world_replace [OF step_charge.prems [unfolded step_charge.hyps(1)]])
      (simp_all add: slot_defs cong: if_cong)
next
  case (step_full slots before c key v after store)
  note w = world_slot [OF step_full.prems [unfolded step_full.hyps(1)]]
  then show ?case
    by (intro world_replace [OF step_full.prems [unfolded step_full.hyps(1)]]) (simp_all add: slot_defs)
next
  case (step_admit slots before c key v r after store entry_r store')
  note w = world_slot [OF step_admit.prems [unfolded step_admit.hyps(1)]]
  note push = push_entry_ok [of c key r v entry_r]
  have entry_r: "entry_r = \<lparr>res_budget = cache_entry_budget c, res_amount = 1\<rparr>"
    using reserve_ledger(2) [OF w(2) step_admit.hyps(2)] .
  note reserve_step [OF w(2) step_admit.hyps(2), of "\<lparr>slot_cache = push_entry key v r entry_r c, slot_phase = Idle\<rparr>"]
  then show ?case
    using w(1) entry_r push
    by (intro world_replace [OF step_admit.prems [unfolded step_admit.hyps(1)]]) (simp_all add: slot_defs cong: if_cong)
next
  case (step_no_entry slots before c key v r after store)
  note w = world_slot [OF step_no_entry.prems [unfolded step_no_entry.hyps(1)]]
  have "ledger store (\<lambda>b. (slots_charge b (before @ after) + charge b c) + (if b = res_budget r then res_amount r else 0))"
    using w(2) by (elim ledger_cong) (simp add: slot_defs)
  from drop_reservation_ledger [OF this] show ?case
    using w(1) by (intro world_replace [OF step_no_entry.prems [unfolded step_no_entry.hyps(1)]]) (simp_all add: slot_defs)
next
  case (step_evict slots before c key v after store store' c')
  note w = world_slot [OF step_evict.prems [unfolded step_evict.hyps(1)]]
  have "x \<in> set (tl xs) \<Longrightarrow> x \<in> set xs" for x and xs :: "file_key list" by (cases xs) auto
  then show ?case
    using w evict_front_ok [OF _ _ step_evict.hyps(2), of "\<lambda>b. slots_charge b (before @ after)"]
    by (intro world_replace [OF step_evict.prems [unfolded step_evict.hyps(1)]]) (auto simp: slot_defs)
next
  case (step_give_up slots before c key v after store)
  note w = world_slot [OF step_give_up.prems [unfolded step_give_up.hyps(1)]]
  then show ?case
    by (intro world_replace [OF step_give_up.prems [unfolded step_give_up.hyps(1)]]) (simp_all add: slot_defs)
qed

text \<open>
  C11: Caches never retain more than their budgets allow, however many routes share them and however
  their requests interleave. In every state that can be reached by opening and closing caches, looking
  bodies up and inserting them, the bytes and entries all caches hold of a budget sum up to at most its
  limit, and each cache is consistent: its order of use lists exactly its entries, its byte count is their
  total and every entry holds exactly its own reservations.
\<close>

theorem caches_stay_within_budgets:
  assumes "\<And>b. limit b \<le> usize_max"
    and "cache_step\<^sup>*\<^sup>* (\<lambda>b. budget_new (limit b), []) (store, slots)"
  shows "sum_list (map (\<lambda>s. charge b (slot_cache s)) slots) \<le> limit b \<and> list_all (\<lambda>s. cache_ok (slot_cache s)) slots"
proof -
  have "world_ok limit (\<lambda>b. budget_new (limit b), [])"
    using assms(1) by (simp add: world_ok_def ledger_def slots_charge_def budget_new_def)
  with assms(2) have ok: "world_ok limit (store, slots)"
    by (induction rule: rtranclp_induct) (auto intro: cache_step_ok)
  then have "slots_charge b slots \<le> limit b" by (auto simp: world_ok_def ledger_def)
  moreover have "sum_list (map (\<lambda>s. charge b (slot_cache s)) slots) \<le> slots_charge b slots"
    unfolding slots_charge_def by (rule sum_list_mono) (simp add: slot_charge_def)
  ultimately show ?thesis using ok by (auto simp: world_ok_def list_all_iff slot_ok_def)
qed

theorem caches_stay_within_budgets_witness:
  "sum_list (map (\<lambda>s. charge 0 (slot_cache s))
      [\<lparr>slot_cache = body_cache_new 0 1, slot_phase = Idle\<rparr>, \<lparr>slot_cache = body_cache_new 0 1, slot_phase = Idle\<rparr>]) \<le> 10"
proof -
  define limit :: "nat \<Rightarrow> nat" where "limit = (\<lambda>_. 10)"
  let ?s = "\<lparr>slot_cache = body_cache_new 0 1, slot_phase = Idle\<rparr>"
  have "cache_step (\<lambda>b. budget_new (limit b), []) (\<lambda>b. budget_new (limit b), [?s])"
    "cache_step (\<lambda>b. budget_new (limit b), [?s]) (\<lambda>b. budget_new (limit b), [?s, ?s])"
    using step_open [of _ "[]" 0 1] step_open [of _ "[?s]" 0 1] by simp_all
  then have "cache_step\<^sup>*\<^sup>* (\<lambda>b. budget_new (limit b), []) (\<lambda>b. budget_new (limit b), [?s, ?s])"
    by (rule converse_rtranclp_into_rtranclp [OF _ r_into_rtranclp])
  moreover have "limit b \<le> usize_max" for b by (simp add: limit_def usize_max_def)
  ultimately have "sum_list (map (\<lambda>s. charge 0 (slot_cache s)) [?s, ?s]) \<le> limit 0"
    using caches_stay_within_budgets by blast
  then show ?thesis by (simp add: limit_def)
qed

section \<open>What an insertion evicts\<close>

text \<open>Whether a body would be admitted beside the entries \<open>keys\<close>, the rest of the two budgets being
  used by others.\<close>

definition admits :: "budgets \<Rightarrow> (nat \<Rightarrow> nat) \<Rightarrow> body_cache \<Rightarrow> bytes \<Rightarrow> file_key list \<Rightarrow> bool" where
  "admits store others c v keys \<longleftrightarrow>
     others (cache_budget c) + sum_list (map (entry_size (cache_entries c)) keys) + length v
       \<le> budget_limit (store (cache_budget c)) \<and>
     others (cache_entry_budget c) + length keys + 1 \<le> budget_limit (store (cache_entry_budget c))"

lemma try_admit_admits:
  assumes "cache_ok c" "ledger store (\<lambda>b. g b + charge b c)" "cache_budget c \<noteq> cache_entry_budget c"
  shows "case try_admit (length v) store c of
      (Some (r, entry_r), store') \<Rightarrow> admits store g c v (cache_lru c) \<and>
        r = \<lparr>res_budget = cache_budget c, res_amount = length v\<rparr> \<and>
        entry_r = \<lparr>res_budget = cache_entry_budget c, res_amount = 1\<rparr>
    | (None, store') \<Rightarrow> \<not> admits store g c v (cache_lru c) \<and> store' = store"
proof -
  let ?b = "cache_budget c" and ?e = "cache_entry_budget c"
  have used: "budget_used (store ?b) = g ?b + sum_list (map (entry_size (cache_entries c)) (cache_lru c))"
    "budget_used (store ?e) = g ?e + length (cache_lru c)"
    "budget_limit (store ?b) \<le> usize_max" "budget_limit (store ?e) \<le> usize_max"
    using assms cache_okD(3) [OF assms(1)] by (auto simp: ledger_def charge_def)
  show ?thesis
  proof (cases "reserve ?b (length v) store")
    case None
    then show ?thesis
      using used by (auto simp: try_admit_def admits_def reserve_def Let_def split: if_splits)
  next
    case (Some p)
    then obtain r store1 where p: "reserve ?b (length v) store = Some (r, store1)" by (cases p) auto
    note undone = reserve_None_drop [OF assms(2) p]
    have "store1 ?e = store ?e" "g ?b + sum_list (map (entry_size (cache_entries c)) (cache_lru c)) + length v
        \<le> budget_limit (store ?b)" "r = \<lparr>res_budget = ?b, res_amount = length v\<rparr>"
      using p assms(3) used by (auto simp: reserve_def Let_def split: if_splits)
    then show ?thesis
      using used undone
      by (auto simp: try_admit_def p admits_def reserve_def [of "cache_entry_budget c"] Let_def split: if_splits option.splits)
  qed
qed

definition body_at :: "body_cache \<Rightarrow> file_key \<Rightarrow> bytes option" where
  "body_at c key = map_option body_value (cache_entries c key)"

lemma insert_loop_result:
  assumes "cache_ok c" "ledger store (\<lambda>b. g b + charge b c)" "cache_budget c \<noteq> cache_entry_budget c"
    and "key \<notin> set (cache_lru c)" and "insert_loop key v store c = (store', c')"
  shows "\<exists>n admitted. cache_lru c' = drop n (cache_lru c) @ (if admitted then [key] else []) \<and>
    (\<forall>m < n. \<not> admits store g c v (drop m (cache_lru c))) \<and>
    (if admitted then admits store g c v (drop n (cache_lru c))
     else length (cache_lru c) \<le> n \<and> \<not> admits store g c v []) \<and>
    (\<forall>k. body_at c' k = (if k = key \<and> admitted then Some v
       else if k \<in> set (drop n (cache_lru c)) then body_at c k else None))"
  using assms
proof (induction "cache_lru c" arbitrary: c store)
  case (Cons old lru)
  note admit = try_admit_admits [OF Cons.prems(1-3), of v]
  have dom: "set (cache_lru c) = dom (cache_entries c)" using cache_okD(2) [OF Cons.prems(1)] .
  show ?case
  proof (cases "admits store g c v (cache_lru c)")
    case True
    then obtain r entry_r where "c' = push_entry key v r entry_r c"
      using Cons.prems(5) admit by (subst (asm) insert_loop.simps) (auto split: prod.splits option.splits)
    then show ?thesis
      using True Cons.prems(4) dom
      by (intro exI [of _ 0] exI [of _ True]) (auto simp: push_entry_def body_at_def)
  next
    case False
    then have none: "try_admit (length v) store c = (None, store)"
      using admit by (auto split: prod.splits option.splits)
    obtain store1 where evict: "evict_front store c = Some (store1, without old c)"
      using evict_front_without [OF Cons.prems(1)] by (simp flip: Cons.hyps(2))
    note ok = evict_front_ok [OF Cons.prems(1,2) evict]
    have lru: "cache_lru (without old c) = lru" using ok by (simp flip: Cons.hyps(2))
    have distinct: "old \<notin> set lru" "old \<in> set (cache_lru c)"
      using cache_okD(1) [OF Cons.prems(1)] by (simp_all flip: Cons.hyps(2))
    have loop: "insert_loop key v store1 (without old c) = (store', c')"
      using Cons.prems(5) none evict by (subst (asm) insert_loop.simps) simp
    have okc: "cache_ok (without old c)" "ledger store1 (\<lambda>b. g b + charge b (without old c))" using ok by blast+
    have limits: "budget_limit (store1 b) = budget_limit (store b)" for b using ok by (simp add: same_limits_def)
    have admits: "admits store1 g (without old c) v keys = admits store g c v keys" if "old \<notin> set keys" for keys
      unfolding admits_def limits without_budgets by (simp add: without_def map_entry_size_upd [OF that])
    have admits: "admits store1 g (without old c) v (drop m lru) = admits store g c v (drop m lru)"
      "admits store1 g (without old c) v [] = admits store g c v []" for m
      using admits [of "drop m lru"] admits [of "[]"] distinct(1) in_set_dropD [of old m lru] by auto
    have body: "body_at (without old c) k = (if k = old then None else body_at c k)" for k
      by (simp add: body_at_def without_def)
    have "key \<notin> set lru" using Cons.prems(4) by (simp flip: Cons.hyps(2))
    then obtain n admitted where n:
      "cache_lru c' = drop n lru @ (if admitted then [key] else [])"
      "\<forall>m < n. \<not> admits store g c v (drop m lru)"
      "if admitted then admits store g c v (drop n lru) else length lru \<le> n \<and> \<not> admits store g c v []"
      "\<forall>k. body_at c' k = (if k = key \<and> admitted then Some v
        else if k \<in> set (drop n lru) then body_at (without old c) k else None)"
      using Cons.hyps(1) [OF lru [symmetric] okc, unfolded lru admits without_budgets, OF Cons.prems(3) _ loop] by blast
    have "\<forall>m < Suc n. \<not> admits store g c v (drop m (cache_lru c))"
      using n(2) False by (auto simp: less_Suc_eq_0_disj simp flip: Cons.hyps(2))
    moreover have "old \<notin> set (drop n lru)" using distinct(1) in_set_dropD by metis
    ultimately show ?thesis
      using n by (intro exI [of _ "Suc n"] exI [of _ admitted]) (auto simp: body simp flip: Cons.hyps(2))
  qed
next
  case Nil
  note admit = try_admit_admits [OF Nil.prems(1-3), of v]
  have "dom (cache_entries c) = {}" using cache_okD(2) [OF Nil.prems(1)] Nil.hyps by (metis list.set(1))
  then have dom: "cache_entries c = Map.empty" by simp
  show ?case
  proof (cases "admits store g c v []")
    case True
    then obtain r entry_r where "c' = push_entry key v r entry_r c"
      using Nil.prems(5) admit by (subst (asm) insert_loop.simps) (auto simp flip: Nil.hyps split: prod.splits option.splits)
    then show ?thesis
      using True dom by (intro exI [of _ 0] exI [of _ True]) (auto simp: push_entry_def body_at_def simp flip: Nil.hyps)
  next
    case False
    then have "c' = c"
      using Nil.prems(5) admit evict_front_without [OF Nil.prems(1)]
      by (subst (asm) insert_loop.simps) (auto simp flip: Nil.hyps split: prod.splits option.splits)
    then show ?thesis
      using False dom by (intro exI [of _ 0] exI [of _ False]) (auto simp: body_at_def simp flip: Nil.hyps)
  qed
qed

lemma fst_cache_get: "fst (cache_get key c) = body_at c key"
  by (simp add: cache_get_def body_at_def split: option.splits)

lemma admits_replaced:
  assumes "cache_ok c" "same_limits store store'" "key \<notin> set keys"
  shows "admits store' g (without key c) v keys = admits store g c v keys"
  using assms(2) unfolding admits_def without_budgets same_limits_def
  by (simp add: without_def map_entry_size_upd [OF assms(3)])

text \<open>
  C31: Inserting a body makes room by dropping the least recently used entries, oldest first, and no more
  of them than needed. The entry of the same key is replaced. The body is then found, the entries that were
  not dropped are found unchanged, and if the room does not suffice even without any of them, because others
  use up the budget, the body is not kept. A body larger than the budget changes nothing.
\<close>

theorem insert_evicts_least_recent:
  assumes "cache_ok c" and "ledger store (\<lambda>b. others b + charge b c)"
    and "cache_budget c \<noteq> cache_entry_budget c" and "cache_insert key v store c = (store', c')"
  shows "if budget_limit (store (cache_budget c)) < length v then store' = store \<and> c' = c
    else \<exists>n admitted. cache_lru c' = drop n (remove1 key (cache_lru c)) @ (if admitted then [key] else []) \<and>
      (\<forall>m < n. \<not> admits store others c v (drop m (remove1 key (cache_lru c)))) \<and>
      (if admitted then admits store others c v (drop n (remove1 key (cache_lru c)))
       else length (remove1 key (cache_lru c)) \<le> n \<and> \<not> admits store others c v []) \<and>
      (\<forall>k. fst (cache_get k c') = (if k = key \<and> admitted then Some v
         else if k \<in> set (drop n (remove1 key (cache_lru c))) then fst (cache_get k c) else None))"
proof (cases "budget_limit (store (cache_budget c)) < length v")
  case True
  then show ?thesis using assms(4) by (simp add: cache_insert_def)
next
  case False
  obtain store1 c1 where r: "replace_old key store c = (store1, c1)" by fastforce
  then have loop: "insert_loop key v store1 c1 = (store', c')"
    using assms(4) False by (simp add: cache_insert_def)
  note ok = replace_old_ok [OF assms(1,2) r]
  have c1: "c1 = (if key \<in> set (cache_lru c) then without key c else c)"
    using r replace_old_without [OF assms(1)] by (auto split: if_splits)
  have gone: "key \<notin> set (remove1 key (cache_lru c))" using cache_okD(1) [OF assms(1)] by simp
  then have lru: "cache_lru c1 = remove1 key (cache_lru c)"
    by (auto simp: c1 without_def remove1_idem)
  have budgets: "cache_budget c1 \<noteq> cache_entry_budget c1" using assms(3) by (simp add: c1)
  have admits: "admits store1 others c1 v (drop m (remove1 key (cache_lru c))) =
      admits store others c v (drop m (remove1 key (cache_lru c)))"
    "admits store1 others c1 v [] = admits store others c v []" for m
    using admits_replaced [OF assms(1), of store store1 key] ok gone in_set_dropD [of key m "remove1 key (cache_lru c)"] r
    by (auto simp: c1 replace_old_without [OF assms(1)] split: if_splits)
  have body: "body_at c1 k = body_at c k" if "k \<noteq> key" for k
    using that by (simp add: c1 body_at_def without_def)
  have "\<not> key \<in> set (drop n (remove1 key (cache_lru c)))" for n using gone in_set_dropD by metis
  then have at: "(if k = key \<and> admitted then Some v else if k \<in> set (drop n (remove1 key (cache_lru c))) then body_at c1 k else None) =
      (if k = key \<and> admitted then Some v else if k \<in> set (drop n (remove1 key (cache_lru c))) then body_at c k else None)"
    for k n admitted using body [of k] by (cases "k = key") auto
  show ?thesis
    using insert_loop_result [of c1 store1 others key v store' c'] ok loop budgets False
    unfolding lru admits fst_cache_get at by simp
qed

theorem insert_evicts_least_recent_witness:
  "fst (cache_get \<lparr>key_path = ''/a'', key_mtime_ns = 1, key_encoding = [], key_body_len = 3\<rparr>
     (snd (cache_insert \<lparr>key_path = ''/a'', key_mtime_ns = 1, key_encoding = [], key_body_len = 3\<rparr> ''abc''
        (\<lambda>_. budget_new 10) (body_cache_new 0 1)))) = Some ''abc''"
proof -
  let ?key = "\<lparr>key_path = ''/a'', key_mtime_ns = 1, key_encoding = [], key_body_len = 3\<rparr>"
  let ?store = "\<lambda>_ :: nat. budget_new 10"
  obtain store' c' where insert: "cache_insert ?key ''abc'' ?store (body_cache_new 0 1) = (store', c')" by fastforce
  have "cache_ok (body_cache_new 0 1)" "ledger ?store (\<lambda>b. 0 + charge b (body_cache_new 0 1))"
    "cache_budget (body_cache_new 0 1) \<noteq> cache_entry_budget (body_cache_new 0 1)"
    by (simp_all add: cache_ok_def body_cache_new_def ledger_def budget_new_def charge_def usize_max_def)
  from insert_evicts_least_recent [OF this insert]
  have "fst (cache_get ?key c') = Some ''abc''"
    by (auto simp: body_cache_new_def budget_new_def admits_def split: if_splits)
  then show ?thesis unfolding insert snd_conv .
qed

end
