(* ===== verification/Accept.thy ===== *)
theory Accept
  imports Utf8
begin

text \<open>
  The choice between a page and its Markdown by the request's \<open>Accept\<close> field
  (\<open>pingclair-static/src/file_server/negotiate.rs\<close>). The field's text comes from the \<open>http\<close> crate's
  \<open>to_str\<close>, which is an argument. A quality is in thousandths.
\<close>

record page_preference =
  markdown :: "nat option"
  markdown_named :: bool
  html :: "nat option"

record range_quality =
  rq_quality :: nat
  rq_named :: bool

definition parse_qvalue :: "bytes \<Rightarrow> nat option" where
  "parse_qvalue txt =
     (let (integer, fraction) = (case split_once (CHR ''.'') txt of Some p \<Rightarrow> p | None \<Rightarrow> (txt, []))
      in if integer = [] \<or> \<not> list_all is_ascii_digit integer \<or> \<not> list_all is_ascii_digit fraction \<or>
            3 < length fraction then None
         else if integer = ''1'' then (if list_all (\<lambda>b. b = CHR ''0'') fraction then Some 1000 else None)
         else if integer = ''0'' then parse_uint 16 (fraction @ replicate (3 - length fraction) (CHR ''0''))
         else None)"

fun member_quality :: "bytes list \<Rightarrow> nat option" where
  "member_quality [] = Some 1000"
| "member_quality (parameter # parameters) =
     (case split_once (CHR ''='') parameter of
        None \<Rightarrow> member_quality parameters
      | Some (name, v) \<Rightarrow>
          if \<not> eq_ignore_ascii_case (str_trim name) ''q'' then member_quality parameters
          else parse_qvalue (str_trim v))"

definition specificity :: "bytes \<Rightarrow> bytes \<Rightarrow> bytes \<Rightarrow> bytes \<Rightarrow> nat option" where
  "specificity kind sub ty subtype =
     (if eq_ignore_ascii_case kind ty \<and> eq_ignore_ascii_case sub subtype then Some 1
      else if sub = ''*'' \<and> eq_ignore_ascii_case kind ty then Some 2
      else if kind = ''*'' \<and> sub = ''*'' then Some 3
      else None)"

text \<open>What one member says of \<open>ty/subtype\<close>: how specifically it names it, and its quality.\<close>

definition member_range :: "bytes \<Rightarrow> bytes \<Rightarrow> bytes \<Rightarrow> (nat \<times> nat) option" where
  "member_range ty subtype member =
     (let member = str_trim member
      in if member = [] then None
         else
           (let parts = split_on (CHR '';'') member;
                media_range = str_trim (hd parts)
            in case member_quality (tl parts) of
                 None \<Rightarrow> None
               | Some q \<Rightarrow>
                   (case split_once (CHR ''/'') media_range of
                      None \<Rightarrow> None
                    | Some (range_type, range_subtype) \<Rightarrow>
                        map_option (\<lambda>s. (s, q)) (specificity (str_trim range_type) (str_trim range_subtype) ty subtype))))"

definition best_of :: "(nat \<times> nat) option \<Rightarrow> (nat \<times> nat) option \<Rightarrow> (nat \<times> nat) option" where
  "best_of best found =
     (case found of
        None \<Rightarrow> best
      | Some (s, q) \<Rightarrow>
          if (case best of None \<Rightarrow> True | Some (known, _) \<Rightarrow> s < known) then Some (s, q) else best)"

definition quality :: "bytes option \<Rightarrow> bytes \<Rightarrow> bytes \<Rightarrow> range_quality option" where
  "quality accept ty subtype =
     map_option
       (\<lambda>accept.
          case foldl (\<lambda>best member. best_of best (member_range ty subtype member)) None (split_on (CHR '','') accept) of
            None \<Rightarrow> \<lparr>rq_quality = 0, rq_named = False\<rparr>
          | Some (s, q) \<Rightarrow> \<lparr>rq_quality = q, rq_named = (s = 1)\<rparr>) accept"

definition page_preference_from :: "(bytes \<Rightarrow> bytes option) \<Rightarrow> bytes option \<Rightarrow> page_preference" where
  "page_preference_from to_str accept_value =
     (let accept = (case accept_value of
                      None \<Rightarrow> None
                    | Some v \<Rightarrow> (case map_option str_trim (to_str v) of
                                   None \<Rightarrow> None
                                 | Some v \<Rightarrow> if v = [] then None else Some v));
          md = quality accept ''text'' ''markdown''
      in \<lparr>markdown = map_option rq_quality md,
          markdown_named = (case md of None \<Rightarrow> False | Some r \<Rightarrow> rq_named r),
          html = map_option rq_quality (quality accept ''text'' ''html'')\<rparr>)"

definition prefers_markdown :: "page_preference \<Rightarrow> bool" where
  "prefers_markdown p =
     (case (markdown p, html p) of
        (Some md, Some page) \<Rightarrow> page < md \<or> (markdown_named p \<and> 0 < md \<and> md = page)
      | _ \<Rightarrow> False)"

definition refuses_html :: "page_preference \<Rightarrow> bool" where
  "refuses_html p \<longleftrightarrow> html p = Some 0"

section \<open>The most specific range decides\<close>

definition ranges_for :: "bytes \<Rightarrow> bytes \<Rightarrow> bytes \<Rightarrow> (nat \<times> nat) list" where
  "ranges_for ty subtype accept = List.map_filter (member_range ty subtype) (split_on (CHR '','') accept)"

definition first_of :: "nat \<Rightarrow> (nat \<times> nat) list \<Rightarrow> nat option" where
  "first_of s ranges = map_option snd (find (\<lambda>r. fst r = s) ranges)"

text \<open>The exact type, else its family, else anything; the first range of that kind; nothing is a
  refusal.\<close>

definition reference_quality :: "bytes \<Rightarrow> bytes \<Rightarrow> bytes \<Rightarrow> range_quality" where
  "reference_quality ty subtype accept =
     (let ranges = ranges_for ty subtype accept
      in case first_of 1 ranges of
           Some q \<Rightarrow> \<lparr>rq_quality = q, rq_named = True\<rparr>
         | None \<Rightarrow>
             (case first_of 2 ranges of
                Some q \<Rightarrow> \<lparr>rq_quality = q, rq_named = False\<rparr>
              | None \<Rightarrow>
                  (case first_of 3 ranges of
                     Some q \<Rightarrow> \<lparr>rq_quality = q, rq_named = False\<rparr>
                   | None \<Rightarrow> \<lparr>rq_quality = 0, rq_named = False\<rparr>)))"

lemma parse_digits_value: "parse_digits w acc s = Some n \<Longrightarrow> n < (acc + 1) * 10 ^ length s"
proof (induction s arbitrary: acc)
  case (Cons c s)
  let ?acc = "acc * 10 + (byte_val c - 48)"
  from Cons.prems have "parse_digits w ?acc s = Some n" "byte_val c \<le> 57"
    by (auto simp: Let_def is_ascii_digit_def split: if_splits)
  with Cons.IH have "n < (?acc + 1) * 10 ^ length s" by blast
  also have "\<dots> \<le> ((acc + 1) * 10) * 10 ^ length s"
    using \<open>byte_val c \<le> 57\<close> by (intro mult_right_mono) simp_all
  finally show ?case by (simp add: algebra_simps)
qed simp

lemma parse_uint_three: "parse_uint 16 s = Some n \<Longrightarrow> length s \<le> 3 \<Longrightarrow> n \<le> 1000"
proof -
  assume "parse_uint 16 s = Some n" "length s \<le> 3"
  then obtain ds where "parse_digits 16 0 ds = Some n" "length ds \<le> 3"
    by (auto simp: parse_uint_def Let_def split: if_splits list.splits)
  then have "n < 10 ^ length ds" "(10 :: nat) ^ length ds \<le> 10 ^ 3"
    using parse_digits_value [of 16 0 ds n] power_increasing [of "length ds" 3 "10 :: nat"] by simp_all
  then show ?thesis by simp
qed

lemma parse_qvalue_bound: "parse_qvalue txt = Some q \<Longrightarrow> q \<le> 1000"
  by (auto simp: parse_qvalue_def Let_def split: prod.splits if_splits dest: parse_uint_three)

lemma member_quality_bound: "member_quality parameters = Some q \<Longrightarrow> q \<le> 1000"
  by (induction parameters) (auto split: option.splits if_splits dest: parse_qvalue_bound)

lemma member_range_bound: "member_range ty subtype member = Some (s, q) \<Longrightarrow> s \<in> {1, 2, 3} \<and> q \<le> 1000"
  by (auto simp: member_range_def specificity_def Let_def split: option.splits if_splits dest: member_quality_bound)

lemma ranges_for_bound: "r \<in> set (ranges_for ty subtype accept) \<Longrightarrow> fst r \<in> {1, 2, 3} \<and> snd r \<le> 1000"
  by (cases r) (force simp: ranges_for_def map_filter_def dest: member_range_bound)

lemma foldl_best_filter:
  "foldl (\<lambda>best member. best_of best (f member)) best members =
     foldl (\<lambda>best r. best_of best (Some r)) best (List.map_filter f members)"
  by (induction members arbitrary: best) (auto simp: map_filter_simps best_of_def split: option.splits)

definition pick :: "(nat \<times> nat) list \<Rightarrow> (nat \<times> nat) option" where
  "pick ranges =
     (case find (\<lambda>r. fst r = 1) ranges of Some r \<Rightarrow> Some r | None \<Rightarrow>
     (case find (\<lambda>r. fst r = 2) ranges of Some r \<Rightarrow> Some r | None \<Rightarrow> find (\<lambda>r. fst r = 3) ranges))"

lemma foldl_best_pick:
  assumes "list_all (\<lambda>r. fst r \<in> {1, 2, 3}) (case best of None \<Rightarrow> [] | Some r \<Rightarrow> [r])"
    and "list_all (\<lambda>r. fst r \<in> {1, 2, 3}) ranges"
  shows "foldl (\<lambda>best r. best_of best (Some r)) best ranges = pick ((case best of None \<Rightarrow> [] | Some r \<Rightarrow> [r]) @ ranges)"
  using assms
proof (induction ranges arbitrary: best)
  case Nil
  then show ?case by (auto simp: pick_def split: option.splits)
next
  case (Cons r ranges)
  have step: "pick ((case best_of best (Some r) of None \<Rightarrow> [] | Some r \<Rightarrow> [r]) @ ranges) =
      pick ((case best of None \<Rightarrow> [] | Some r \<Rightarrow> [r]) @ r # ranges)"
  proof (cases best)
    case (Some b)
    obtain s q k p where r: "r = (s, q)" and b: "b = (k, p)" by fastforce
    have "s = 1 \<or> s = 2 \<or> s = 3" "k = 1 \<or> k = 2 \<or> k = 3" using Cons.prems by (auto simp: Some r b)
    then show ?thesis by (elim disjE) (simp_all add: Some r b pick_def best_of_def split: option.splits)
  qed (cases r, simp add: best_of_def)
  have "foldl (\<lambda>best r. best_of best (Some r)) (best_of best (Some r)) ranges =
      pick ((case best_of best (Some r) of None \<Rightarrow> [] | Some r \<Rightarrow> [r]) @ ranges)"
    using Cons.prems by (intro Cons.IH) (auto simp: best_of_def split: option.splits prod.splits)
  with step show ?case by simp
qed

lemma find_rank: "find (\<lambda>r. fst r = s) ranges = Some r \<Longrightarrow> fst r = s \<and> r \<in> set ranges"
  using find_SomeD by fastforce


end
