(* ===== verification/Retry.thy ===== *)
theory Retry
  imports Star_Scan Utf8
begin

text \<open>
  Whether a failed upstream attempt may be repeated: the predicates of a retry policy and their bounds
  (\<open>pingclair-core/src/config/types.rs\<close>, \<open>RetryPredicate\<close> and \<open>RetryConfig\<close>, and the retry part of
  \<open>validate_config\<close> in \<open>pingclair-config/src/compiler.rs\<close>) and the decision the proxy takes
  (\<open>pingclair-proxy/src/retry.rs\<close>). Regular expressions and header values are third-party and come in
  \<open>retry_api\<close>; the clock is an argument. A header map answers the first value of a field. An instant is in
  nanoseconds.
\<close>

section \<open>Predicates\<close>

datatype retry_predicate =
    All "retry_predicate list"
  | Any "retry_predicate list"
  | Status "nat list"
  | StatusAtLeast nat
  | TransportError
  | ResponseHeader bytes bytes
  | Method "bytes list"
  | Path "bytes list"
  | PathRegexp bytes
  | Host "bytes list"
  | Protocol bytes
  | Query bytes "bytes list"
  | RequestHeader bytes "bytes list"
  | HeaderRegexp bytes bytes

record retry_config =
  max_attempts :: nat
  total_timeout_ms :: "nat option"
  backoff_ms :: nat
  retry_match :: "retry_predicate list"

definition max_retry_predicate_depth :: nat where
  "max_retry_predicate_depth = 8"

fun predicate_depth :: "retry_predicate \<Rightarrow> nat" where
  "predicate_depth (All children) = 1 + foldr max (map predicate_depth children) 0"
| "predicate_depth (Any children) = 1 + foldr max (map predicate_depth children) 0"
| "predicate_depth _ = 1"

definition from_flat_lists :: "nat list \<Rightarrow> bytes list \<Rightarrow> bytes list \<Rightarrow> retry_predicate option" where
  "from_flat_lists status_codes methods path_patterns =
     (if status_codes = [] then None
      else
        (let children = [Status status_codes] @ [Method methods] @
               (if path_patterns \<noteq> [] then [Path path_patterns] else [])
         in Some (if length children = 1 then hd children else All children)))"

text \<open>The conditions and the regular expressions of a tree in the order they are visited.\<close>

fun for_each_condition :: "retry_predicate \<Rightarrow> retry_predicate list" where
  "for_each_condition (All children) = All children # concat (map for_each_condition children)"
| "for_each_condition (Any children) = Any children # concat (map for_each_condition children)"
| "for_each_condition p = [p]"

fun for_each_regex :: "retry_predicate \<Rightarrow> bytes list" where
  "for_each_regex (All children) = concat (map for_each_regex children)"
| "for_each_regex (Any children) = concat (map for_each_regex children)"
| "for_each_regex (PathRegexp pattern) = [pattern]"
| "for_each_regex (HeaderRegexp name pattern) = [pattern]"
| "for_each_regex _ = []"

definition default_retry_attempts :: nat where
  "default_retry_attempts = 16"

definition default_retry_methods :: "bytes list" where
  "default_retry_methods = [''GET'', ''HEAD'', ''OPTIONS'', ''TRACE'', ''PUT'', ''DELETE'']"

definition retry_config_default :: retry_config where
  "retry_config_default =
     \<lparr>max_attempts = default_retry_attempts, total_timeout_ms = None, backoff_ms = 0, retry_match = []\<rparr>"

record retry_config_wire =
  wire_max_attempts :: nat
  wire_total_timeout_ms :: "nat option"
  wire_backoff_ms :: nat
  wire_status_codes :: "nat list"
  wire_methods :: "bytes list"
  wire_path_patterns :: "bytes list"
  wire_expressions :: "bytes list"
  wire_retry_match :: "retry_predicate list"

definition retry_config_from_wire :: "retry_config_wire \<Rightarrow> retry_config" where
  "retry_config_from_wire wire =
     \<lparr>max_attempts = wire_max_attempts wire, total_timeout_ms = wire_total_timeout_ms wire,
      backoff_ms = wire_backoff_ms wire,
      retry_match =
        (if wire_retry_match wire = []
         then (case from_flat_lists (wire_status_codes wire) (wire_methods wire) (wire_path_patterns wire) of
                 None \<Rightarrow> [] | Some p \<Rightarrow> [p])
         else wire_retry_match wire)\<rparr>"

section \<open>Validation\<close>

datatype retry_error =
    AttemptsOutOfRange
  | TotalTimeoutOutOfRange
  | BackoffOutOfRange
  | BackoffNotShorter
  | TooManyAlternatives
  | NestsTooDeep
  | StatusListOutOfBounds
  | StatusThresholdOutOfBounds
  | MethodListOutOfBounds
  | InvalidRegex bytes

definition condition_bounds :: "retry_predicate \<Rightarrow> retry_error option" where
  "condition_bounds condition =
     (case condition of
        Status any_of \<Rightarrow>
          if any_of = [] \<or> 200 < length any_of \<or> \<not> distinct any_of \<or>
             list_ex (\<lambda>status. \<not> (400 \<le> status \<and> status \<le> 599)) any_of
          then Some StatusListOutOfBounds else None
      | StatusAtLeast code \<Rightarrow> if \<not> (400 \<le> code \<and> code \<le> 599) then Some StatusThresholdOutOfBounds else None
      | Method any_of \<Rightarrow>
          if any_of = [] \<or> 12 < length any_of \<or> \<not> distinct any_of then Some MethodListOutOfBounds else None
      | _ \<Rightarrow> None)"

text \<open>The first answer of a visit.\<close>

fun first_some :: "('a \<Rightarrow> 'b option) \<Rightarrow> 'a list \<Rightarrow> 'b option" where
  "first_some f [] = None"
| "first_some f (x # xs) = (case f x of Some y \<Rightarrow> Some y | None \<Rightarrow> first_some f xs)"

definition validate_predicate :: "(bytes \<Rightarrow> bool) \<Rightarrow> retry_predicate \<Rightarrow> retry_error option" where
  "validate_predicate regex_ok predicate =
     (if max_retry_predicate_depth < predicate_depth predicate then Some NestsTooDeep
      else
        (case first_some condition_bounds (for_each_condition predicate) of
           Some e \<Rightarrow> Some e
         | None \<Rightarrow>
             first_some (\<lambda>pattern. if regex_ok pattern then None else Some (InvalidRegex pattern))
               (for_each_regex predicate)))"

definition validate_retry :: "(bytes \<Rightarrow> bool) \<Rightarrow> retry_config \<Rightarrow> retry_error option" where
  "validate_retry regex_ok retry =
     (if \<not> (1 \<le> max_attempts retry \<and> max_attempts retry \<le> 16) then Some AttemptsOutOfRange
      else if (case total_timeout_ms retry of None \<Rightarrow> False | Some v \<Rightarrow> v = 0 \<or> 31536000000 < v)
      then Some TotalTimeoutOutOfRange
      else if 31536000000 < backoff_ms retry then Some BackoffOutOfRange
      else if (case total_timeout_ms retry of
                 None \<Rightarrow> False | Some timeout \<Rightarrow> 1 < max_attempts retry \<and> timeout \<le> backoff_ms retry)
      then Some BackoffNotShorter
      else if 64 < length (retry_match retry) then Some TooManyAlternatives
      else first_some (validate_predicate regex_ok) (retry_match retry))"

section \<open>Decisions\<close>

record retry_api =
  regex_matches :: "bytes \<Rightarrow> bytes \<Rightarrow> bool option"
  value_text :: "bytes \<Rightarrow> bytes option"
  method_valid :: "bytes \<Rightarrow> bool"

type_synonym instant = nat

text \<open>The seconds of an instant are a signed 64-bit number, so adding to it may fail.\<close>

definition instant_checked_add :: "instant \<Rightarrow> nat \<Rightarrow> instant option" where
  "instant_checked_add t d = (if (t + d) div 1000000000 < 2 ^ 63 then Some (t + d) else None)"

definition deadline :: "instant \<Rightarrow> retry_config \<Rightarrow> instant option" where
  "deadline started policy =
     (case total_timeout_ms policy of None \<Rightarrow> None | Some millis \<Rightarrow> instant_checked_add started (millis * 1000000))"

definition backoff :: "retry_config \<Rightarrow> nat" where
  "backoff policy = backoff_ms policy * 1000000"

definition permits_another_attempt :: "instant \<Rightarrow> retry_config \<Rightarrow> nat \<Rightarrow> instant option \<Rightarrow> bool" where
  "permits_another_attempt now policy attempts retry_deadline \<longleftrightarrow>
     attempts < max_attempts policy \<and>
     (case retry_deadline of
        None \<Rightarrow> True
      | Some end_at \<Rightarrow>
          (case instant_checked_add now (backoff policy) of
             None \<Rightarrow> False | Some after_backoff \<Rightarrow> after_backoff < end_at))"

record attempt_facts =
  upstream_method :: bytes
  upstream_path :: bytes
  upstream_query :: "bytes option"
  facts_host :: bytes
  facts_scheme :: bytes
  facts_request_headers :: "bytes \<Rightarrow> bytes option"
  facts_status :: "nat option"
  facts_response_headers :: "(bytes \<Rightarrow> bytes option) option"

definition is_transport_error :: "attempt_facts \<Rightarrow> bool" where
  "is_transport_error facts \<longleftrightarrow> facts_status facts = None"

text \<open>\<open>str::find\<close> of a string: the first place it stands at.\<close>

definition find_sub :: "'a list \<Rightarrow> 'a list \<Rightarrow> nat option" where
  "find_sub part s = find (\<lambda>i. take (length part) (drop i s) = part) [0..<length s + 1]"

fun glob_parts :: "bytes list \<Rightarrow> bytes \<Rightarrow> bytes option" where
  "glob_parts [] rest = Some rest"
| "glob_parts (part # parts) rest =
     (if part = [] then glob_parts parts rest
      else
        (case find_sub part rest of
           None \<Rightarrow> None
         | Some index \<Rightarrow> glob_parts parts (drop (index + length part) rest)))"

definition glob_matches :: "bytes \<Rightarrow> bytes \<Rightarrow> bool" where
  "glob_matches pattern v =
     (if pattern = ''*'' then True
      else
        (case split_on (CHR ''*'') pattern of
           [] \<Rightarrow> True
         | first # parts \<Rightarrow>
             if \<not> str_starts_with v first then False
             else
               (case glob_parts parts (drop (length first) v) of
                  None \<Rightarrow> False
                | Some rest \<Rightarrow> str_ends_with pattern ''*'' \<or> rest = [])))"

fun first_pair :: "bytes \<Rightarrow> bytes list \<Rightarrow> bytes option" where
  "first_pair key [] = None"
| "first_pair key (pair # pairs) =
     (let (name, v) = (case split_once (CHR ''='') pair of Some p \<Rightarrow> p | None \<Rightarrow> (pair, []))
      in if name = key then Some v else first_pair key pairs)"

definition query_values :: "bytes option \<Rightarrow> bytes \<Rightarrow> bytes option" where
  "query_values query key =
     (case query of None \<Rightarrow> None | Some query \<Rightarrow> first_pair key (split_on (CHR ''&'') query))"

definition is_some_and :: "'a option \<Rightarrow> ('a \<Rightarrow> bool) \<Rightarrow> bool" where
  "is_some_and x f = (case x of None \<Rightarrow> False | Some y \<Rightarrow> f y)"

fun evaluate_predicate :: "retry_api \<Rightarrow> retry_predicate \<Rightarrow> attempt_facts \<Rightarrow> bool" where
  "evaluate_predicate api (All children) facts = list_all (\<lambda>child. evaluate_predicate api child facts) children"
| "evaluate_predicate api (Any children) facts = list_ex (\<lambda>child. evaluate_predicate api child facts) children"
| "evaluate_predicate api (Status any_of) facts = is_some_and (facts_status facts) (\<lambda>s. s \<in> set any_of)"
| "evaluate_predicate api (StatusAtLeast code) facts = is_some_and (facts_status facts) (\<lambda>s. code \<le> s)"
| "evaluate_predicate api TransportError facts = is_transport_error facts"
| "evaluate_predicate api (ResponseHeader name v) facts =
     is_some_and (case facts_response_headers facts of None \<Rightarrow> None | Some headers \<Rightarrow> headers name)
       (\<lambda>found. v = ''*'' \<or> found = v)"
| "evaluate_predicate api (Method any_of) facts =
     list_ex (\<lambda>configured. eq_ignore_ascii_case configured (upstream_method facts)) any_of"
| "evaluate_predicate api (Path any_of) facts =
     list_ex (\<lambda>pattern. glob_matches pattern (upstream_path facts)) any_of"
| "evaluate_predicate api (PathRegexp pattern) facts =
     is_some_and (regex_matches api pattern (upstream_path facts)) (\<lambda>matched. matched)"
| "evaluate_predicate api (Host any_of) facts =
     list_ex (\<lambda>configured. eq_ignore_ascii_case configured (facts_host facts)) any_of"
| "evaluate_predicate api (Protocol name) facts = eq_ignore_ascii_case name (facts_scheme facts)"
| "evaluate_predicate api (Query key any_of) facts =
     is_some_and (query_values (upstream_query facts) key) (\<lambda>found. list_ex (\<lambda>want. want = ''*'' \<or> want = found) any_of)"
| "evaluate_predicate api (RequestHeader name any_of) facts =
     is_some_and (facts_request_headers facts name) (\<lambda>found. list_ex (\<lambda>want. want = ''*'' \<or> want = found) any_of)"
| "evaluate_predicate api (HeaderRegexp name pattern) facts =
     is_some_and (case facts_request_headers facts name of None \<Rightarrow> None | Some v \<Rightarrow> value_text api v)
       (\<lambda>v. is_some_and (regex_matches api pattern v) (\<lambda>matched. matched))"

definition retry_match_permits :: "retry_api \<Rightarrow> retry_predicate list \<Rightarrow> attempt_facts \<Rightarrow> bool" where
  "retry_match_permits api predicates facts = list_ex (\<lambda>predicate. evaluate_predicate api predicate facts) predicates"

definition body_is_replay_safe :: "bool \<Rightarrow> bool" where
  "body_is_replay_safe body_is_empty = body_is_empty"

definition method_is_idempotent :: "bytes \<Rightarrow> bool" where
  "method_is_idempotent method \<longleftrightarrow> method \<in> {''GET'', ''HEAD'', ''OPTIONS'', ''TRACE'', ''PUT'', ''DELETE''}"

definition ascii_uppercase :: "bytes \<Rightarrow> bytes" where
  "ascii_uppercase s = map (\<lambda>c. if is_ascii_lowercase c then char_of (byte_val c - 32) else c) s"

definition note_methods :: "retry_api \<Rightarrow> bytes list \<Rightarrow> retry_predicate \<Rightarrow> bytes list" where
  "note_methods api named condition =
     (case condition of
        Method any_of \<Rightarrow>
          foldl (\<lambda>named name.
             let upper = ascii_uppercase name;
                 idempotent = (method_valid api upper \<and> method_is_idempotent upper)
             in if \<not> idempotent \<and> upper \<notin> set named then named @ [upper] else named) named any_of
      | _ \<Rightarrow> named)"

definition non_idempotent_methods :: "retry_api \<Rightarrow> retry_config \<Rightarrow> bytes list" where
  "non_idempotent_methods api policy =
     foldl (\<lambda>named predicate. foldl (note_methods api) named (for_each_condition predicate)) [] (retry_match policy)"

definition request_is_repeatable :: "bytes \<Rightarrow> bool \<Rightarrow> bool" where
  "request_is_repeatable method body_is_empty \<longleftrightarrow> body_is_replay_safe body_is_empty \<and> method_is_idempotent method"

definition permits_retry ::
    "retry_api \<Rightarrow> instant \<Rightarrow> retry_config \<Rightarrow> attempt_facts \<Rightarrow> bool \<Rightarrow> nat \<Rightarrow> instant option \<Rightarrow> bool" where
  "permits_retry api now policy facts body_is_empty attempts retry_deadline =
     (if \<not> request_is_repeatable (upstream_method facts) body_is_empty \<or>
         \<not> permits_another_attempt now policy attempts retry_deadline
      then False
      else retry_match policy \<noteq> [] \<and> retry_match_permits api (retry_match policy) facts)"

section \<open>Globs\<close>

abbreviation star_glob :: "bytes \<Rightarrow> bytes \<Rightarrow> bool" where
  "star_glob \<equiv> star_match (\<lambda>t. t = CHR ''*'') (=)"

definition stars :: "bytes list \<Rightarrow> bytes" where
  "stars parts = concat (map (\<lambda>part. ''*'' @ part) parts)"

lemma star_glob_star: "star_glob (CHR ''*'' # ts) us \<longleftrightarrow> (\<exists>k \<le> length us. star_glob ts (drop k us))"
  by (rule star_match_star) simp

lemma star_glob_drop: "star_glob (CHR ''*'' # ts) (drop k us) \<Longrightarrow> star_glob (CHR ''*'' # ts) us"
proof -
  assume "star_glob (CHR ''*'' # ts) (drop k us)"
  then obtain j where j: "j \<le> length us - k" "star_glob ts (drop (j + k) us)"
    unfolding star_glob_star by (auto simp: drop_drop)
  show ?thesis
  proof (cases "k \<le> length us")
    case True
    then show ?thesis unfolding star_glob_star using j by (intro exI [of _ "j + k"]) simp
  next
    case False
    then show ?thesis unfolding star_glob_star using j by (intro exI [of _ "length us"]) simp
  qed
qed

lemma star_glob_any: "star_glob ''*'' us"
  unfolding star_glob_star by (intro exI [of _ "length us"]) simp

lemma star_glob_literal:
  "CHR ''*'' \<notin> set seg \<Longrightarrow>
    star_glob (seg @ ts) us \<longleftrightarrow> take (length seg) us = seg \<and> star_glob ts (drop (length seg) us)"
proof (induction seg arbitrary: us)
  case (Cons c seg)
  then show ?case by (cases us) auto
qed simp

lemma find_sub_Some:
  assumes "find_sub part s = Some i"
  shows "i \<le> length s" "take (length part) (drop i s) = part"
  using find_SomeD [OF assms [unfolded find_sub_def]] by auto

lemma find_sub_first:
  assumes "take (length part) (drop k s) = part" "k \<le> length s"
  obtains i where "find_sub part s = Some i" "i \<le> k"
proof -
  let ?P = "\<lambda>i. take (length part) (drop i s) = part"
  have "k \<in> set [0..<length s + 1]" using assms(2) by auto
  then have "find_sub part s \<noteq> None"
    using assms(1) unfolding find_sub_def find_None_iff by blast
  then obtain i where i: "find_sub part s = Some i" by blast
  then obtain j where "j < length [0..<length s + 1]" "[0..<length s + 1] ! j = i"
    "\<forall>m < j. \<not> ?P ([0..<length s + 1] ! m)"
    unfolding find_sub_def find_Some_iff by blast
  then have "\<forall>m < i. \<not> ?P m" by (auto simp del: upt_Suc)
  with assms(1) have "i \<le> k" by (metis not_le)
  with i that show thesis by blast
qed

lemma glob_parts_sound:
  assumes "glob_parts parts rest = Some rest'" "\<forall>part \<in> set parts. CHR ''*'' \<notin> set part" "star_glob tail rest'"
  shows "star_glob (stars parts @ tail) rest"
  using assms
proof (induction parts arbitrary: rest)
  case (Cons part parts)
  show ?case
  proof (cases "part = []")
    case True
    then have "star_glob (stars parts @ tail) rest" using Cons by simp
    then have "star_glob (CHR ''*'' # (stars parts @ tail)) rest"
      unfolding star_glob_star by (intro exI [of _ 0]) simp
    with True show ?thesis by (simp add: stars_def)
  next
    case False
    then obtain i where i: "find_sub part rest = Some i" "glob_parts parts (drop (i + length part) rest) = Some rest'"
      using Cons.prems(1) by (auto split: option.splits)
    have "star_glob (part @ (stars parts @ tail)) (drop i rest)"
      using Cons.IH [OF i(2)] Cons.prems(2,3) find_sub_Some(2) [OF i(1)]
      by (subst star_glob_literal) (auto simp: drop_drop add.commute)
    then have "star_glob (CHR ''*'' # part @ (stars parts @ tail)) rest"
      unfolding star_glob_star using find_sub_Some(1) [OF i(1)] by blast
    then show ?thesis by (simp add: stars_def)
  qed
qed (simp add: stars_def)

lemma glob_parts_complete:
  assumes "star_glob (stars parts @ ''*'') rest" "\<forall>part \<in> set parts. CHR ''*'' \<notin> set part"
  shows "glob_parts parts rest \<noteq> None"
  using assms
proof (induction parts arbitrary: rest)
  case (Cons part parts)
  obtain ts where ts: "stars parts @ ''*'' = CHR ''*'' # ts"
    by (cases parts) (simp_all add: stars_def)
  obtain k where k: "k \<le> length rest" "star_glob (part @ (stars parts @ ''*'')) (drop k rest)"
    using Cons.prems(1) star_glob_star [of "part @ (stars parts @ ''*'')"] by (auto simp: stars_def)
  then have fits: "take (length part) (drop k rest) = part" "star_glob (stars parts @ ''*'') (drop (length part + k) rest)"
    using star_glob_literal [of part "stars parts @ ''*''" "drop k rest"] Cons.prems(2) by (simp_all add: drop_drop)
  show ?case
  proof (cases "part = []")
    case True
    then show ?thesis
      using Cons.IH [of rest] Cons.prems(2) fits(2) star_glob_drop [of ts k rest] by (simp add: ts)
  next
    case False
    obtain i where i: "find_sub part rest = Some i" "i \<le> k" using find_sub_first [OF fits(1) k(1)] .
    have "drop (length part + k) rest = drop (k - i) (drop (i + length part) rest)"
      using i(2) by (simp add: drop_drop add.commute)
    then have "star_glob (stars parts @ ''*'') (drop (i + length part) rest)"
      using fits(2) star_glob_drop [of ts "k - i" "drop (i + length part) rest"] by (simp add: ts)
    then show ?thesis using False i(1) Cons.IH Cons.prems(2) by simp
  qed
qed simp

lemma glob_parts_trailing: "glob_parts (parts @ [[]]) rest = glob_parts parts rest"
  by (induction parts arbitrary: rest) (auto split: option.splits)

lemma pattern_parts:
  assumes "split_on (CHR ''*'') pattern = first # parts"
  shows "pattern = first @ stars parts" "CHR ''*'' \<notin> set first" "\<forall>part \<in> set parts. CHR ''*'' \<notin> set part"
  using assms join_split [of "CHR ''*''" pattern] split_on_pieces [of _ "CHR ''*''" pattern]
  by (auto simp: join_with_concat stars_def)

lemma pattern_ends_star:
  assumes "split_on (CHR ''*'') pattern = first # parts" "str_ends_with pattern ''*''"
  obtains front where "parts = front @ [[]]"
proof -
  note p = pattern_parts [OF assms(1)]
  have ends: "last pattern = CHR ''*''" "pattern \<noteq> []"
    using assms(2) by (auto simp: str_ends_with_suffix suffix_def)
  then have "parts \<noteq> []" using p(1,2) last_in_set [of pattern] by (auto simp: stars_def)
  then obtain front part where parts: "parts = front @ [part]" by (cases parts rule: rev_cases) auto
  have "part = []"
  proof (rule ccontr)
    assume "part \<noteq> []"
    then have "last pattern = last part" "last part \<in> set part" using p(1) by (simp_all add: parts stars_def)
    then show False using ends(1) p(3) parts by auto
  qed
  with parts that show thesis by blast
qed

lemma glob_matches_parts:
  assumes "split_on (CHR ''*'') pattern = first # parts"
  shows "glob_matches pattern v \<longleftrightarrow>
    (if pattern = ''*'' then True
     else str_starts_with v first \<and> (case glob_parts parts (drop (length first) v) of
            None \<Rightarrow> False | Some rest \<Rightarrow> str_ends_with pattern ''*'' \<or> rest = []))"
  by (simp add: glob_matches_def assms)

text \<open>
  C34: A path glob of a retry rule never matches a path it should not, and finds every path it should as long as
  the pattern ends in a star or has none. With text after the last star it searches the first
  occurrence of that text only: \<open>/a*b\<close> does not match \<open>/abb\<close>.
\<close>

theorem retry_glob_reference:
  "(if glob_matches pattern v then star_glob pattern v
    else if (if CHR ''*'' \<in> set pattern then str_ends_with pattern ''*'' else True) then \<not> star_glob pattern v
    else True) \<and>
   \<not> glob_matches ''/a*b'' ''/abb'' \<and> star_glob ''/a*b'' ''/abb''"
proof -
  obtain first parts where split: "split_on (CHR ''*'') pattern = first # parts" by (rule split_on_Cons_cases)
  note p = pattern_parts [OF split]
  have literal: "star_glob pattern v \<longleftrightarrow> str_starts_with v first \<and> star_glob (stars parts) (drop (length first) v)"
    unfolding p(1) str_starts_with_def using star_glob_literal [OF p(2), of "stars parts" v] .
  have sound: "star_glob pattern v" if match: "glob_matches pattern v"
  proof (cases "pattern = ''*''")
    case False
    then obtain rest where rest: "str_starts_with v first" "glob_parts parts (drop (length first) v) = Some rest"
      "str_ends_with pattern ''*'' \<or> rest = []"
      using match glob_matches_parts [OF split] by (auto split: option.splits)
    show ?thesis
    proof (cases "rest = []")
      case True
      then show ?thesis using glob_parts_sound [OF rest(2) p(3), of "[]"] literal rest(1) by simp
    next
      case ne: False
      then obtain front where front: "parts = front @ [[]]" using pattern_ends_star [OF split] rest(3) by blast
      then have "star_glob (stars front @ ''*'') (drop (length first) v)"
        using glob_parts_sound [of front _ rest "''*''"] rest(2) p(3) star_glob_any [of rest] by (simp add: glob_parts_trailing)
      then show ?thesis using literal rest(1) by (simp add: front stars_def)
    qed
  qed (use star_glob_any in blast)
  have complete: "glob_matches pattern v" if "star_glob pattern v" "str_ends_with pattern ''*'' \<or> CHR ''*'' \<notin> set pattern"
  proof (cases "str_ends_with pattern ''*''")
    case True
    then obtain front where front: "parts = front @ [[]]" using pattern_ends_star [OF split] by blast
    then have "glob_parts parts (drop (length first) v) \<noteq> None"
      using glob_parts_complete [of front "drop (length first) v"] that(1) p(3) literal
      by (simp add: stars_def glob_parts_trailing)
    then show ?thesis using glob_matches_parts [OF split] True that(1) literal by auto
  next
    case False
    then have "parts = []" using that(2) p(1) by (cases parts) (auto simp: stars_def)
    then show ?thesis using glob_matches_parts [OF split] that(1) literal by (auto simp: stars_def)
  qed
  have "\<not> glob_matches ''/a*b'' ''/abb'' \<and> star_glob ''/a*b'' ''/abb''"
    by (simp add: glob_matches_def str_starts_with_def str_ends_with_def find_sub_def)
  with sound complete show ?thesis by auto
qed

end
