(* ===== verification/Retry_Expr.thy ===== *)
theory Retry_Expr
  imports Retry Byte_Source
begin

text \<open>
  The parser of \<open>lb_retry_match\<close> expressions (\<open>pingclair-config/src/caddyfile/adapter/retry_expr.rs\<close>).
  The parser's state is the text still to be read, the input from its position on; the depth is an
  argument, since it is restored wherever parsing goes on. \<open>SlicePanic\<close> is the panic of a slice that does
  not start between characters. The loops over branches take fuel: each turn reads at least one byte,
  and \<open>parse_never_out_of_fuel\<close> shows that the length of the text is enough.
\<close>

datatype expr_error =
    EmptyExpression
  | UnexpectedAfter bytes
  | NestedTooDeep
  | ParenNotClosed
  | BraceNotClosed
  | NotARetryPlaceholder bytes
  | HeaderNeedsValue bytes
  | UnknownPlaceholder bytes
  | ListNeeded
  | StatusListNotClosed
  | StatusNeedsTest
  | ExpectedStatus
  | NotAStatus bytes
  | StatusOutOfRange nat
  | ExpectedQuoted
  | QuotedNotClosed
  | ExpectedCondition bytes
  | NeedsArguments bytes
  | HeaderRegexpNeedsPattern
  | UnknownFunction bytes
  | CallNotClosed bytes
  | MapNeeded bytes
  | MapNeedsValue bytes bytes
  | OneFieldOnly bytes
  | SlicePanic
  | OutOfFuel

type_synonym 'a expr_parser = "bytes \<Rightarrow> expr_error + ('a \<times> bytes)"

abbreviation dquote :: byte where "dquote \<equiv> CHR 0x22"
abbreviation squote :: byte where "squote \<equiv> CHR 0x27"

section \<open>Tokens\<close>

text \<open>One byte per white-space character: past a longer one the next slice starts inside it.\<close>

fun skip_space :: "bytes \<Rightarrow> expr_error + bytes" where
  "skip_space [] = Inr []"
| "skip_space (b # bs) =
     (if whitespace_chunk (hd (utf8_chunks (b # bs)))
      then (if byte_val b < 128 then skip_space bs else Inl SlicePanic)
      else Inr (b # bs))"

definition eat :: "bytes \<Rightarrow> bool expr_parser" where
  "eat token rest =
     try_bind (skip_space rest) (\<lambda>rest.
       Inr (case strip_prefix token rest of Some rest' \<Rightarrow> (True, rest') | None \<Rightarrow> (False, rest)))"

definition parse_status :: "nat expr_parser" where
  "parse_status rest =
     try_bind (skip_space rest) (\<lambda>rest.
     let digits = takeWhile is_ascii_digit rest
     in if digits = [] then Inl ExpectedStatus
        else
          (case parse_uint 16 digits of
             None \<Rightarrow> Inl (NotAStatus digits)
           | Some code \<Rightarrow>
               if \<not> (100 \<le> code \<and> code \<le> 599) then Inl (StatusOutOfRange code)
               else Inr (code, drop (length digits) rest)))"

definition parse_string :: "bytes expr_parser" where
  "parse_string rest =
     try_bind (skip_space rest) (\<lambda>rest.
     case rest of
       [] \<Rightarrow> Inl ExpectedQuoted
     | quote # body \<Rightarrow>
         if quote \<noteq> squote \<and> quote \<noteq> dquote then Inl ExpectedQuoted
         else
           (case split_once quote body of
              None \<Rightarrow> Inl QuotedNotClosed
            | Some (s, rest) \<Rightarrow> Inr (s, rest)))"

section \<open>Lists\<close>

fun string_list_loop :: "nat \<Rightarrow> bytes list \<Rightarrow> bytes list expr_parser" where
  "string_list_loop 0 values rest = Inl OutOfFuel"
| "string_list_loop (Suc n) values rest =
     try_bind (eat '','' rest) (\<lambda>(again, rest).
     if again then try_bind (parse_string rest) (\<lambda>(v, rest). string_list_loop n (values @ [v]) rest)
     else Inr (values, rest))"

definition parse_string_list :: "bytes list expr_parser" where
  "parse_string_list rest =
     try_bind (parse_string rest) (\<lambda>(v, rest'). string_list_loop (length rest + 1) [v] rest')"

fun status_list_loop :: "nat \<Rightarrow> nat list \<Rightarrow> nat list expr_parser" where
  "status_list_loop 0 any_of rest = Inl OutOfFuel"
| "status_list_loop (Suc n) any_of rest =
     try_bind (parse_status rest) (\<lambda>(code, rest).
     try_bind (eat '','' rest) (\<lambda>(comma, rest).
     if comma then status_list_loop n (any_of @ [code]) rest
     else
       try_bind (eat '']'' rest) (\<lambda>(closed, rest).
       if closed then Inr (any_of @ [code], rest) else Inl StatusListNotClosed)))"

definition parse_map_entry :: "bytes \<Rightarrow> (bytes \<times> bytes list) expr_parser" where
  "parse_map_entry function_name rest =
     try_bind (eat ''{'' rest) (\<lambda>(opened, rest).
     if \<not> opened then Inl (MapNeeded function_name)
     else
       try_bind (parse_string rest) (\<lambda>(key, rest).
       try_bind (eat '':'' rest) (\<lambda>(colon, rest).
       if \<not> colon then Inl (MapNeedsValue function_name key)
       else
         try_bind (parse_string rest) (\<lambda>(v, rest).
         try_bind (eat '','' rest) (\<lambda>(comma, rest).
         if comma then Inl (OneFieldOnly function_name)
         else
           try_bind (eat ''}'' rest) (\<lambda>(closed, rest).
           if \<not> closed then Inl (CallNotClosed function_name) else Inr ((key, [v]), rest)))))))"

section \<open>Tests\<close>

definition parse_status_test :: "retry_predicate expr_parser" where
  "parse_status_test rest =
     try_bind (eat ''=='' rest) (\<lambda>(equals, rest).
     if equals then try_bind (parse_status rest) (\<lambda>(code, rest). Inr (Status [code], rest))
     else
       try_bind (eat ''>='' rest) (\<lambda>(at_least, rest).
       if at_least then try_bind (parse_status rest) (\<lambda>(code, rest). Inr (StatusAtLeast code, rest))
       else
         try_bind (eat ''in'' rest) (\<lambda>(inside, rest).
         if inside then
           try_bind (eat ''['' rest) (\<lambda>(opened, rest).
           if \<not> opened then Inl ListNeeded
           else try_bind (status_list_loop (length rest + 1) [] rest) (\<lambda>(any_of, rest). Inr (Status any_of, rest)))
         else Inl StatusNeedsTest)))"

definition parse_placeholder_test :: "retry_predicate expr_parser" where
  "parse_placeholder_test rest =
     (case split_once (CHR ''}'') rest of
        None \<Rightarrow> Inl BraceNotClosed
      | Some (before, rest) \<Rightarrow>
          (let name = drop 1 before
           in case (case strip_prefix ''rp.'' name of
                      Some field \<Rightarrow> Some field
                    | None \<Rightarrow> strip_prefix ''http.reverse_proxy.'' name) of
                None \<Rightarrow> Inl (NotARetryPlaceholder name)
              | Some field \<Rightarrow>
                  if field = ''is_transport_error'' then Inr (TransportError, rest)
                  else
                    (case strip_prefix ''header.'' field of
                       Some header \<Rightarrow>
                         try_bind (eat ''=='' rest) (\<lambda>(equals, rest).
                         if \<not> equals then Inl (HeaderNeedsValue header)
                         else try_bind (parse_string rest) (\<lambda>(v, rest). Inr (ResponseHeader header v, rest)))
                     | None \<Rightarrow>
                         if field \<noteq> ''status_code'' then Inl (UnknownPlaceholder field)
                         else parse_status_test rest)))"

definition name_char :: "byte \<Rightarrow> bool" where
  "name_char c \<longleftrightarrow> is_ascii_alphanumeric c \<or> c = CHR ''_''"

definition parse_arguments :: "bytes \<Rightarrow> retry_predicate expr_parser" where
  "parse_arguments name rest =
     (if name = ''method'' then
        try_bind (parse_string_list rest) (\<lambda>(vs, rest). Inr (Method (map ascii_uppercase vs), rest))
      else if name = ''path'' then try_bind (parse_string_list rest) (\<lambda>(vs, rest). Inr (Path vs, rest))
      else if name = ''host'' then try_bind (parse_string_list rest) (\<lambda>(vs, rest). Inr (Host vs, rest))
      else if name = ''path_regexp'' then try_bind (parse_string rest) (\<lambda>(v, rest). Inr (PathRegexp v, rest))
      else if name = ''protocol'' then
        try_bind (parse_string rest) (\<lambda>(v, rest). Inr (Protocol (to_ascii_lowercase v), rest))
      else if name = ''header_regexp'' then
        try_bind (parse_string rest) (\<lambda>(header, rest).
        try_bind (eat '','' rest) (\<lambda>(comma, rest).
        if \<not> comma then Inl HeaderRegexpNeedsPattern
        else try_bind (parse_string rest) (\<lambda>(pattern, rest). Inr (HeaderRegexp header pattern, rest))))
      else if name = ''header'' then
        try_bind (parse_map_entry name rest) (\<lambda>((key, any_of), rest). Inr (RequestHeader key any_of, rest))
      else if name = ''query'' then
        try_bind (parse_map_entry name rest) (\<lambda>((key, any_of), rest). Inr (Query key any_of, rest))
      else Inl (UnknownFunction name))"

definition parse_function :: "retry_predicate expr_parser" where
  "parse_function rest =
     try_bind (skip_space rest) (\<lambda>rest.
     let name = takeWhile name_char rest
     in if name = [] then Inl (ExpectedCondition (concat (take 24 (utf8_chunks rest))))
        else
          try_bind (eat ''('' (drop (length name) rest)) (\<lambda>(opened, rest).
          if \<not> opened then Inl (NeedsArguments name)
          else
            try_bind (parse_arguments name rest) (\<lambda>(predicate, rest).
            try_bind (eat '')'' rest) (\<lambda>(closed, rest).
            if \<not> closed then Inl (CallNotClosed name) else Inr (predicate, rest)))))"

section \<open>Expressions\<close>

text \<open>The branches of a conjunction or disjunction after the first, and the predicate they make.\<close>

fun branch_loop ::
    "nat \<Rightarrow> bytes \<Rightarrow> retry_predicate expr_parser \<Rightarrow> retry_predicate list \<Rightarrow> retry_predicate list expr_parser" where
  "branch_loop 0 operator branch branches rest = Inl OutOfFuel"
| "branch_loop (Suc n) operator branch branches rest =
     try_bind (eat operator rest) (\<lambda>(again, rest).
     if again then try_bind (branch rest) (\<lambda>(p, rest). branch_loop n operator branch (branches @ [p]) rest)
     else Inr (branches, rest))"

definition parse_branches ::
    "bytes \<Rightarrow> (retry_predicate list \<Rightarrow> retry_predicate) \<Rightarrow> retry_predicate expr_parser \<Rightarrow> retry_predicate expr_parser" where
  "parse_branches operator combine branch rest =
     try_bind (branch rest) (\<lambda>(p, rest').
     try_bind (branch_loop (length rest + 1) operator branch [p] rest') (\<lambda>(branches, rest).
       Inr (if length branches = 1 then hd branches else combine branches, rest)))"

text \<open>The argument is how many more levels may be nested.\<close>

fun parse_primary :: "nat \<Rightarrow> retry_predicate expr_parser" where
  "parse_primary 0 rest = Inl NestedTooDeep"
| "parse_primary (Suc levels) rest =
     try_bind (eat ''('' rest) (\<lambda>(opened, rest).
     if opened then
       try_bind (parse_branches ''||'' Any (parse_branches ''&&'' All (parse_primary levels)) rest) (\<lambda>(inner, rest).
       try_bind (eat '')'' rest) (\<lambda>(closed, rest).
       if \<not> closed then Inl ParenNotClosed else Inr (inner, rest)))
     else
       try_bind (skip_space rest) (\<lambda>rest.
       if str_starts_with rest ''{'' then parse_placeholder_test rest else parse_function rest))"

definition parse_and :: "nat \<Rightarrow> retry_predicate expr_parser" where
  "parse_and levels = parse_branches ''&&'' All (parse_primary levels)"

definition parse_or :: "nat \<Rightarrow> retry_predicate expr_parser" where
  "parse_or levels = parse_branches ''||'' Any (parse_and levels)"

definition trim_backquotes :: "bytes \<Rightarrow> bytes" where
  "trim_backquotes s =
     rev (dropWhile (\<lambda>c. c = CHR 0x60) (rev (dropWhile (\<lambda>c. c = CHR 0x60) s)))"

definition parse_expression :: "bytes \<Rightarrow> expr_error + retry_predicate" where
  "parse_expression expression =
     (let txt = str_trim (trim_backquotes (str_trim expression))
      in if txt = [] then Inl EmptyExpression
         else
           try_bind (parse_or max_retry_predicate_depth txt) (\<lambda>(predicate, rest).
           try_bind (skip_space rest) (\<lambda>rest.
           if rest \<noteq> [] then Inl (UnexpectedAfter rest) else Inr predicate)))"

section \<open>Every parser returns\<close>

text \<open>A parser that never gives back more than it was given and does not run out of fuel.\<close>

locale returning_parser =
  fixes branch :: "'a expr_parser"
  assumes no_fuel_lost: "branch rest \<noteq> Inl OutOfFuel"
    and gives_back: "branch rest = Inr (x, rest') \<Longrightarrow> length rest' \<le> length rest"

lemma skip_space_returns:
  "skip_space rest \<noteq> Inl OutOfFuel" "skip_space rest = Inr rest' \<Longrightarrow> length rest' \<le> length rest"
  by (induction rest) (auto split: if_splits)

lemma eat_returns: "eat token rest \<noteq> Inl OutOfFuel"
  by (auto simp: eat_def try_bind_Inl_iff skip_space_returns)

lemma eat_length:
  assumes "eat token rest = Inr (hit, rest')"
  shows "length rest' + (if hit then length token else 0) \<le> length rest"
proof -
  obtain r where "skip_space rest = Inr r" "(case strip_prefix token r of Some rest' \<Rightarrow> (True, rest') | None \<Rightarrow> (False, r)) = (hit, rest')"
    using assms by (auto simp: eat_def try_bind_Inr_iff)
  then show ?thesis
    using skip_space_returns(2) [of rest r] by (auto simp: strip_prefix_Some split: option.splits)
qed

lemma parse_status_returns: "returning_parser parse_status"
proof
  fix rest x rest'
  show "parse_status rest \<noteq> Inl OutOfFuel"
    using skip_space_returns(1) [of rest]
    by (cases "skip_space rest") (auto simp: parse_status_def Let_def split: option.splits if_splits)
  assume parsed: "parse_status rest = Inr (x, rest')"
  then obtain r where r: "skip_space rest = Inr r" by (cases "skip_space rest") (auto simp: parse_status_def)
  then have "\<exists>k. rest' = drop k r"
    using parsed by (auto simp: parse_status_def Let_def split: option.splits if_splits)
  then have "length rest' \<le> length r" by auto
  then show "length rest' \<le> length rest" using skip_space_returns(2) [OF r] by (rule le_trans)
qed

lemma parse_string_returns: "returning_parser parse_string"
proof
  fix rest x rest'
  show "parse_string rest \<noteq> Inl OutOfFuel"
    using skip_space_returns(1) [of rest]
    by (cases "skip_space rest") (auto simp: parse_string_def split: option.splits if_splits list.splits)
  assume parsed: "parse_string rest = Inr (x, rest')"
  then obtain r where r: "skip_space rest = Inr r" by (cases "skip_space rest") (auto simp: parse_string_def)
  then obtain quote body where "r = quote # body" "split_once quote body = Some (x, rest')"
    using parsed by (auto simp: parse_string_def split: option.splits if_splits list.splits)
  then have "length rest' \<le> length r" by (simp add: split_once_Some)
  then show "length rest' \<le> length rest" using skip_space_returns(2) [OF r] by (rule le_trans)
qed

interpretation status: returning_parser parse_status by (rule parse_status_returns)

interpretation quoted_string: returning_parser parse_string by (rule parse_string_returns)

definition good :: "nat \<Rightarrow> expr_error + ('a \<times> bytes) \<Rightarrow> bool" where
  "good n r \<longleftrightarrow> r \<noteq> Inl OutOfFuel \<and> (\<forall>x rest. r = Inr (x, rest) \<longrightarrow> length rest \<le> n)"

lemma good_bind:
  assumes "good n r" "\<And>x rest. r = Inr (x, rest) \<Longrightarrow> length rest \<le> n \<Longrightarrow> good n (f (x, rest))"
  shows "good n (try_bind r f)"
  using assms by (cases r) (auto simp: good_def)

lemma good_simps [simp]: "good n (Inl e) \<longleftrightarrow> e \<noteq> OutOfFuel" "good n (Inr (x, rest)) \<longleftrightarrow> length rest \<le> n"
  by (auto simp: good_def)

lemma good_if: "(b \<Longrightarrow> good n x) \<Longrightarrow> (\<not> b \<Longrightarrow> good n y) \<Longrightarrow> good n (if b then x else y)"
  and good_option: "(o' = None \<Longrightarrow> good n x) \<Longrightarrow> (\<And>z. o' = Some z \<Longrightarrow> good n (f z)) \<Longrightarrow>
    good n (case o' of None \<Rightarrow> x | Some z \<Rightarrow> f z)"
  by (auto split: option.splits)

lemma good_mono: "good m r \<Longrightarrow> m \<le> n \<Longrightarrow> good n r"
  by (auto simp: good_def)

lemma returning_parser_iff: "returning_parser f \<longleftrightarrow> (\<forall>n rest. length rest \<le> n \<longrightarrow> good n (f rest))"
  unfolding returning_parser_def good_def by (meson le_trans order_refl)

lemma good_eat: "length rest \<le> n \<Longrightarrow> good n (eat token rest)"
  using eat_returns eat_length by (fastforce simp: good_def)

lemma good_status: "length rest \<le> n \<Longrightarrow> good n (parse_status rest)"
  and good_string: "length rest \<le> n \<Longrightarrow> good n (parse_string rest)"
  using parse_status_returns parse_string_returns unfolding returning_parser_iff by blast+

lemma good_skip: "length rest \<le> n \<Longrightarrow> (\<And>r. length r \<le> n \<Longrightarrow> good n (f r)) \<Longrightarrow> good n (try_bind (skip_space rest) f)"
  using skip_space_returns [of rest] by (cases "skip_space rest") (auto intro: le_trans)

lemma good_string_list_loop: "length rest < n \<Longrightarrow> good (length rest) (string_list_loop n vs rest)"
proof (induction n arbitrary: vs rest)
  case (Suc n)
  show ?case
    unfolding string_list_loop.simps
  proof (rule good_bind [OF good_eat [OF order_refl]])
    fix hit r
    assume "eat '','' rest = Inr (hit, r)"
    note len = eat_length [OF this]
    show "good (length rest) (case (hit, r) of (again, rest) \<Rightarrow>
        if again then try_bind (parse_string rest) (\<lambda>(v, rest). string_list_loop n (vs @ [v]) rest) else Inr (vs, rest))"
    proof (cases hit)
      case True
      have "good (length r) (try_bind (parse_string r) (\<lambda>(v, rest). string_list_loop n (vs @ [v]) rest))"
        using len True Suc.prems by (intro good_bind [OF good_string]) (auto intro!: good_mono [OF Suc.IH])
      then show ?thesis using True len by (auto elim: good_mono)
    qed (use len in simp)
  qed
qed simp

lemma good_status_list_loop: "length rest < n \<Longrightarrow> good (length rest) (status_list_loop n cs rest)"
proof (induction n arbitrary: cs rest)
  case (Suc n)
  show ?case
    unfolding status_list_loop.simps
  proof (rule good_bind [OF good_status [OF order_refl]])
    fix code and r :: bytes
    assume r: "length r \<le> length rest"
    have "good (length r) (try_bind (eat '','' r) (\<lambda>(comma, rest).
        if comma then status_list_loop n (cs @ [code]) rest
        else try_bind (eat '']'' rest) (\<lambda>(closed, rest).
          if closed then Inr (cs @ [code], rest) else Inl StatusListNotClosed)))"
    proof (rule good_bind [OF good_eat [OF order_refl]])
      fix comma q
      assume "eat '','' r = Inr (comma, q)" "length q \<le> length r"
      then show "good (length r) (case (comma, q) of (comma, rest) \<Rightarrow>
          if comma then status_list_loop n (cs @ [code]) rest
          else try_bind (eat '']'' rest) (\<lambda>(closed, rest).
            if closed then Inr (cs @ [code], rest) else Inl StatusListNotClosed))"
        using eat_length [of "'',''" r comma q] Suc.prems r
        by (auto intro!: good_mono [OF Suc.IH] good_bind [OF good_eat])
    qed
    then show "good (length rest) (case (code, r) of (code, rest) \<Rightarrow>
        try_bind (eat '','' rest) (\<lambda>(comma, rest).
        if comma then status_list_loop n (cs @ [code]) rest
        else try_bind (eat '']'' rest) (\<lambda>(closed, rest).
          if closed then Inr (cs @ [code], rest) else Inl StatusListNotClosed)))"
      using r by (auto elim: good_mono)
  qed
qed simp

lemma good_string_list: "length rest \<le> n \<Longrightarrow> good n (parse_string_list rest)"
  unfolding parse_string_list_def
proof (rule good_bind [OF good_string])
  fix v r
  assume "length rest \<le> n" "parse_string rest = Inr (v, r)"
  then show "good n (case (v, r) of (v, rest') \<Rightarrow> string_list_loop (length rest + 1) [v] rest')"
    using quoted_string.gives_back [of rest v r] by (auto simp del: string_list_loop.simps intro!: good_mono [OF good_string_list_loop])
qed

lemma good_map_entry: "length rest \<le> n \<Longrightarrow> good n (parse_map_entry f rest)"
  unfolding parse_map_entry_def
  by (auto intro!: good_bind good_eat good_string)

lemma good_status_test: "length rest \<le> n \<Longrightarrow> good n (parse_status_test rest)"
  unfolding parse_status_test_def
  by (auto simp del: status_list_loop.simps intro!: good_bind good_eat good_status good_mono [OF good_status_list_loop])

lemma good_placeholder_test: "length rest \<le> n \<Longrightarrow> good n (parse_placeholder_test rest)"
proof (cases "split_once (CHR ''}'') rest")
  case (Some p)
  assume "length rest \<le> n"
  then obtain before r where p: "split_once (CHR ''}'') rest = Some (before, r)" "length r \<le> n"
    using Some by (cases p) (auto simp: split_once_Some)
  have header: "good n (try_bind (eat ''=='' r) (\<lambda>(equals, rest).
      if \<not> equals then Inl (HeaderNeedsValue h)
      else try_bind (parse_string rest) (\<lambda>(v, rest). Inr (ResponseHeader h v, rest))))" for h
    using p(2) by (auto intro!: good_bind good_eat good_string)
  show ?thesis
    unfolding parse_placeholder_test_def p(1) Let_def option.case prod.case
    by (intro good_if good_option header good_status_test [OF p(2)]) (simp_all add: p(2))
qed (simp add: parse_placeholder_test_def)

lemma good_arguments: "length rest \<le> n \<Longrightarrow> good n (parse_arguments name rest)"
proof -
  assume rest: "length rest \<le> n"
  have map: "good n (try_bind (parse_map_entry name rest) (\<lambda>((key, any_of), rest). Inr (f key any_of, rest)))"
    for f :: "bytes \<Rightarrow> bytes list \<Rightarrow> retry_predicate"
    using rest by (auto intro!: good_bind good_map_entry)
  have regexp: "good n (try_bind (parse_string rest) (\<lambda>(header, rest).
      try_bind (eat '','' rest) (\<lambda>(comma, rest).
      if \<not> comma then Inl HeaderRegexpNeedsPattern
      else try_bind (parse_string rest) (\<lambda>(pattern, rest). Inr (HeaderRegexp header pattern, rest)))))"
    using rest by (auto intro!: good_bind good_eat good_string)
  have list: "good n (try_bind (parse_string_list rest) (\<lambda>(vs, rest). Inr (f vs, rest)))"
    for f :: "bytes list \<Rightarrow> retry_predicate"
    using rest by (auto intro!: good_bind good_string_list)
  have string: "good n (try_bind (parse_string rest) (\<lambda>(v, rest). Inr (f v, rest)))"
    for f :: "bytes \<Rightarrow> retry_predicate"
    using rest by (auto intro!: good_bind good_string)
  show ?thesis
    unfolding parse_arguments_def by (intro good_if map regexp list string) simp
qed

lemma good_function: "length rest \<le> n \<Longrightarrow> good n (parse_function rest)"
  unfolding parse_function_def
  by (rule good_skip) (auto simp: Let_def intro!: good_bind good_eat good_arguments)

text \<open>What the loops over branches rely on, and what they give in turn.\<close>

locale branch_parser = returning_parser branch for branch :: "retry_predicate expr_parser"
begin

lemma branch_good: "length rest \<le> n \<Longrightarrow> good n (branch rest)"
  using returning_parser_axioms unfolding returning_parser_iff by blast

lemma branch_loop_good:
  "operator \<noteq> [] \<Longrightarrow> length rest < n \<Longrightarrow> good (length rest) (branch_loop n operator branch branches rest)"
proof (induction n arbitrary: branches rest)
  case (Suc n)
  show ?case
    unfolding branch_loop.simps
  proof (rule good_bind [OF good_eat [OF order_refl]])
    fix hit r
    assume "eat operator rest = Inr (hit, r)"
    note len = eat_length [OF this]
    have short: "hit \<Longrightarrow> length r < n" using len Suc.prems by (cases operator) auto
    show "good (length rest) (case (hit, r) of (again, rest) \<Rightarrow>
        if again then try_bind (branch rest) (\<lambda>(p, rest). branch_loop n operator branch (branches @ [p]) rest)
        else Inr (branches, rest))"
    proof (cases hit)
      case True
      have "good (length r) (try_bind (branch r) (\<lambda>(p, rest). branch_loop n operator branch (branches @ [p]) rest))"
        using short True Suc.prems(1) by (intro good_bind [OF branch_good]) (auto intro!: good_mono [OF Suc.IH])
      then show ?thesis using True len by (auto elim: good_mono)
    qed (use len in simp)
  qed
qed simp

lemma parse_branches_returns:
  assumes "operator \<noteq> []"
  shows "branch_parser (parse_branches operator combine branch)"
  unfolding branch_parser_def returning_parser_iff
proof (intro allI impI)
  fix n and rest :: bytes
  assume rest: "length rest \<le> n"
  show "good n (parse_branches operator combine branch rest)"
    unfolding parse_branches_def
  proof (rule good_bind [OF branch_good [OF rest]])
    fix p r
    assume "branch rest = Inr (p, r)"
    then have "length r \<le> length rest" by (rule gives_back)
    then have "good n (branch_loop (length rest + 1) operator branch [p] r)"
      using rest by (intro good_mono [OF branch_loop_good [OF assms]]) simp_all
    then show "good n (case (p, r) of (p, rest') \<Rightarrow>
        try_bind (branch_loop (length rest + 1) operator branch [p] rest') (\<lambda>(branches, rest).
          Inr (if length branches = 1 then hd branches else combine branches, rest)))"
      by (simp del: branch_loop.simps) (auto intro!: good_bind simp del: branch_loop.simps)
  qed
qed

end

lemma parse_primary_returns: "branch_parser (parse_primary levels)"
proof (induction levels)
  case 0
  show ?case unfolding branch_parser_def returning_parser_iff by simp
next
  case (Suc levels)
  have inner: "branch_parser (parse_branches ''||'' Any (parse_branches ''&&'' All (parse_primary levels)))"
    by (intro branch_parser.parse_branches_returns Suc) simp_all
  show ?case
    unfolding branch_parser_def returning_parser_iff
  proof (intro allI impI)
    fix n and rest :: bytes
    assume rest: "length rest \<le> n"
    have test: "good n (try_bind (skip_space r) (\<lambda>rest.
        if str_starts_with rest ''{'' then parse_placeholder_test rest else parse_function rest))" if "length r \<le> n" for r
      using that by (intro good_skip good_if good_placeholder_test good_function)
    have nested: "good n (try_bind (parse_branches ''||'' Any (parse_branches ''&&'' All (parse_primary levels)) r) (\<lambda>(inner, rest).
        try_bind (eat '')'' rest) (\<lambda>(closed, rest). if \<not> closed then Inl ParenNotClosed else Inr (inner, rest))))"
      if "length r \<le> n" for r
      using that by (intro good_bind [OF branch_parser.branch_good [OF inner]]) (auto intro!: good_bind good_eat)
    show "good n (parse_primary (Suc levels) rest)"
      unfolding parse_primary.simps
      using test nested by (intro good_bind [OF good_eat [OF rest]]) simp
  qed
qed

interpretation primary: branch_parser "parse_primary levels" for levels
  by (rule parse_primary_returns)

interpretation conjunction: branch_parser "parse_and levels" for levels
  unfolding parse_and_def by (rule primary.parse_branches_returns) simp

lemma parse_never_out_of_fuel: "parse_expression expression \<noteq> Inl OutOfFuel"
proof -
  have "branch_parser (parse_or levels)" for levels
    unfolding parse_or_def by (rule conjunction.parse_branches_returns) simp
  then have "returning_parser (parse_or levels)" for levels by (simp add: branch_parser_def)
  then show ?thesis
    unfolding parse_expression_def Let_def
    by (auto simp: try_bind_Inl_iff returning_parser.no_fuel_lost skip_space_returns split: if_splits)
qed

section \<open>Printed expressions are read back\<close>

definition edge :: "byte \<Rightarrow> bool" where
  "edge c \<longleftrightarrow> byte_val c < 128 \<and> \<not> is_whitespace (byte_val c) \<and> c \<noteq> CHR 0x60"

lemma edge_simps [simp]:
  "edge (CHR ''('')" "edge (CHR '')'')" "edge (CHR ''{'')" "edge (CHR ''}'')" "edge (CHR ''['')" "edge (CHR '']'')"
  "edge (CHR '','')" "edge (CHR '':'')" "edge (CHR ''='')" "edge (CHR ''>'')" "edge (CHR ''&'')" "edge (CHR ''|'')"
  "edge squote" "edge dquote" "edge (CHR ''i'')"
  by (simp_all add: edge_def is_whitespace_def)

lemma skip_space_edge: "rest = [] \<or> edge (hd rest) \<Longrightarrow> skip_space rest = Inr rest"
proof (cases rest)
  case (Cons b bs)
  assume "rest = [] \<or> edge (hd rest)"
  then have "byte_val b < 128" "\<not> is_whitespace (byte_val b)" by (simp_all add: Cons edge_def)
  moreover have "hd (utf8_chunks (b # bs)) = [b]" using calculation by (simp add: utf8_scan_ascii)
  ultimately show ?thesis by (simp add: Cons whitespace_chunk_ascii)
qed simp

lemma skip_space_blank: "skip_space (CHR '' '' # rest) = skip_space rest"
  by (simp add: utf8_scan_ascii whitespace_chunk_ascii is_whitespace_def)

lemma eat_hit: "token \<noteq> [] \<Longrightarrow> edge (hd token) \<Longrightarrow> eat token (token @ rest) = Inr (True, rest)"
  using skip_space_edge [of "token @ rest"] by (simp add: eat_def strip_prefix_def)

lemma eat_miss: "rest = [] \<or> edge (hd rest) \<Longrightarrow> strip_prefix token rest = None \<Longrightarrow> eat token rest = Inr (False, rest)"
  using skip_space_edge [of rest] by (simp add: eat_def)

text \<open>The concrete syntax of a predicate, and which predicates have one.\<close>

definition quoted :: "bytes \<Rightarrow> bytes" where
  "quoted s = (if squote \<in> set s then [dquote] @ s @ [dquote] else [squote] @ s @ [squote])"

definition quotable :: "bytes \<Rightarrow> bool" where
  "quotable s \<longleftrightarrow> squote \<notin> set s \<or> dquote \<notin> set s"

definition call :: "bytes \<Rightarrow> bytes \<Rightarrow> bytes" where
  "call name arguments = name @ ''('' @ arguments @ '')''"

definition entry :: "bytes \<Rightarrow> bytes list \<Rightarrow> bytes" where
  "entry key vs = ''{'' @ quoted key @ '': '' @ quoted (hd vs) @ ''}''"

fun print_primary :: "retry_predicate \<Rightarrow> bytes" where
  "print_primary (All children) = ''('' @ join_with ''&&'' (map print_primary children) @ '')''"
| "print_primary (Any children) = ''('' @ join_with ''||'' (map print_primary children) @ '')''"
| "print_primary (Status any_of) = ''{rp.status_code} in ['' @ join_with '','' (map show_nat any_of) @ '']''"
| "print_primary (StatusAtLeast code) = ''{rp.status_code} >= '' @ show_nat code"
| "print_primary TransportError = ''{rp.is_transport_error}''"
| "print_primary (ResponseHeader name v) = ''{rp.header.'' @ name @ ''} == '' @ quoted v"
| "print_primary (Method any_of) = call ''method'' (join_with '','' (map quoted any_of))"
| "print_primary (Path any_of) = call ''path'' (join_with '','' (map quoted any_of))"
| "print_primary (PathRegexp pattern) = call ''path_regexp'' (quoted pattern)"
| "print_primary (Host any_of) = call ''host'' (join_with '','' (map quoted any_of))"
| "print_primary (Protocol name) = call ''protocol'' (quoted name)"
| "print_primary (Query key any_of) = call ''query'' (entry key any_of)"
| "print_primary (RequestHeader name any_of) = call ''header'' (entry name any_of)"
| "print_primary (HeaderRegexp name pattern) = call ''header_regexp'' (quoted name @ '','' @ quoted pattern)"

fun print_expression :: "retry_predicate \<Rightarrow> bytes" where
  "print_expression (All children) = join_with ''&&'' (map print_primary children)"
| "print_expression (Any children) = join_with ''||'' (map print_primary children)"
| "print_expression p = print_primary p"

definition status_code :: "nat \<Rightarrow> bool" where
  "status_code c \<longleftrightarrow> 100 \<le> c \<and> c \<le> 599"

fun expressible :: "retry_predicate \<Rightarrow> bool" where
  "expressible (All children) \<longleftrightarrow> 2 \<le> length children \<and> list_all expressible children"
| "expressible (Any children) \<longleftrightarrow> 2 \<le> length children \<and> list_all expressible children"
| "expressible (Status any_of) \<longleftrightarrow> any_of \<noteq> [] \<and> list_all status_code any_of"
| "expressible (StatusAtLeast code) \<longleftrightarrow> status_code code"
| "expressible TransportError \<longleftrightarrow> True"
| "expressible (ResponseHeader name v) \<longleftrightarrow> CHR ''}'' \<notin> set name \<and> quotable v"
| "expressible (Method any_of) \<longleftrightarrow> any_of \<noteq> [] \<and> list_all (\<lambda>v. quotable v \<and> ascii_uppercase v = v) any_of"
| "expressible (Path any_of) \<longleftrightarrow> any_of \<noteq> [] \<and> list_all quotable any_of"
| "expressible (PathRegexp pattern) \<longleftrightarrow> quotable pattern"
| "expressible (Host any_of) \<longleftrightarrow> any_of \<noteq> [] \<and> list_all quotable any_of"
| "expressible (Protocol name) \<longleftrightarrow> quotable name \<and> to_ascii_lowercase name = name"
| "expressible (Query key any_of) \<longleftrightarrow> quotable key \<and> length any_of = 1 \<and> list_all quotable any_of"
| "expressible (RequestHeader name any_of) \<longleftrightarrow> quotable name \<and> length any_of = 1 \<and> list_all quotable any_of"
| "expressible (HeaderRegexp name pattern) \<longleftrightarrow> quotable name \<and> quotable pattern"

text \<open>What may stand after a printed condition.\<close>

definition follows :: "bytes \<Rightarrow> bool" where
  "follows rest \<longleftrightarrow> rest = [] \<or> (edge (hd rest) \<and> \<not> is_ascii_digit (hd rest))"

lemma follows_simps [simp]:
  "follows []" "follows (CHR '')'' # rest)" "follows (CHR '','' # rest)" "follows (CHR '']'' # rest)"
  "follows (CHR ''&'' # rest)" "follows (CHR ''|'' # rest)" "follows (CHR ''}'' # rest)"
  by (simp_all add: follows_def is_ascii_digit_def)

lemma follows_edge: "follows rest \<Longrightarrow> rest = [] \<or> edge (hd rest)"
  by (auto simp: follows_def)

lemma edge_quoted: "edge (hd (quoted s @ rest))"
  by (simp add: quoted_def)

lemma parse_string_quoted: "quotable s \<Longrightarrow> parse_string (quoted s @ rest) = Inr (s, rest)"
proof -
  assume s: "quotable s"
  have "split_once q (s @ q # rest) = Some (s, rest)" if "q \<notin> set s" for q
    using that by (simp add: split_once_Some)
  then show ?thesis
    using s skip_space_edge [of "quoted s @ rest"] edge_quoted [of s rest]
    by (auto simp: parse_string_def quoted_def quotable_def)
qed

lemma parse_string_blank: "parse_string (CHR '' '' # rest) = parse_string rest"
  by (simp only: parse_string_def skip_space_blank)

lemma string_list_loop_quoted:
  assumes "list_all quotable vs" "length vs < n" "follows rest" "strip_prefix '','' rest = None"
  shows "string_list_loop n acc (concat (map (\<lambda>v. '','' @ quoted v) vs) @ rest) = Inr (acc @ vs, rest)"
  using assms(1,2)
proof (induction vs arbitrary: n acc)
  case Nil
  then obtain m where "n = Suc m" by (cases n) auto
  then show ?case using eat_miss [OF follows_edge [OF assms(3)] assms(4)] by simp
next
  case (Cons v vs)
  then obtain m where n: "n = Suc m" "length vs < m" by (cases n) auto
  let ?rest = "concat (map (\<lambda>v. '','' @ quoted v) vs) @ rest"
  have "eat '','' ('','' @ (quoted v @ ?rest)) = Inr (True, quoted v @ ?rest)" by (rule eat_hit) simp_all
  moreover have "parse_string (quoted v @ ?rest) = Inr (v, ?rest)" using Cons.prems by (intro parse_string_quoted) simp
  ultimately show ?case using Cons.IH [OF _ n(2), of "acc @ [v]"] Cons.prems by (simp add: n(1))
qed

lemma parse_string_list_quoted:
  assumes "vs \<noteq> []" "list_all quotable vs" "follows rest" "strip_prefix '','' rest = None"
  shows "parse_string_list (join_with '','' (map quoted vs) @ rest) = Inr (vs, rest)"
proof -
  obtain v ws where vs: "vs = v # ws" using assms(1) by (cases vs) auto
  let ?rest = "concat (map (\<lambda>v. '','' @ quoted v) ws) @ rest"
  have shape: "join_with '','' (map quoted vs) @ rest = quoted v @ ?rest"
    by (simp add: vs join_with_concat o_def)
  have "length ws \<le> length ?rest"
    by (induction ws) (simp_all add: quoted_def)
  then have "string_list_loop (length (quoted v @ ?rest) + 1) [v] ?rest = Inr ([v] @ ws, rest)"
    using assms by (intro string_list_loop_quoted) (simp_all add: vs)
  moreover have "parse_string (quoted v @ ?rest) = Inr (v, ?rest)" using assms(2) by (intro parse_string_quoted) (simp add: vs)
  ultimately have "parse_string_list (quoted v @ ?rest) = Inr (vs, rest)"
    by (simp del: string_list_loop.simps add: parse_string_list_def vs)
  then show ?thesis unfolding shape .
qed

lemma show_nat_edge: "edge (hd (show_nat n @ rest))"
proof -
  have "is_ascii_digit (hd (show_nat n))" using show_nat_digits [of n] by (cases "show_nat n") simp_all
  then show ?thesis by (simp add: edge_def is_ascii_digit_def is_whitespace_def) (auto simp: is_ascii_digit_def)
qed

lemma parse_status_show: "status_code c \<Longrightarrow> follows rest \<Longrightarrow> parse_status (show_nat c @ rest) = Inr (c, rest)"
proof -
  assume c: "status_code c" "follows rest"
  have "takeWhile is_ascii_digit (show_nat c @ rest) = show_nat c"
    using show_nat_digits [of c] c(2) by (cases rest) (auto simp: takeWhile_append follows_def list_all_iff)
  moreover have "parse_uint 16 (show_nat c) = Some c" using c(1) by (intro parse_uint_show_nat) (simp add: status_code_def)
  ultimately show ?thesis
    using c(1) skip_space_edge [of "show_nat c @ rest"] show_nat_edge [of c rest]
    by (simp add: parse_status_def status_code_def)
qed

lemma parse_status_blank: "parse_status (CHR '' '' # rest) = parse_status rest"
  by (simp only: parse_status_def skip_space_blank)

lemma status_list_loop_show:
  assumes "list_all status_code (c # cs)" "length cs < n"
  shows "status_list_loop n acc (show_nat c @ concat (map (\<lambda>c. '','' @ show_nat c) cs) @ '']'' @ rest) =
    Inr (acc @ c # cs, rest)"
  using assms
proof (induction cs arbitrary: c n acc)
  case Nil
  then obtain m where n: "n = Suc m" by (cases n) auto
  have "parse_status (show_nat c @ '']'' @ rest) = Inr (c, '']'' @ rest)"
    using Nil.prems by (intro parse_status_show) simp_all
  moreover have "eat '','' ('']'' @ rest) = Inr (False, '']'' @ rest)"
    by (rule eat_miss) (simp_all add: strip_prefix_def)
  moreover have "eat '']'' ('']'' @ rest) = Inr (True, rest)" by (rule eat_hit) simp_all
  ultimately show ?case by (simp add: n)
next
  case (Cons d cs)
  then obtain m where n: "n = Suc m" "length cs < m" by (cases n) auto
  let ?rest = "show_nat d @ concat (map (\<lambda>c. '','' @ show_nat c) cs) @ '']'' @ rest"
  have "parse_status (show_nat c @ '','' @ ?rest) = Inr (c, '','' @ ?rest)"
    using Cons.prems by (intro parse_status_show) simp_all
  moreover have "eat '','' ('','' @ ?rest) = Inr (True, ?rest)" by (rule eat_hit) simp_all
  ultimately show ?case using Cons.IH [OF _ n(2), of d "acc @ [c]"] Cons.prems(1) by (simp add: n(1))
qed

section \<open>Conditions\<close>

lemma call_function:
  assumes "name \<noteq> []" "list_all name_char name" "parse_arguments name (arguments @ '')'' @ rest) = Inr (p, '')'' @ rest)"
  shows "parse_primary (Suc levels) (call name arguments @ rest) = Inr (p, rest)"
proof -
  have name: "\<forall>c \<in> set name. edge c \<and> c \<noteq> CHR ''('' \<and> c \<noteq> CHR ''{''"
    using assms(2) by (auto simp: list_all_iff name_char_def is_ascii_alphanumeric_def is_ascii_uppercase_def
        is_ascii_lowercase_def is_ascii_digit_def edge_def is_whitespace_def)
  obtain c cs where c: "name = c # cs" using assms(1) by (cases name) auto
  have take: "takeWhile name_char (call name arguments @ rest) = name"
    using assms(2) by (auto simp: call_def takeWhile_append list_all_iff name_char_def is_ascii_alphanumeric_def
        is_ascii_uppercase_def is_ascii_lowercase_def is_ascii_digit_def)
  have call: "call name arguments @ rest = name @ (''('' @ (arguments @ '')'' @ rest))" by (simp add: call_def)
  have skip: "skip_space (call name arguments @ rest) = Inr (call name arguments @ rest)"
    using name by (intro skip_space_edge) (simp add: call_def c)
  have miss: "eat ''('' (call name arguments @ rest) = Inr (False, call name arguments @ rest)"
    using name by (intro eat_miss) (auto simp: call_def c strip_prefix_def)
  have "parse_function (call name arguments @ rest) = Inr (p, rest)"
  proof -
    have "drop (length name) (call name arguments @ rest) = ''('' @ (arguments @ '')'' @ rest)" by (simp add: call)
    moreover have "eat ''('' (''('' @ (arguments @ '')'' @ rest)) = Inr (True, arguments @ '')'' @ rest)"
      "eat '')'' ('')'' @ rest) = Inr (True, rest)"
      by (rule eat_hit; simp)+
    ultimately show ?thesis
      unfolding parse_function_def using skip take assms(1,3) by simp
  qed
  moreover have "\<not> str_starts_with (call name arguments @ rest) ''{''"
    using name by (simp add: call_def c str_starts_with_def)
  ultimately show ?thesis using skip miss by simp
qed

lemma parse_map_entry_print:
  assumes "quotable key" "quotable v"
  shows "parse_map_entry name (entry key [v] @ '')'' @ rest) = Inr ((key, [v]), '')'' @ rest)"
proof -
  let ?r4 = "''}'' @ ('')'' @ rest)"
  let ?r3 = "quoted v @ ?r4"
  let ?r2 = "'':'' @ (CHR '' '' # ?r3)"
  let ?r1 = "quoted key @ ?r2"
  have "entry key [v] @ '')'' @ rest = ''{'' @ ?r1" by (simp add: entry_def)
  moreover have "eat ''{'' (''{'' @ ?r1) = Inr (True, ?r1)" "eat '':'' ?r2 = Inr (True, CHR '' '' # ?r3)"
    "eat ''}'' ?r4 = Inr (True, '')'' @ rest)"
    by (rule eat_hit; simp)+
  moreover have "parse_string ?r1 = Inr (key, ?r2)" "parse_string (CHR '' '' # ?r3) = Inr (v, ?r4)"
    using assms by (simp_all only: parse_string_blank parse_string_quoted)
  moreover have "eat '','' ?r4 = Inr (False, ?r4)" by (rule eat_miss) (simp_all add: strip_prefix_def)
  ultimately show ?thesis by (simp add: parse_map_entry_def)
qed

lemma placeholder_primary:
  "parse_primary (Suc levels) (''{'' @ rest) = parse_placeholder_test (''{'' @ rest)"
proof -
  have "eat ''('' (''{'' @ rest) = Inr (False, ''{'' @ rest)" by (rule eat_miss) (simp_all add: strip_prefix_def)
  moreover have "skip_space (''{'' @ rest) = Inr (''{'' @ rest)" by (rule skip_space_edge) simp
  ultimately show ?thesis by (simp add: str_starts_with_def)
qed

lemma placeholder_split:
  "CHR ''}'' \<notin> set name \<Longrightarrow> split_once (CHR ''}'') (''{'' @ name @ ''}'' @ rest) = Some (''{'' @ name, rest)"
  by (simp only: split_once_Some) simp

lemma status_test_primary:
  "parse_primary (Suc levels) (''{rp.status_code}'' @ rest) = parse_status_test rest"
  using placeholder_primary [of levels "''rp.status_code'' @ ''}'' @ rest"] placeholder_split [of "''rp.status_code''" rest]
  by (simp add: parse_placeholder_test_def strip_prefix_def)

lemma eat_blank: "eat token (CHR '' '' # rest) = eat token rest"
  by (simp only: eat_def skip_space_blank)

lemma parse_string_list_call:
  "vs \<noteq> [] \<Longrightarrow> list_all quotable vs \<Longrightarrow>
    parse_string_list (join_with '','' (map quoted vs) @ CHR '')'' # rest) = Inr (vs, CHR '')'' # rest)"
  by (intro parse_string_list_quoted) (simp_all add: strip_prefix_def)

lemmas arguments = parse_arguments_def parse_string_quoted parse_map_entry_print [simplified] parse_string_list_call

lemmas name_chars = name_char_def is_ascii_alphanumeric_def is_ascii_uppercase_def is_ascii_lowercase_def

lemma print_leaf:
  assumes "expressible p" "follows rest" "\<And>ps. p \<noteq> All ps" "\<And>ps. p \<noteq> Any ps"
  shows "parse_primary (Suc levels) (print_primary p @ rest) = Inr (p, rest)"
proof (cases p)
  case (Status any_of)
  then obtain c cs where cs: "any_of = c # cs" "list_all status_code (c # cs)" using assms(1) by (cases any_of) auto
  let ?list = "show_nat c @ concat (map (\<lambda>c. '','' @ show_nat c) cs) @ '']'' @ rest"
  have "length cs \<le> length (concat (map (\<lambda>c. '','' @ show_nat c) cs))" by (induction cs) simp_all
  then have list: "status_list_loop (length ?list + 1) [] ?list = Inr (c # cs, rest)"
    using status_list_loop_show [OF cs(2), of "length ?list + 1" "[]"] by simp
  have "eat ''=='' (''in'' @ (CHR '' '' # ''['' @ ?list)) = Inr (False, ''in'' @ (CHR '' '' # ''['' @ ?list))"
    by (rule eat_miss) (simp_all add: strip_prefix_def)
  moreover have "eat ''>='' (''in'' @ (CHR '' '' # ''['' @ ?list)) = Inr (False, ''in'' @ (CHR '' '' # ''['' @ ?list))"
    by (rule eat_miss) (simp_all add: strip_prefix_def)
  moreover have "eat ''in'' (''in'' @ (CHR '' '' # ''['' @ ?list)) = Inr (True, CHR '' '' # ''['' @ ?list)"
    by (rule eat_hit) simp_all
  moreover have "eat ''['' (''['' @ ?list) = Inr (True, ?list)"
    by (rule eat_hit) simp_all
  moreover have "print_primary p @ rest = ''{rp.status_code}'' @ (CHR '' '' # ''in'' @ (CHR '' '' # ''['' @ ?list))"
    by (simp add: Status cs(1) join_with_concat o_def)
  ultimately show ?thesis
    using list by (simp only: status_test_primary parse_status_test_def eat_blank try_bind_simps prod.case if_True if_False not_True_eq_False Status cs(1))
next
  case (StatusAtLeast code)
  let ?n = "CHR '' '' # show_nat code @ rest"
  have "eat ''=='' (''>='' @ ?n) = Inr (False, ''>='' @ ?n)" by (rule eat_miss) (simp_all add: strip_prefix_def)
  moreover have "eat ''>='' (''>='' @ ?n) = Inr (True, ?n)" by (rule eat_hit) simp_all
  moreover have "parse_status ?n = Inr (code, rest)"
    using assms(1,2) by (simp add: StatusAtLeast parse_status_blank parse_status_show)
  moreover have "print_primary p @ rest = ''{rp.status_code}'' @ (CHR '' '' # ''>='' @ ?n)" by (simp add: StatusAtLeast)
  ultimately show ?thesis
    by (simp only: status_test_primary parse_status_test_def eat_blank try_bind_simps prod.case if_True if_False StatusAtLeast)
next
  case TransportError
  then show ?thesis
    using placeholder_primary [of levels "''rp.is_transport_error'' @ ''}'' @ rest"]
      placeholder_split [of "''rp.is_transport_error''" rest]
    by (simp add: parse_placeholder_test_def strip_prefix_def)
next
  case (ResponseHeader name v)
  let ?v = "CHR '' '' # quoted v @ rest"
  have "eat ''=='' (CHR '' '' # ''=='' @ ?v) = Inr (True, ?v)" unfolding eat_blank by (rule eat_hit) simp_all
  moreover have "parse_string ?v = Inr (v, rest)"
    using assms(1) by (simp add: ResponseHeader parse_string_blank parse_string_quoted)
  ultimately show ?thesis
    using placeholder_primary [of levels "(''rp.header.'' @ name) @ ''}'' @ (CHR '' '' # ''=='' @ ?v)"]
      placeholder_split [of "''rp.header.'' @ name" "CHR '' '' # ''=='' @ ?v"] assms(1)
    by (simp add: ResponseHeader parse_placeholder_test_def strip_prefix_def)
next
  case (Method any_of)
  then have "map ascii_uppercase any_of = any_of" "list_all quotable any_of" "any_of \<noteq> []"
    using assms(1) by (auto simp: list_all_iff intro: map_idI)
  then show ?thesis
    unfolding Method print_primary.simps
    by (intro call_function) (simp_all add: arguments name_chars)
next
  case (Path any_of)
  then show ?thesis
    unfolding Path print_primary.simps using assms(1) [unfolded Path]
    by (intro call_function) (simp_all add: arguments name_chars)
next
  case (Host any_of)
  then show ?thesis
    unfolding Host print_primary.simps using assms(1) [unfolded Host]
    by (intro call_function) (simp_all add: arguments name_chars)
next
  case (PathRegexp pattern)
  then show ?thesis
    unfolding PathRegexp print_primary.simps using assms(1) [unfolded PathRegexp]
    by (intro call_function) (simp_all add: arguments name_chars)
next
  case (Protocol name)
  then show ?thesis
    unfolding Protocol print_primary.simps using assms(1) [unfolded Protocol]
    by (intro call_function) (simp_all add: arguments name_chars)
next
  case (Query key any_of)
  then show ?thesis
    unfolding Query print_primary.simps using assms(1) [unfolded Query]
    by (intro call_function) (auto simp add: arguments name_chars length_Suc_conv)
next
  case (RequestHeader name any_of)
  then show ?thesis
    unfolding RequestHeader print_primary.simps using assms(1) [unfolded RequestHeader]
    by (intro call_function) (auto simp add: arguments name_chars length_Suc_conv)
next
  case (HeaderRegexp name pattern)
  have "eat '','' ('','' @ (quoted pattern @ '')'' @ rest)) = Inr (True, quoted pattern @ '')'' @ rest)"
    by (rule eat_hit) simp_all
  then show ?thesis
    unfolding HeaderRegexp print_primary.simps using assms(1) [unfolded HeaderRegexp]
    by (intro call_function) (simp_all add: arguments name_chars)
qed (use assms in simp_all)


section \<open>Branches\<close>

lemma branch_loop_print:
  assumes "\<And>p rest. p \<in> set ps \<Longrightarrow> ok rest \<Longrightarrow> branch (pr p @ rest) = Inr (p, rest)"
    "\<And>rest. ok rest \<Longrightarrow> follows rest" "\<And>xs. ok (operator @ xs)"
    "operator = ''&&'' \<or> operator = ''||''" "ok rest" "strip_prefix operator rest = None" "length ps < n"
  shows "branch_loop n operator branch acc (concat (map (\<lambda>p. operator @ pr p) ps) @ rest) = Inr (acc @ ps, rest)"
  using assms(1,7)
proof (induction ps arbitrary: n acc)
  case Nil
  then obtain m where "n = Suc m" by (cases n) auto
  then show ?case using eat_miss [OF follows_edge [OF assms(2) [OF assms(5)]] assms(6)] by simp
next
  case (Cons p ps)
  then obtain m where n: "n = Suc m" "length ps < m" by (cases n) auto
  let ?rest = "concat (map (\<lambda>p. operator @ pr p) ps) @ rest"
  have "ok ?rest" using assms(3,5) by (cases ps) simp_all
  then have "branch (pr p @ ?rest) = Inr (p, ?rest)" using Cons.prems(1) by simp
  moreover have "eat operator (operator @ (pr p @ ?rest)) = Inr (True, pr p @ ?rest)"
    using assms(4) by (intro eat_hit) auto
  moreover have "branch_loop m operator branch (acc @ [p]) ?rest = Inr ((acc @ [p]) @ ps, rest)"
    using Cons.prems(1) n(2) by (intro Cons.IH) simp_all
  ultimately show ?case by (simp add: n(1))
qed

lemma parse_branches_print:
  assumes "\<And>p rest. p \<in> set ps \<Longrightarrow> ok rest \<Longrightarrow> branch (pr p @ rest) = Inr (p, rest)"
    "\<And>rest. ok rest \<Longrightarrow> follows rest" "\<And>xs. ok (operator @ xs)"
    "operator = ''&&'' \<or> operator = ''||''" "ok rest" "strip_prefix operator rest = None" "ps \<noteq> []"
  shows "parse_branches operator combine branch (join_with operator (map pr ps) @ rest) =
    Inr (if length ps = 1 then hd ps else combine ps, rest)"
proof -
  obtain p qs where ps: "ps = p # qs" using assms(7) by (cases ps) auto
  let ?rest = "concat (map (\<lambda>p. operator @ pr p) qs) @ rest"
  have shape: "join_with operator (map pr ps) @ rest = pr p @ ?rest"
    by (simp add: ps join_with_concat o_def)
  have "length qs \<le> length ?rest"
    using assms(4) by (induction qs) auto
  then have "branch_loop (length (pr p @ ?rest) + 1) operator branch [p] ?rest = Inr ([p] @ qs, rest)"
    by (intro branch_loop_print [where ok = ok, OF assms(1) assms(2-6)]) (simp_all add: ps)
  moreover have "ok ?rest" using assms(3,5) by (cases qs) simp_all
  then have "branch (pr p @ ?rest) = Inr (p, ?rest)" using assms(1) by (simp add: ps)
  ultimately show ?thesis
    unfolding shape parse_branches_def by (simp del: branch_loop.simps add: ps)
qed

text \<open>What may stand after a printed conjunction, and after a printed expression.\<close>

definition ends_and :: "bytes \<Rightarrow> bool" where
  "ends_and rest \<longleftrightarrow> follows rest \<and> strip_prefix ''&&'' rest = None"

definition ends_or :: "bytes \<Rightarrow> bool" where
  "ends_or rest \<longleftrightarrow> rest = [] \<or> hd rest = CHR '')''"

lemma ends_or: "ends_or rest \<Longrightarrow> ends_and rest \<and> strip_prefix ''||'' rest = None"
  by (cases rest) (auto simp: ends_or_def ends_and_def strip_prefix_def)

lemma ends_and_or: "ends_and (''||'' @ rest)"
  by (simp add: ends_and_def strip_prefix_def)

lemma parse_and_print:
  assumes "\<And>p rest. p \<in> set ps \<Longrightarrow> follows rest \<Longrightarrow> parse_primary levels (print_primary p @ rest) = Inr (p, rest)"
    "ps \<noteq> []" "ends_and rest"
  shows "parse_and levels (join_with ''&&'' (map print_primary ps) @ rest) =
    Inr (if length ps = 1 then hd ps else All ps, rest)"
  unfolding parse_and_def
  using assms by (intro parse_branches_print [where ok = follows]) (auto simp: ends_and_def)

lemma parse_or_print:
  assumes "\<And>p rest. p \<in> set ps \<Longrightarrow> ends_and rest \<Longrightarrow> parse_and levels (pr p @ rest) = Inr (p, rest)"
    "ps \<noteq> []" "ends_or rest"
  shows "parse_or levels (join_with ''||'' (map pr ps) @ rest) = Inr (if length ps = 1 then hd ps else Any ps, rest)"
  unfolding parse_or_def
  using assms ends_or [OF assms(3)] ends_and_or
  by (intro parse_branches_print [where ok = ends_and]) (auto simp: ends_and_def)

fun conditions :: "retry_predicate \<Rightarrow> retry_predicate list" where
  "conditions (All children) = children"
| "conditions (Any children) = children"
| "conditions p = [p]"

lemma parse_expression_print:
  assumes child: "\<And>q rest. q \<in> set (conditions p) \<Longrightarrow> follows rest \<Longrightarrow> parse_primary levels (print_primary q @ rest) = Inr (q, rest)"
    and "expressible p" "ends_or rest"
  shows "parse_or levels (print_expression p @ rest) = Inr (p, rest)"
proof -
  have single: "parse_and levels (print_primary q @ rest) = Inr (q, rest)" if "q \<in> set (conditions p)" "ends_and rest" for q rest
    using parse_and_print [of "[q]" levels rest] child that by simp
  have by_and: ?thesis if "\<And>rest. ends_and rest \<Longrightarrow> parse_and levels (print_expression p @ rest) = Inr (p, rest)"
    using parse_or_print [of "[p]" levels print_expression rest] that assms(3) by simp
  have leaf: ?thesis if "conditions p = [p]" "print_expression p = print_primary p"
    using that single by (intro by_and) simp
  show ?thesis
  proof (cases p)
    case (All ps)
    then have ps: "ps \<noteq> []" "length ps \<noteq> 1" using assms(2) by auto
    then show ?thesis
      using parse_and_print [OF child ps(1)] by (intro by_and) (simp add: All)
  next
    case (Any ps)
    then have ps: "ps \<noteq> []" "length ps \<noteq> 1" using assms(2) by auto
    then show ?thesis
      using parse_or_print [OF single ps(1) assms(3)] by (simp add: Any)
  qed (use leaf in simp_all)
qed

lemma predicate_depth_pos: "0 < predicate_depth p"
  by (cases p) simp_all

lemma foldr_max_le: "x \<in> set xs \<Longrightarrow> x \<le> foldr max xs (0 :: nat)"
  by (induction xs) auto

lemma parse_primary_print:
  "expressible p \<Longrightarrow> predicate_depth p \<le> levels \<Longrightarrow> follows rest \<Longrightarrow>
    parse_primary levels (print_primary p @ rest) = Inr (p, rest)"
proof (induction levels arbitrary: p rest)
  case 0
  then show ?case using predicate_depth_pos [of p] by simp
next
  case (Suc levels)
  have nested: ?case if p: "p = All ps \<or> p = Any ps" for ps
  proof -
    have "q \<in> set (conditions p) \<Longrightarrow> expressible q \<and> predicate_depth q \<le> levels" for q
      using p Suc.prems foldr_max_le [of "predicate_depth q" "map predicate_depth ps"] by (auto simp: list_all_iff)
    then have "parse_or levels (print_expression p @ ('')'' @ rest)) = Inr (p, '')'' @ rest)"
      using Suc by (intro parse_expression_print) (auto simp: ends_or_def)
    moreover have "print_primary p @ rest = ''('' @ (print_expression p @ ('')'' @ rest))" using p by auto
    moreover have "eat ''('' (''('' @ (print_expression p @ ('')'' @ rest))) = Inr (True, print_expression p @ ('')'' @ rest))"
      "eat '')'' ('')'' @ rest) = Inr (True, rest)"
      by (rule eat_hit; simp)+
    ultimately show ?thesis
      by (simp only: parse_primary.simps parse_or_def parse_and_def try_bind_simps prod.case if_True if_False not_True_eq_False)
  qed
  show ?case
    using nested print_leaf [OF Suc.prems(1,3)] by blast
qed

section \<open>Trimming\<close>

definition edged :: "bytes \<Rightarrow> bool" where
  "edged s \<longleftrightarrow> s \<noteq> [] \<and> edge (hd s) \<and> edge (last s)"

lemma edged_append: "edged (x @ y @ z)" if "x \<noteq> []" "edge (hd x)" "z \<noteq> []" "edge (last z)"
  using that by (auto simp: edged_def)

lemma str_trim_edged: "edged s \<Longrightarrow> str_trim s = s"
proof -
  assume s: "edged s"
  have "utf8_chunks s \<noteq> []" using s concat_utf8_chunks [of s] by (force simp: edged_def)
  moreover have "\<not> whitespace_chunk (last (utf8_chunks s))"
    using s last_utf8_chunk [of s] by (simp add: edged_def edge_def whitespace_chunk_ascii)
  ultimately have "str_trim_end s = concat (utf8_chunks s)"
    by (cases "utf8_chunks s" rule: rev_cases) (simp_all add: str_trim_end_def)
  then have ends: "str_trim_end s = s" by (simp only: concat_utf8_chunks)
  obtain b bs where b: "s = b # bs" "byte_val b < 128" "\<not> is_whitespace (byte_val b)"
    using s by (cases s) (auto simp: edged_def edge_def)
  then have "utf8_chunks s = [b] # utf8_chunks bs" by (simp add: utf8_scan_ascii)
  then have "str_trim_start s = s"
    using b by (simp add: str_trim_start_def whitespace_chunk_ascii concat_utf8_chunks)
  then show ?thesis by (simp add: str_trim_def ends)
qed

lemma trim_backquotes_edged: "edged s \<Longrightarrow> trim_backquotes s = s"
proof -
  assume s: "edged s"
  have keep: "xs \<noteq> [] \<Longrightarrow> edge (hd xs) \<Longrightarrow> dropWhile (\<lambda>c. c = CHR 0x60) xs = xs" for xs
    by (cases xs) (auto simp: edge_def)
  show ?thesis
    using s keep [of s] keep [of "rev s"] by (simp add: trim_backquotes_def edged_def hd_rev)
qed

lemma edged_join: "xs \<noteq> [] \<Longrightarrow> \<forall>x \<in> set xs. edged x \<Longrightarrow> edged (join_with sep xs)"
proof (induction sep xs rule: join_with.induct)
  case (3 sep x y ys)
  then have "edged x" "edged (join_with sep (y # ys))" by simp_all
  then show ?case by (simp add: edged_def)
qed simp_all

lemma edged_quoted: "quoted s \<noteq> []" "edge (last (quoted s))"
  by (simp_all add: quoted_def)

lemma edged_show_nat: "edge (last (show_nat n))"
proof -
  have "is_ascii_digit (last (show_nat n))" using show_nat_digits [of n] by (auto simp: list_all_iff)
  then show ?thesis by (auto simp: edge_def is_ascii_digit_def is_whitespace_def)
qed

lemma edged_call: "name \<noteq> [] \<Longrightarrow> edge (hd name) \<Longrightarrow> edged (call name arguments)"
  by (simp add: call_def edged_def)

lemma edge_letters: "edge (CHR ''m'')" "edge (CHR ''p'')" "edge (CHR ''h'')" "edge (CHR ''q'')"
  by (simp_all add: edge_def is_whitespace_def)

lemma edged_primary: "edged (print_primary p)"
proof (cases p)
  case (StatusAtLeast code)
  then show ?thesis using edged_show_nat [of code] by (simp add: edged_def)
next
  case (ResponseHeader name v)
  then show ?thesis using edged_quoted [of v] by (simp add: edged_def)
qed (simp_all add: edged_call edge_letters, simp_all add: edged_def)

lemma edged_expression: "expressible p \<Longrightarrow> edged (print_expression p)"
proof (cases p)
  case (All ps)
  assume "expressible p"
  then show ?thesis using edged_join [of "map print_primary ps" "''&&''"] edged_primary by (cases ps) (auto simp: All)
next
  case (Any ps)
  assume "expressible p"
  then show ?thesis using edged_join [of "map print_primary ps" "''||''"] edged_primary by (cases ps) (auto simp: Any)
qed (simp_all only: print_expression.simps edged_primary)

text \<open>
  C12: every predicate an expression can write, printed in the expression syntax, is read back as that
  predicate by \<open>parse_expression\<close>, as long as it nests no deeper than the configuration allows.
\<close>

theorem printed_expression_reads_back:
  assumes "expressible p" "predicate_depth p \<le> max_retry_predicate_depth"
  shows "parse_expression (print_expression p) = Inr p"
proof -
  have q: "q \<in> set (conditions p) \<Longrightarrow> expressible q \<and> predicate_depth q \<le> max_retry_predicate_depth" for q
    using assms foldr_max_le [of "predicate_depth q" "map predicate_depth (conditions p)"]
    by (cases p) (auto simp: list_all_iff)
  have "parse_or max_retry_predicate_depth (print_expression p @ []) = Inr (p, [])"
    using q assms(1) by (intro parse_expression_print parse_primary_print) (auto simp: ends_or_def)
  moreover note edged_expression [OF assms(1)]
  moreover have "print_expression p \<noteq> []" using calculation(2) by (simp add: edged_def)
  ultimately show ?thesis
    by (simp add: parse_expression_def str_trim_edged trim_backquotes_edged)
qed

theorem printed_expression_reads_back_witness:
  "parse_expression (print_expression (Any [TransportError, All [Status [502, 503], Method [''GET'', ''HEAD'']]])) =
    Inr (Any [TransportError, All [Status [502, 503], Method [''GET'', ''HEAD'']]])"
  by (rule printed_expression_reads_back)
    (simp_all add: status_code_def quotable_def ascii_uppercase_def is_ascii_lowercase_def max_retry_predicate_depth_def)

end
