(* ===== verification/Server_Block.thy ===== *)
theory Server_Block
  imports Lexer
begin

text \<open>
  A configuration as addresses and flat token runs
  (\<open>pingclair-config/src/caddyfile/parser/server_block.rs\<close>). The parser's state is the tokens it has not
  read yet, the run from its cursor on; the whole run is an argument where an error at the end of the input
  blames the last token.
\<close>

type_synonym segment = "spanned list"

record server_block =
  keys :: "spanned list"
  segments :: "segment list"
  has_braces :: bool
  is_snippet :: bool

definition key_texts :: "server_block \<Rightarrow> chars list" where
  "key_texts block = map (\<lambda>k. token_display (spanned_value k)) (keys block)"

definition is_global_options :: "server_block \<Rightarrow> bool" where
  "is_global_options block \<longleftrightarrow> keys block = [] \<and> has_braces block \<and> \<not> is_snippet block"

datatype block_parse_error =
    Lex lex_error
  | TokenAfterOpenBrace location
  | OpenBraceOnOwnLine location
  | UnmatchedCloseBrace location
  | EmptyBraces location
  | UnterminatedBlock location
  | ExpectedOpenBrace location

fun error_location :: "block_parse_error \<Rightarrow> location option" where
  "error_location (Lex e) = None"
| "error_location (TokenAfterOpenBrace l) = Some l"
| "error_location (OpenBraceOnOwnLine l) = Some l"
| "error_location (UnmatchedCloseBrace l) = Some l"
| "error_location (EmptyBraces l) = Some l"
| "error_location (UnterminatedBlock l) = Some l"
| "error_location (ExpectedOpenBrace l) = Some l"

section \<open>The cursor\<close>

definition peek :: "spanned list \<Rightarrow> token option" where
  "peek rest = (case rest of [] \<Rightarrow> None | t # _ \<Rightarrow> Some (spanned_value t))"

definition skip_newlines :: "spanned list \<Rightarrow> spanned list" where
  "skip_newlines rest = dropWhile (\<lambda>t. spanned_value t = Newline) rest"

definition here :: "spanned list \<Rightarrow> spanned list \<Rightarrow> location" where
  "here tokens rest =
     (case rest of
        t # _ \<Rightarrow> spanned_span t
      | [] \<Rightarrow> if tokens = [] then synthetic else spanned_span (last tokens))"

section \<open>Segments\<close>

text \<open>The tokens pushed, the depth and the outermost open brace where the loop ends, and what is left.\<close>

fun segment_loop ::
    "nat \<Rightarrow> location option \<Rightarrow> spanned list \<Rightarrow>
     block_parse_error + (segment \<times> nat \<times> location option \<times> spanned list)" where
  "segment_loop depth open_at [] = Inr ([], depth, open_at, [])"
| "segment_loop depth open_at (t # rest) =
     (let push = (\<lambda>r. try_bind r (\<lambda>(segment, state). Inr (t # segment, state)))
      in case spanned_value t of
           Newline \<Rightarrow>
             if depth = 0 then Inr ([], depth, open_at, rest) else push (segment_loop depth open_at rest)
         | BlockOpen \<Rightarrow>
             (let open_at' = (if depth = 0 then Some (spanned_span t) else open_at)
              in if peek rest = Some BlockClose then Inl (EmptyBraces (spanned_span t))
                 else if \<not> (peek rest = None \<or> peek rest = Some Newline) then Inl (TokenAfterOpenBrace (spanned_span t))
                 else push (segment_loop (depth + 1) open_at' rest))
         | BlockClose \<Rightarrow>
             if depth = 0 then Inr ([], depth, open_at, t # rest) else push (segment_loop (depth - 1) open_at rest)
         | _ \<Rightarrow> push (segment_loop depth open_at rest))"

definition parse_segment :: "spanned list \<Rightarrow> spanned list \<Rightarrow> block_parse_error + (segment \<times> spanned list)" where
  "parse_segment tokens rest =
     try_bind (segment_loop 0 None rest) (\<lambda>(segment, depth, open_at, rest).
       if 0 < depth then
         Inl (UnterminatedBlock (case open_at of Some l \<Rightarrow> l | None \<Rightarrow> here tokens rest))
       else Inr (segment, rest))"

lemma segment_loop_length:
  "segment_loop depth open_at rest = Inr (segment, depth', open_at', rest') \<Longrightarrow> length rest' \<le> length rest"
proof (induction depth open_at rest arbitrary: segment rule: segment_loop.induct)
  case (2 depth open_at t rest)
  then show ?case
    by (cases "spanned_value t") (force simp: Let_def try_bind_Inr_iff split: if_splits)+
qed simp

lemma parse_segment_length:
  assumes "parse_segment tokens (t # rest) = Inr (segment, rest')" and "spanned_value t \<noteq> BlockClose"
  shows "length rest' \<le> length rest"
proof -
  have "\<exists>segment depth open_at. segment_loop 0 None (t # rest) = Inr (segment, depth, open_at, rest')"
    using assms(1) by (auto simp: parse_segment_def try_bind_Inr_iff split: if_splits)
  then show ?thesis
    using assms(2) segment_loop_length
    by (cases "spanned_value t") (fastforce simp: Let_def try_bind_Inr_iff split: if_splits)+
qed

lemma skip_newlines_length: "length (skip_newlines rest) \<le> length rest"
  by (simp add: skip_newlines_def length_dropWhile_le)

lemma skip_newlines_Cons: "skip_newlines rest = t # rest' \<Longrightarrow> length rest' < length rest"
  using skip_newlines_length [of rest] by simp

lemma peek_skip_newlines: "peek (skip_newlines rest) \<noteq> Some Newline"
  by (auto simp: skip_newlines_def peek_def split: list.splits dest: dropWhile_eq_Cons_conv [THEN iffD1])

function parse_segments ::
    "spanned list \<Rightarrow> location \<Rightarrow> bool \<Rightarrow> spanned list \<Rightarrow> block_parse_error + (segment list \<times> spanned list)" where
  "parse_segments tokens open_at allow_anonymous_segments rest =
     (case skip_newlines rest of
        [] \<Rightarrow> Inl (UnterminatedBlock open_at)
      | t # rest' \<Rightarrow>
          if spanned_value t = BlockClose then Inr ([], rest')
          else if spanned_value t = BlockOpen \<and> \<not> allow_anonymous_segments
          then Inl (OpenBraceOnOwnLine (here tokens (t # rest')))
          else
            try_bind (parse_segment tokens (t # rest')) (\<lambda>(segment, rest).
            try_bind (parse_segments tokens open_at allow_anonymous_segments rest) (\<lambda>(segments, rest).
              Inr (segment # segments, rest))))"
  by pat_completeness auto
termination
  by (relation "measure (\<lambda>(tokens, open_at, allow, rest). length rest)")
    (auto dest!: parse_segment_length skip_newlines_Cons)

function parse_bare_segments :: "spanned list \<Rightarrow> spanned list \<Rightarrow> block_parse_error + (segment list \<times> spanned list)" where
  "parse_bare_segments tokens rest =
     (case skip_newlines rest of
        [] \<Rightarrow> Inr ([], [])
      | t # rest' \<Rightarrow>
          if spanned_value t = BlockClose then Inl (UnmatchedCloseBrace (here tokens (t # rest')))
          else if spanned_value t = BlockOpen then Inl (OpenBraceOnOwnLine (here tokens (t # rest')))
          else
            try_bind (parse_segment tokens (t # rest')) (\<lambda>(segment, rest).
            try_bind (parse_bare_segments tokens rest) (\<lambda>(segments, rest). Inr (segment # segments, rest))))"
  by pat_completeness auto
termination
  by (relation "measure (\<lambda>(tokens, rest). length rest)")
    (auto dest!: parse_segment_length skip_newlines_Cons)

declare parse_segments.simps [simp del] parse_bare_segments.simps [simp del]

section \<open>Blocks\<close>

fun read_keys :: "spanned list \<Rightarrow> block_parse_error + (spanned list \<times> spanned list)" where
  "read_keys [] = Inr ([], [])"
| "read_keys (t # rest) =
     (if spanned_value t = BlockOpen \<or> spanned_value t = Newline then Inr ([], t # rest)
      else if spanned_value t = BlockClose then Inl (UnmatchedCloseBrace (spanned_span t))
      else try_bind (read_keys rest) (\<lambda>(keys, rest). Inr (t # keys, rest)))"

definition names_snippet :: "spanned list \<Rightarrow> bool" where
  "names_snippet ks \<longleftrightarrow>
     length ks = 1 \<and>
     (let txt = token_display (spanned_value (ks ! 0))
      in str_starts_with txt (ascii ''('') \<and> str_ends_with txt (ascii '')''))"

definition names_import :: "spanned list \<Rightarrow> bool" where
  "names_import ks \<longleftrightarrow> (case ks of [] \<Rightarrow> False | k # _ \<Rightarrow> spanned_value k = Word (ascii ''import''))"

definition site_brace :: "spanned list \<Rightarrow> spanned list \<Rightarrow> spanned list" where
  "site_brace ks rest =
     (if peek rest = Some Newline \<and> \<not> names_import ks \<and> peek (skip_newlines rest) = Some BlockOpen
      then skip_newlines rest else rest)"

definition parse_block :: "spanned list \<Rightarrow> spanned list \<Rightarrow> block_parse_error + (server_block \<times> spanned list)" where
  "parse_block tokens rest =
     try_bind (read_keys rest) (\<lambda>(ks, rest).
     let rest = site_brace ks rest
     in if peek rest = Some BlockOpen then
          (let open_at = here tokens rest; rest = tl rest
           in if peek rest = Some BlockClose then Inl (EmptyBraces open_at)
              else if \<not> (peek rest = None \<or> peek rest = Some Newline) then Inl (TokenAfterOpenBrace open_at)
              else
                try_bind (parse_segments tokens open_at (names_import ks) rest) (\<lambda>(segments, rest).
                  Inr (\<lparr>keys = ks, segments = segments, has_braces = True, is_snippet = names_snippet ks\<rparr>, rest)))
        else if names_import ks then
          Inr (\<lparr>keys = ks, segments = [], has_braces = False, is_snippet = False\<rparr>, rest)
        else
          try_bind (parse_bare_segments tokens rest) (\<lambda>(segments, rest).
            Inr (\<lparr>keys = ks, segments = segments, has_braces = False, is_snippet = names_snippet ks\<rparr>, rest)))"

lemma read_keys_append: "read_keys rest = Inr (ks, rest') \<Longrightarrow> rest = ks @ rest'"
  by (induction rest arbitrary: ks) (auto simp: try_bind_Inr_iff split: if_splits)

lemma site_brace_length: "length (site_brace ks rest) \<le> length rest"
  by (simp add: site_brace_def skip_newlines_length)

lemma parse_segments_length: "parse_segments tokens open_at allow rest = Inr (segs, rest') \<Longrightarrow> length rest' \<le> length rest"
proof (induction tokens open_at allow rest arbitrary: segs rule: parse_segments.induct)
  case (1 tokens open_at allow rest)
  from "1.prems" obtain t r where t: "skip_newlines rest = t # r"
    by (subst (asm) parse_segments.simps) (auto split: list.splits)
  note shorter = skip_newlines_Cons [OF t]
  show ?case
  proof (cases "spanned_value t = BlockClose")
    case True
    then show ?thesis using "1.prems" shorter t by (subst (asm) parse_segments.simps) simp
  next
    case False
    then obtain seg r' segs' where "parse_segment tokens (t # r) = Inr (seg, r')"
      "parse_segments tokens open_at allow r' = Inr (segs', rest')"
      using "1.prems" t by (subst (asm) parse_segments.simps) (auto simp: try_bind_Inr_iff split: if_splits)
    moreover have "\<not> (spanned_value t = BlockOpen \<and> \<not> allow)"
      using "1.prems" t False by (subst (asm) parse_segments.simps) (auto split: if_splits)
    ultimately show ?thesis
      using "1.IH" [OF t False] parse_segment_length [of tokens t r seg r'] False shorter by fastforce
  qed
qed

lemma parse_bare_segments_rest: "parse_bare_segments tokens rest = Inr (segs, rest') \<Longrightarrow> rest' = []"
proof (induction tokens rest arbitrary: segs rule: parse_bare_segments.induct)
  case (1 tokens rest)
  then show ?case
    by (subst (asm) (2) parse_bare_segments.simps) (fastforce simp: try_bind_Inr_iff split: if_splits list.splits)
qed

lemma parse_block_length:
  assumes "parse_block tokens (t # rest) = Inr (block, rest')" and "spanned_value t \<noteq> Newline"
  shows "length rest' \<le> length rest"
proof -
  obtain ks r where r: "read_keys (t # rest) = Inr (ks, r)"
    using assms(1) by (auto simp: parse_block_def try_bind_Inr_iff)
  note split = read_keys_append [OF r]
  define b where "b = site_brace ks r"
  have b: "length b \<le> length r" by (simp add: b_def site_brace_length)
  show ?thesis
  proof (cases "peek b = Some BlockOpen")
    case True
    then obtain segs where "parse_segments tokens (here tokens b) (names_import ks) (tl b) = Inr (segs, rest')"
      using assms(1) r by (auto simp: parse_block_def Let_def b_def [symmetric] try_bind_Inr_iff split: if_splits)
    then have "length rest' \<le> length b - 1" using parse_segments_length by fastforce
    then show ?thesis using b arg_cong [OF split, of length] by simp
  next
    case False
    have "ks \<noteq> []"
    proof
      assume "ks = []"
      then have "r = t # rest" "spanned_value t = BlockOpen"
        using r assms(2) split by (auto simp: try_bind_Inr_iff split: if_splits)
      then show False using False assms(2) by (simp add: b_def site_brace_def peek_def)
    qed
    moreover have "rest' = b \<or> rest' = []"
      using assms(1) r False
      by (auto simp: parse_block_def Let_def b_def [symmetric] try_bind_Inr_iff split: if_splits
          dest: parse_bare_segments_rest)
    ultimately show ?thesis using b arg_cong [OF split, of length] by (cases ks) auto
  qed
qed

function parse_blocks :: "spanned list \<Rightarrow> spanned list \<Rightarrow> block_parse_error + server_block list" where
  "parse_blocks tokens rest =
     (case skip_newlines rest of
        [] \<Rightarrow> Inr []
      | t # rest' \<Rightarrow>
          try_bind (parse_block tokens (t # rest')) (\<lambda>(block, rest).
          try_bind (parse_blocks tokens rest) (\<lambda>blocks. Inr (block # blocks))))"
  by pat_completeness auto
termination
proof (relation "measure (\<lambda>(tokens, rest). length rest)", goal_cases)
  case (2 tokens rest t rest' x block r)
  then have "spanned_value t \<noteq> Newline" using peek_skip_newlines [of rest] by (simp add: peek_def)
  then have "length r \<le> length rest'" using 2 parse_block_length [of tokens t rest' block r] by simp
  then show ?case using skip_newlines_Cons [of rest t rest'] 2 by simp
qed simp

declare parse_blocks.simps [simp del]

definition parse_server_blocks :: "chars \<Rightarrow> block_parse_error + server_block list" where
  "parse_server_blocks source =
     (case tokenize source of
        Inl e \<Rightarrow> Inl (Lex e)
      | Inr tokens \<Rightarrow> parse_blocks tokens tokens)"

section \<open>No token is lost\<close>

definition content :: "spanned list \<Rightarrow> token list" where
  "content ts = filter (\<lambda>t. t \<noteq> Newline) (map spanned_value ts)"

definition block_content :: "server_block \<Rightarrow> token list" where
  "block_content block =
     content (keys block) @ (if has_braces block then [BlockOpen] else []) @
     concat (map content (segments block)) @ (if has_braces block then [BlockClose] else [])"

text \<open>Braces match, open at the end of a line, and lines end only inside them.\<close>

fun balanced :: "nat \<Rightarrow> token list \<Rightarrow> bool" where
  "balanced d [] \<longleftrightarrow> d = 0"
| "balanced d (BlockOpen # ts) \<longleftrightarrow> (case ts of Newline # _ \<Rightarrow> balanced (d + 1) ts | _ \<Rightarrow> False)"
| "balanced d (BlockClose # ts) \<longleftrightarrow> 0 < d \<and> balanced (d - 1) ts"
| "balanced d (Newline # ts) \<longleftrightarrow> 0 < d \<and> balanced d ts"
| "balanced d (_ # ts) \<longleftrightarrow> balanced d ts"

definition whole_segment :: "bool \<Rightarrow> segment \<Rightarrow> bool" where
  "whole_segment allow segment \<longleftrightarrow>
     segment \<noteq> [] \<and> balanced 0 (map spanned_value segment) \<and>
     (if spanned_value (hd segment) = BlockOpen then allow else True)"

definition whole_block :: "server_block \<Rightarrow> bool" where
  "whole_block block \<longleftrightarrow>
     list_all (\<lambda>k. spanned_value k \<notin> {BlockOpen, BlockClose, Newline}) (keys block) \<and>
     list_all (whole_segment (has_braces block \<and> names_import (keys block))) (segments block)"

lemma content_append [simp]: "content (xs @ ys) = content xs @ content ys"
  and content_Nil [simp]: "content [] = []"
  and content_Cons [simp]: "content (t # ts) = (if spanned_value t = Newline then content ts else spanned_value t # content ts)"
  by (simp_all add: content_def)

lemma content_skip_newlines [simp]: "content (skip_newlines rest) = content rest"
  by (induction rest) (auto simp: skip_newlines_def)

lemma segment_loop_content:
  "segment_loop depth open_at rest = Inr (segment, depth', open_at', rest') \<Longrightarrow>
    content rest = content segment @ content rest' \<and>
    (depth' = 0 \<longrightarrow> balanced depth (map spanned_value segment))"
proof (induction rest arbitrary: depth open_at segment)
  case (Cons t rest)
  show ?case
  proof (cases "spanned_value t")
    case BlockOpen
    then obtain seg where seg: "segment_loop (depth + 1) (if depth = 0 then Some (spanned_span t) else open_at) rest =
        Inr (seg, depth', open_at', rest')" "segment = t # seg" "peek rest = None \<or> peek rest = Some Newline"
      using Cons.prems by (auto simp: Let_def try_bind_Inr_iff split: if_splits)
    note ih = Cons.IH [OF seg(1)]
    have "depth' = 0 \<longrightarrow> (\<exists>ts. map spanned_value seg = Newline # ts)"
    proof (cases rest)
      case (Cons u us)
      then show ?thesis using seg(1,3) by (auto simp: peek_def Let_def try_bind_Inr_iff split: if_splits)
    qed (use seg(1) in simp)
    then show ?thesis
      using ih seg(2,3) BlockOpen by (auto split: list.splits)
  qed (use Cons in \<open>force simp: Let_def try_bind_Inr_iff split: if_splits\<close>)+
qed simp

lemma parse_segment_content:
  assumes "parse_segment tokens (t # rest) = Inr (segment, rest')" "spanned_value t \<noteq> BlockClose" "spanned_value t \<noteq> Newline"
    "spanned_value t = BlockOpen \<Longrightarrow> allow"
  shows "content (t # rest) = content segment @ content rest' \<and> whole_segment allow segment"
proof -
  obtain open_at where loop: "segment_loop 0 None (t # rest) = Inr (segment, 0, open_at, rest')"
    using assms(1) by (auto simp: parse_segment_def try_bind_Inr_iff split: if_splits)
  then have "\<exists>seg. segment = t # seg"
    using assms(2,3) by (cases "spanned_value t") (auto simp: Let_def try_bind_Inr_iff split: if_splits)
  then show ?thesis using segment_loop_content [OF loop] assms(4) by (auto simp: whole_segment_def)
qed

lemma parse_segments_content:
  "parse_segments tokens open_at allow rest = Inr (segs, rest') \<Longrightarrow>
    content rest = concat (map content segs) @ [BlockClose] @ content rest' \<and> list_all (whole_segment allow) segs"
proof (induction tokens open_at allow rest arbitrary: segs rule: parse_segments.induct)
  case (1 tokens open_at allow rest)
  from "1.prems" obtain t r where t: "skip_newlines rest = t # r"
    by (subst (asm) parse_segments.simps) (auto split: list.splits)
  have nl: "spanned_value t \<noteq> Newline" using peek_skip_newlines [of rest] t by (simp add: peek_def)
  have content: "content rest = spanned_value t # content r"
    using content_skip_newlines [of rest] nl by (simp add: t)
  show ?case
  proof (cases "spanned_value t = BlockClose")
    case True
    then show ?thesis using "1.prems" t content by (subst (asm) parse_segments.simps) simp
  next
    case False
    then obtain seg r' segs' where seg: "parse_segment tokens (t # r) = Inr (seg, r')"
      "parse_segments tokens open_at allow r' = Inr (segs', rest')" "segs = seg # segs'"
      using "1.prems" t by (subst (asm) parse_segments.simps) (auto simp: try_bind_Inr_iff split: if_splits)
    have allow: "\<not> (spanned_value t = BlockOpen \<and> \<not> allow)"
      using "1.prems" t False by (subst (asm) parse_segments.simps) (auto split: if_splits)
    have "content r' = concat (map content segs') @ [BlockClose] @ content rest' \<and> list_all (whole_segment allow) segs'"
      using "1.IH" [OF t False allow seg(1) refl seg(2)] .
    moreover have "content (t # r) = content seg @ content r' \<and> whole_segment allow seg"
      using allow by (intro parse_segment_content [OF seg(1) False nl]) simp
    ultimately show ?thesis using content nl seg(3) by simp
  qed
qed

lemma parse_bare_segments_content:
  "parse_bare_segments tokens rest = Inr (segs, rest') \<Longrightarrow>
    content rest = concat (map content segs) \<and> list_all (whole_segment False) segs"
proof (induction tokens rest arbitrary: segs rule: parse_bare_segments.induct)
  case (1 tokens rest)
  show ?case
  proof (cases "skip_newlines rest")
    case Nil
    then show ?thesis
      using "1.prems" content_skip_newlines [of rest] by (subst (asm) parse_bare_segments.simps) simp
  next
    case (Cons t r)
    have nl: "spanned_value t \<noteq> Newline" using peek_skip_newlines [of rest] Cons by (simp add: peek_def)
    have content: "content rest = spanned_value t # content r"
      using content_skip_newlines [of rest] nl by (simp add: Cons)
    have brace: "spanned_value t \<noteq> BlockClose" "spanned_value t \<noteq> BlockOpen"
      using "1.prems" Cons by (subst (asm) parse_bare_segments.simps; auto split: if_splits)+
    then obtain seg r' segs' where seg: "parse_segment tokens (t # r) = Inr (seg, r')"
      "parse_bare_segments tokens r' = Inr (segs', rest')" "segs = seg # segs'"
      using "1.prems" Cons by (subst (asm) parse_bare_segments.simps) (auto simp: try_bind_Inr_iff)
    have "content r' = concat (map content segs') \<and> list_all (whole_segment False) segs'"
      using "1.IH" [OF Cons brace seg(1) refl seg(2)] .
    moreover have "content (t # r) = content seg @ content r' \<and> whole_segment False seg"
      using brace by (intro parse_segment_content [OF seg(1) brace(1) nl]) simp
    ultimately show ?thesis using content nl seg(3) by simp
  qed
qed

lemma read_keys_plain:
  "read_keys rest = Inr (ks, rest') \<Longrightarrow> list_all (\<lambda>k. spanned_value k \<notin> {BlockOpen, BlockClose, Newline}) ks"
  by (induction rest arbitrary: ks) (auto simp: try_bind_Inr_iff split: if_splits)

lemma content_site_brace: "content (site_brace ks rest) = content rest"
  by (simp add: site_brace_def)

lemma parse_block_content:
  assumes "parse_block tokens rest = Inr (block, rest')"
  shows "content rest = block_content block @ content rest' \<and> whole_block block \<and>
    (if has_braces block \<or> names_import (keys block) then True else rest' = [])"
proof -
  obtain ks r where r: "read_keys rest = Inr (ks, r)"
    using assms by (auto simp: parse_block_def try_bind_Inr_iff)
  define b where "b = site_brace ks r"
  have content: "content rest = content ks @ content b"
    using read_keys_append [OF r] by (simp add: b_def content_site_brace)
  note plain = read_keys_plain [OF r]
  show ?thesis
  proof (cases "peek b = Some BlockOpen")
    case True
    then obtain t b' where b': "b = t # b'" "spanned_value t = BlockOpen" by (auto simp: peek_def split: list.splits)
    obtain segs where segs: "parse_segments tokens (here tokens b) (names_import ks) b' = Inr (segs, rest')"
      "block = \<lparr>keys = ks, segments = segs, has_braces = True, is_snippet = names_snippet ks\<rparr>"
      using assms r True b' by (auto simp: parse_block_def Let_def b_def [symmetric] try_bind_Inr_iff split: if_splits)
    show ?thesis
      using parse_segments_content [OF segs(1)] plain content b' segs(2) by (simp add: block_content_def whole_block_def)
  next
    case False
    show ?thesis
    proof (cases "names_import ks")
      case True
      then show ?thesis
        using assms r False plain content by (auto simp: parse_block_def Let_def b_def [symmetric] block_content_def whole_block_def)
    next
      case import: False
      then obtain segs where segs: "parse_bare_segments tokens b = Inr (segs, rest')"
        "block = \<lparr>keys = ks, segments = segs, has_braces = False, is_snippet = names_snippet ks\<rparr>"
        using assms r False by (auto simp: parse_block_def Let_def b_def [symmetric] try_bind_Inr_iff)
      show ?thesis
        using parse_bare_segments_content [OF segs(1)] parse_bare_segments_rest [OF segs(1)] plain content segs(2)
        by (simp add: block_content_def whole_block_def)
    qed
  qed
qed

lemma parse_blocks_content:
  "parse_blocks tokens rest = Inr blocks \<Longrightarrow>
    content rest = concat (map block_content blocks) \<and> list_all whole_block blocks \<and>
    list_all (\<lambda>block. has_braces block \<or> names_import (keys block)) (butlast blocks)"
proof (induction tokens rest arbitrary: blocks rule: parse_blocks.induct)
  case (1 tokens rest)
  show ?case
  proof (cases "skip_newlines rest")
    case Nil
    then show ?thesis using "1.prems" content_skip_newlines [of rest] by (subst (asm) parse_blocks.simps) simp
  next
    case (Cons t r)
    then obtain block r' blocks' where block: "parse_block tokens (t # r) = Inr (block, r')"
      "parse_blocks tokens r' = Inr blocks'" "blocks = block # blocks'"
      using "1.prems" by (subst (asm) parse_blocks.simps) (auto simp: try_bind_Inr_iff)
    have ih: "content r' = concat (map block_content blocks') \<and> list_all whole_block blocks' \<and>
        list_all (\<lambda>block. has_braces block \<or> names_import (keys block)) (butlast blocks')"
      using "1.IH" [OF Cons block(1) refl block(2)] .
    have "blocks' \<noteq> [] \<Longrightarrow> has_braces block \<or> names_import (keys block)"
      using parse_block_content [OF block(1)] block(2)
      by (cases "r' = []") (auto simp: parse_blocks.simps skip_newlines_def split: if_splits)
    moreover have "content rest = content (t # r)" using content_skip_newlines [of rest] by (simp add: Cons)
    ultimately show ?thesis
      using parse_block_content [OF block(1)] ih block(3) by auto
  qed
qed

text \<open>
  C16: Parsing a configuration into blocks loses, adds and moves nothing. Written out again in order, with the
  braces a block says it has, the blocks are the tokens of the file, line ends aside. Every directive is a whole
  run: its braces match, each opens at the end of a line, and none starts with a brace except under an
  \<open>import\<close>. Only the last block of a file can be the braceless shorthand.
\<close>

theorem blocks_keep_every_token:
  "case parse_server_blocks source of
     Inl e \<Rightarrow> True
   | Inr blocks \<Rightarrow>
       (\<exists>tokens. tokenize source = Inr tokens \<and> content tokens = concat (map block_content blocks)) \<and>
       list_all whole_block blocks \<and>
       list_all (\<lambda>block. has_braces block \<or> names_import (keys block)) (butlast blocks)"
  using parse_blocks_content by (auto simp: parse_server_blocks_def split: sum.splits)

end
