(* ===== verification/Dispenser.thy ===== *)
theory Dispenser
  imports Server_Block
begin

text \<open>
  The cursor over one directive's tokens (\<open>pingclair-config/src/caddyfile/parser/dispenser.rs\<close>). A method that
  moves the cursor answers the cursor after it beside its result. A cursor that borrows a subslice is a
  cursor over that part of the list.
\<close>

record dispenser =
  disp_tokens :: "spanned list"
  disp_cursor :: "nat option"
  disp_nesting :: nat

definition dispenser_new :: "spanned list \<Rightarrow> dispenser" where
  "dispenser_new tokens = \<lparr>disp_tokens = tokens, disp_cursor = None, disp_nesting = 0\<rparr>"

definition token_get :: "dispenser \<Rightarrow> nat \<Rightarrow> spanned option" where
  "token_get d i = (if i < length (disp_tokens d) then Some (disp_tokens d ! i) else None)"

definition value_get :: "dispenser \<Rightarrow> nat \<Rightarrow> token option" where
  "value_get d i = map_option spanned_value (token_get d i)"

text \<open>\<open>self.cursor.map_or(0, |c| c + 1)\<close>\<close>

definition next_index :: "dispenser \<Rightarrow> nat" where
  "next_index d = (case disp_cursor d of None \<Rightarrow> 0 | Some c \<Rightarrow> c + 1)"

section \<open>Position\<close>

fun token_text :: "token \<Rightarrow> chars" where
  "token_text (Word s) = s"
| "token_text (QuotedString s) = s"
| "token_text (Placeholder s) = [open_brace] @ s @ [close_brace]"
| "token_text (EnvVar s) = [dollar, open_brace] @ s @ [close_brace]"
| "token_text BlockOpen = [open_brace]"
| "token_text BlockClose = [close_brace]"
| "token_text Newline = [newline]"
| "token_text Whitespace = []"
| "token_text Comment = []"

definition disp_token :: "dispenser \<Rightarrow> spanned option" where
  "disp_token d = (case disp_cursor d of None \<Rightarrow> None | Some i \<Rightarrow> token_get d i)"

definition disp_val :: "dispenser \<Rightarrow> chars option" where
  "disp_val d = map_option (\<lambda>t. token_text (spanned_value t)) (disp_token d)"

definition disp_location :: "dispenser \<Rightarrow> location" where
  "disp_location d =
     (case disp_token d of
        Some t \<Rightarrow> spanned_span t
      | None \<Rightarrow> (case disp_tokens d of [] \<Rightarrow> synthetic | t # _ \<Rightarrow> spanned_span t))"

definition is_quoted :: "dispenser \<Rightarrow> bool" where
  "is_quoted d = (case map_option spanned_value (disp_token d) of Some (QuotedString _) \<Rightarrow> True | _ \<Rightarrow> False)"

section \<open>Moving\<close>

definition skip_lines :: "spanned list \<Rightarrow> nat \<Rightarrow> nat" where
  "skip_lines tokens i = i + length (takeWhile (\<lambda>t. spanned_value t = Newline) (drop i tokens))"

definition advance :: "dispenser \<Rightarrow> spanned option \<times> dispenser" where
  "advance d =
     (let i = skip_lines (disp_tokens d) (next_index d)
      in if length (disp_tokens d) \<le> i then (None, d)
         else (token_get d i, d\<lparr>disp_cursor := Some i\<rparr>))"

definition next_arg :: "dispenser \<Rightarrow> spanned option \<times> dispenser" where
  "next_arg d =
     (let i = next_index d
      in case token_get d i of
           None \<Rightarrow> (None, d)
         | Some t \<Rightarrow>
             if spanned_value t = Newline \<or> spanned_value t = BlockOpen then (None, d)
             else (Some t, d\<lparr>disp_cursor := Some i\<rparr>))"

definition next_line :: "dispenser \<Rightarrow> spanned option \<times> dispenser" where
  "next_line d = (if value_get d (next_index d) \<noteq> Some Newline then (None, d) else advance d)"

lemma next_arg_Some:
  "next_arg d = (Some t, d') \<Longrightarrow>
    d' = d\<lparr>disp_cursor := Some (next_index d)\<rparr> \<and> next_index d < length (disp_tokens d) \<and> next_index d' = next_index d + 1"
  by (auto simp: next_arg_def Let_def token_get_def next_index_def split: option.splits if_splits)

function remaining_args :: "dispenser \<Rightarrow> spanned list \<times> dispenser" where
  "remaining_args d =
     (case next_arg d of
        (None, d') \<Rightarrow> ([], d')
      | (Some t, d') \<Rightarrow> (case remaining_args d' of (args, d'') \<Rightarrow> (t # args, d'')))"
  by pat_completeness auto
termination
  by (relation "measure (\<lambda>d. length (disp_tokens d) - next_index d)") (auto dest!: sym [THEN next_arg_Some])

declare remaining_args.simps [simp del]

definition remaining_arg_texts :: "dispenser \<Rightarrow> chars list \<times> dispenser" where
  "remaining_arg_texts d =
     (case remaining_args d of (args, d') \<Rightarrow> (map (\<lambda>t. token_text (spanned_value t)) args, d'))"

definition ends_args :: "spanned \<Rightarrow> bool" where
  "ends_args t \<longleftrightarrow> spanned_value t = Newline \<or> spanned_value t = BlockOpen"

definition count_remaining_args :: "dispenser \<Rightarrow> nat" where
  "count_remaining_args d = length (takeWhile (\<lambda>t. \<not> ends_args t) (drop (next_index d) (disp_tokens d)))"

section \<open>Blocks\<close>

definition next_block :: "nat \<Rightarrow> dispenser \<Rightarrow> spanned option \<times> dispenser" where
  "next_block initial_nesting d =
     (if initial_nesting < disp_nesting d then
        (case advance d of
           (None, d) \<Rightarrow> (None, d)
         | (Some t, d) \<Rightarrow>
             if spanned_value t = BlockClose then
               (let d = d\<lparr>disp_nesting := disp_nesting d - 1\<rparr>
                in if disp_nesting d \<le> initial_nesting then (None, d) else (Some t, d))
             else if spanned_value t = BlockOpen then (Some t, d\<lparr>disp_nesting := disp_nesting d + 1\<rparr>)
             else (Some t, d))
      else
        (let i = next_index d
         in if value_get d i \<noteq> Some BlockOpen then (None, d)
            else
              (case advance (d\<lparr>disp_cursor := Some i\<rparr>) of
                 (None, d) \<Rightarrow> (None, d)
               | (Some first, d) \<Rightarrow>
                   if spanned_value first = BlockClose then (None, d)
                   else (Some first, d\<lparr>disp_nesting := disp_nesting d + 1\<rparr>))))"

text \<open>How many tokens the scan for the matching brace passes, that brace included.\<close>

fun close_scan :: "nat \<Rightarrow> spanned list \<Rightarrow> nat" where
  "close_scan depth [] = 0"
| "close_scan depth (t # ts) =
     (if spanned_value t = BlockOpen then close_scan (depth + 1) ts + 1
      else if spanned_value t = BlockClose then (if depth - 1 = 0 then 1 else close_scan (depth - 1) ts + 1)
      else close_scan depth ts + 1)"

definition plain_token :: "spanned \<Rightarrow> bool" where
  "plain_token t \<longleftrightarrow> spanned_value t \<notin> {Newline, BlockOpen, BlockClose}"

definition next_segment :: "dispenser \<Rightarrow> dispenser option \<times> dispenser" where
  "next_segment d =
     (let d = (if disp_cursor d = None then snd (advance d) else d)
      in case disp_cursor d of
           None \<Rightarrow> (None, d)
         | Some start \<Rightarrow>
             (let tokens = disp_tokens d;
                  i = start + length (takeWhile plain_token (drop start tokens))
              in if i = start then (None, d)
                 else
                   (let i = (if value_get d i = Some BlockOpen then i + close_scan 0 (drop i tokens) else i)
                    in (Some (dispenser_new (take (i - start) (drop start tokens))),
                        d\<lparr>disp_cursor := Some (i - 1)\<rparr>))))"

definition disp_reset :: "dispenser \<Rightarrow> dispenser" where
  "disp_reset d = d\<lparr>disp_cursor := None, disp_nesting := 0\<rparr>"

section \<open>Every move goes forward\<close>

lemma skip_lines_le: "i \<le> skip_lines tokens i"
  by (simp add: skip_lines_def)

lemma advance_Some:
  "advance d = (Some t, d') \<Longrightarrow>
    disp_tokens d' = disp_tokens d \<and> disp_nesting d' = disp_nesting d \<and> disp_cursor d' \<noteq> None \<and>
    next_index d < next_index d' \<and> next_index d' \<le> length (disp_tokens d)"
  using skip_lines_le [of "next_index d" "disp_tokens d"]
  by (auto simp: advance_def Let_def next_index_def [of "d\<lparr>disp_cursor := _\<rparr>"] split: if_splits)

lemma next_block_progress:
  assumes "next_block n d = (Some t, d')"
  shows "disp_tokens d' = disp_tokens d \<and> disp_cursor d' \<noteq> None \<and>
    next_index d < next_index d' \<and> next_index d' \<le> length (disp_tokens d)"
proof -
  define e where "e = (if n < disp_nesting d then d else d\<lparr>disp_cursor := Some (next_index d)\<rparr>)"
  have e: "disp_tokens e = disp_tokens d" "next_index d \<le> next_index e"
    by (simp_all add: e_def next_index_def split: option.splits)
  obtain d1 k where d1: "advance e = (Some t, d1)" "d' = d1\<lparr>disp_nesting := k\<rparr>"
  proof (cases "n < disp_nesting d")
    case True
    then obtain d1 where d1: "advance d = (Some t, d1)" using assms
      by (auto simp: next_block_def Let_def split: prod.splits option.splits if_splits)
    then have "d' = d1\<lparr>disp_nesting := disp_nesting d'\<rparr>" using assms True
      by (auto simp: next_block_def Let_def split: if_splits)
    with d1 show thesis using that True by (simp add: e_def)
  next
    case False
    then obtain d1 where d1: "advance (d\<lparr>disp_cursor := Some (next_index d)\<rparr>) = (Some t, d1)" using assms
      by (auto simp: next_block_def Let_def split: prod.splits option.splits if_splits)
    then have "d' = d1\<lparr>disp_nesting := disp_nesting d'\<rparr>" using assms False
      by (auto simp: next_block_def Let_def split: if_splits)
    with d1 show thesis using that False by (simp add: e_def)
  qed
  have "next_index d' = next_index d1" by (simp add: d1(2) next_index_def)
  then show ?thesis using advance_Some [OF d1(1)] e d1(2) by simp
qed

lemma next_segment_progress:
  assumes "next_segment d = (Some sub, d')" and "disp_cursor d \<noteq> None"
  shows "disp_tokens d' = disp_tokens d \<and> next_index d \<le> next_index d'"
proof -
  obtain start where start: "disp_cursor d = Some start" using assms(2) by blast
  define j where "j = start + length (takeWhile plain_token (drop start (disp_tokens d)))"
  define i where "i = (if value_get d j = Some BlockOpen then j + close_scan 0 (drop j (disp_tokens d)) else j)"
  have "j \<noteq> start" "d' = d\<lparr>disp_cursor := Some (i - 1)\<rparr>"
    using assms(1) unfolding next_segment_def Let_def j_def i_def by (simp_all add: start split: if_splits)
  moreover have "start \<le> j" "j \<le> i" by (simp_all add: j_def i_def)
  ultimately have "start < i" "d' = d\<lparr>disp_cursor := Some (i - 1)\<rparr>" by simp_all
  then show ?thesis by (simp add: next_index_def start)
qed

section \<open>Reading a run from its front\<close>

text \<open>The cursor has read the first part of the tokens and not the second.\<close>

definition stands :: "dispenser \<Rightarrow> spanned list \<Rightarrow> spanned list \<Rightarrow> bool" where
  "stands d pre rest \<longleftrightarrow> disp_tokens d = pre @ rest \<and> next_index d = length pre"

lemma stands_new: "stands (dispenser_new tokens) [] tokens"
  by (simp add: stands_def dispenser_new_def next_index_def)

lemma skip_lines_append:
  assumes "list_all (\<lambda>t. spanned_value t = Newline) lines" and "rest = [] \<or> spanned_value (hd rest) \<noteq> Newline"
  shows "skip_lines (pre @ lines @ rest) (length pre) = length pre + length lines"
proof -
  have "takeWhile (\<lambda>t. spanned_value t = Newline) rest = []" using assms(2) by (cases rest) simp_all
  then show ?thesis using assms(1) by (simp add: skip_lines_def list_all_iff takeWhile_append2)
qed

lemma advance_stands:
  assumes "stands d pre (lines @ t # rest)" "list_all (\<lambda>t. spanned_value t = Newline) lines" "spanned_value t \<noteq> Newline"
  shows "advance d = (Some t, d\<lparr>disp_cursor := Some (length pre + length lines)\<rparr>)"
  using skip_lines_append [OF assms(2), of "t # rest" pre] assms(1,3)
  by (simp add: advance_def stands_def token_get_def nth_append)

lemma stands_cursor:
  "disp_tokens d = pre @ t # rest \<Longrightarrow> c = length pre \<Longrightarrow> stands (d\<lparr>disp_cursor := Some c\<rparr>) (pre @ [t]) rest"
  by (simp add: stands_def next_index_def)

lemma stands_nesting: "stands (d\<lparr>disp_nesting := k\<rparr>) pre rest \<longleftrightarrow> stands d pre rest"
  by (simp add: stands_def next_index_def)

lemma stands_tokens: "stands d pre rest \<Longrightarrow> disp_tokens d = pre @ rest"
  by (simp add: stands_def)

lemma remaining_args_stands:
  assumes "stands d pre (args @ rest)" "list_all (\<lambda>t. \<not> ends_args t) args" "rest = [] \<or> ends_args (hd rest)"
  shows "\<exists>c. remaining_args d = (args, d\<lparr>disp_cursor := c\<rparr>) \<and> stands (d\<lparr>disp_cursor := c\<rparr>) (pre @ args) rest"
  using assms(1,2)
proof (induction args arbitrary: d pre)
  case Nil
  then have "next_arg d = (None, d)"
    using assms(3) by (cases rest) (auto simp: next_arg_def Let_def stands_def token_get_def ends_args_def nth_append)
  then show ?case using Nil.prems(1) by (subst remaining_args.simps) (auto intro: exI [of _ "disp_cursor d"])
next
  case (Cons t args)
  then have step: "next_arg d = (Some t, d\<lparr>disp_cursor := Some (length pre)\<rparr>)"
    by (simp add: next_arg_def Let_def stands_def token_get_def ends_args_def nth_append)
  have "stands (d\<lparr>disp_cursor := Some (length pre)\<rparr>) (pre @ [t]) (args @ rest)"
    using Cons.prems(1) by (intro stands_cursor) (simp_all add: stands_def)
  from Cons.IH [OF this] Cons.prems(2) obtain c where
    "remaining_args (d\<lparr>disp_cursor := Some (length pre)\<rparr>) = (args, d\<lparr>disp_cursor := c\<rparr>)"
    "stands (d\<lparr>disp_cursor := c\<rparr>) (pre @ t # args) rest" by auto
  then show ?case using step by (subst remaining_args.simps) auto
qed

end
