(* ===== verification/Segment_Tree.thy ===== *)
theory Segment_Tree
  imports Dispenser
begin

text \<open>
  The directive tree: its nodes and the runs of tokens they were read from
  (\<open>pingclair-config/src/caddyfile/parser/caddy_ast.rs\<close>), its assembly from flat segments
  (\<open>segment_tree.rs\<close>) and the entry point that first expands environment variables (\<open>parser.rs\<close>). The
  environment is an argument. Where the code counts the depth up to its limit, the first argument of
  \<open>segment_to_directive\<close> counts the levels that are left.
\<close>

section \<open>Directives\<close>

record token_run =
  run_shared :: "spanned list option"
  run_start :: nat
  run_end :: nat
  skipped_args :: nat

datatype directive = Directive (d_name: chars) (d_args: "chars list") (d_block: "directive list option") (d_run: token_run)

definition token_run_new :: "spanned list \<Rightarrow> nat \<Rightarrow> nat \<Rightarrow> token_run" where
  "token_run_new tokens a b = \<lparr>run_shared = Some tokens, run_start = a, run_end = b, skipped_args = 0\<rparr>"

definition token_run_synthetic :: token_run where
  "token_run_synthetic = \<lparr>run_shared = None, run_start = 0, run_end = 0, skipped_args = 0\<rparr>"

definition run_tokens :: "token_run \<Rightarrow> spanned list" where
  "run_tokens run =
     (case run_shared run of
        Some tokens \<Rightarrow> take (run_end run - run_start run) (drop (run_start run) tokens)
      | None \<Rightarrow> [])"

definition run_is_empty :: "token_run \<Rightarrow> bool" where
  "run_is_empty run \<longleftrightarrow> run_tokens run = []"

definition run_dispenser :: "token_run \<Rightarrow> dispenser" where
  "run_dispenser run = dispenser_new (run_tokens run)"

fun skip_arguments :: "nat \<Rightarrow> dispenser \<Rightarrow> dispenser option" where
  "skip_arguments 0 d = Some d"
| "skip_arguments (Suc n) d =
     (case next_arg d of
        (None, _) \<Rightarrow> None
      | (Some _, d) \<Rightarrow> skip_arguments n d)"

definition args_cursor :: "token_run \<Rightarrow> dispenser option" where
  "args_cursor run =
     (if run_is_empty run then None
      else
        (case advance (dispenser_new (run_tokens run)) of
           (None, _) \<Rightarrow> None
         | (Some _, d) \<Rightarrow> skip_arguments (skipped_args run) d))"

definition directive_new :: "chars \<Rightarrow> directive" where
  "directive_new name = Directive name [] None token_run_synthetic"

fun drop_first_arg :: "directive \<Rightarrow> chars option \<times> directive" where
  "drop_first_arg (Directive name args block run) =
     (case args of
        [] \<Rightarrow> (None, Directive name args block run)
      | a # args \<Rightarrow> (Some a, Directive name args block (run\<lparr>skipped_args := skipped_args run + 1\<rparr>)))"

fun with_args :: "chars list \<Rightarrow> directive \<Rightarrow> directive" where
  "with_args args (Directive name _ block run) = Directive name args block run"

fun with_block :: "directive list \<Rightarrow> directive \<Rightarrow> directive" where
  "with_block block (Directive name args _ run) = Directive name args (Some block) run"

section \<open>The tree of a segment\<close>

datatype parse_error =
    LexFailed lex_error
  | Syntax block_parse_error location
  | RecursionLimitExceeded

definition max_block_depth :: nat where
  "max_block_depth = 100"

fun text_of :: "token \<Rightarrow> chars" where
  "text_of (Word s) = s"
| "text_of (QuotedString s) = s"
| "text_of (Placeholder s) = [open_brace] @ s @ [close_brace]"
| "text_of (EnvVar s) = [dollar, open_brace] @ s @ [close_brace]"
| "text_of BlockOpen = [open_brace]"
| "text_of BlockClose = [close_brace]"
| "text_of Newline = [newline]"
| "text_of Whitespace = []"
| "text_of Comment = []"

definition run_of :: "spanned list \<Rightarrow> token_run" where
  "run_of tokens = token_run_new tokens 0 (length tokens)"

definition has_block :: "spanned list \<Rightarrow> bool" where
  "has_block segment \<longleftrightarrow> list_ex (\<lambda>t. spanned_value t = BlockOpen) segment"

lemma walk_progress:
  assumes "next_block n d = (Some t, d1)" and "next_segment d1 = (Some sub, d2)"
  shows "length (disp_tokens d2) - next_index d2 < length (disp_tokens d) - next_index d"
  using next_block_progress [OF assms(1)] next_segment_progress [OF assms(2)] by fastforce

function block_loop ::
    "(spanned list \<Rightarrow> parse_error + directive) \<Rightarrow> nat \<Rightarrow> dispenser \<Rightarrow> parse_error + directive list" where
  "block_loop convert nesting cursor =
     (case next_block nesting cursor of
        (None, _) \<Rightarrow> Inr []
      | (Some _, cursor) \<Rightarrow>
          (case next_segment cursor of
             (None, _) \<Rightarrow> Inr []
           | (Some sub, cursor) \<Rightarrow>
               try_bind (convert (disp_tokens sub)) (\<lambda>directive.
               try_bind (block_loop convert nesting cursor) (\<lambda>inner. Inr (directive # inner)))))"
  by pat_completeness auto
termination
  by (relation "measure (\<lambda>(convert, nesting, d). length (disp_tokens d) - next_index d)")
    (auto intro: walk_progress [OF sym sym])

declare block_loop.simps [simp del]

fun segment_to_directive :: "nat \<Rightarrow> spanned list \<Rightarrow> parse_error + directive" where
  "segment_to_directive 0 segment = Inl RecursionLimitExceeded"
| "segment_to_directive (Suc levels) segment =
     (case advance (dispenser_new segment) of
        (first, cursor) \<Rightarrow>
          (let name = (case first of None \<Rightarrow> [] | Some t \<Rightarrow> text_of (spanned_value t))
           in case remaining_arg_texts cursor of
                (args, cursor) \<Rightarrow>
                  try_bind (block_loop (segment_to_directive levels) (disp_nesting cursor) cursor) (\<lambda>inner.
                    Inr (Directive name args (if has_block segment then Some inner else None) (run_of segment)))))"

fun map_try :: "('a \<Rightarrow> 'e + 'b) \<Rightarrow> 'a list \<Rightarrow> 'e + 'b list" where
  "map_try f [] = Inr []"
| "map_try f (x # xs) = try_bind (f x) (\<lambda>y. try_bind (map_try f xs) (\<lambda>ys. Inr (y # ys)))"

definition block_to_directive :: "server_block \<Rightarrow> parse_error + directive" where
  "block_to_directive block =
     (let texts = map (\<lambda>k. text_of (spanned_value k)) (keys block);
          name = (case texts of [] \<Rightarrow> [] | n # _ \<Rightarrow> n);
          args = tl texts
      in try_bind (map_try (segment_to_directive (max_block_depth + 1)) (segments block)) (\<lambda>directives.
           Inr (Directive name args (if has_braces block \<or> directives \<noteq> [] then Some directives else None)
                  (run_of (keys block)))))"

definition parse_into_tree :: "chars \<Rightarrow> parse_error + directive list" where
  "parse_into_tree source =
     (case parse_server_blocks source of
        Inl (Lex e) \<Rightarrow> Inl (LexFailed e)
      | Inl e \<Rightarrow> Inl (Syntax e (case error_location e of Some l \<Rightarrow> l | None \<Rightarrow> synthetic))
      | Inr blocks \<Rightarrow> map_try block_to_directive blocks)"

section \<open>Environment variables\<close>

text \<open>\<open>rest.find("{$")\<close>, as the text before it and the text after it.\<close>

fun split_env :: "chars \<Rightarrow> (chars \<times> chars) option" where
  "split_env (c # d # cs) =
     (if c = open_brace \<and> d = dollar then Some ([], cs)
      else map_option (\<lambda>(before, after). (c # before, after)) (split_env (d # cs)))"
| "split_env _ = None"

lemma split_env_Some: "split_env s = Some (before, after) \<Longrightarrow> s = before @ [open_brace, dollar] @ after"
  by (induction s arbitrary: before rule: split_env.induct) (auto split: if_splits)

definition variable_value :: "(chars \<Rightarrow> chars option) \<Rightarrow> chars \<Rightarrow> chars" where
  "variable_value env spec =
     (let (name, default_value) = (case split_once (of_char CHR '':'') spec of
            None \<Rightarrow> (spec, None) | Some (name, d) \<Rightarrow> (name, Some d))
      in case env name of Some v \<Rightarrow> v | None \<Rightarrow> (case default_value of Some d \<Rightarrow> d | None \<Rightarrow> []))"

function expand_env_vars :: "(chars \<Rightarrow> chars option) \<Rightarrow> chars \<Rightarrow> chars" where
  "expand_env_vars env rest =
     (case split_env rest of
        None \<Rightarrow> rest
      | Some (before, after) \<Rightarrow>
          (case split_once close_brace after of
             None \<Rightarrow> rest
           | Some (spec, after) \<Rightarrow> before @ variable_value env spec @ expand_env_vars env after))"
  by pat_completeness auto
termination
  by (relation "measure (\<lambda>(env, rest). length rest)") (auto dest!: split_env_Some simp: split_once_Some)

declare expand_env_vars.simps [simp del]

definition parse :: "(chars \<Rightarrow> chars option) \<Rightarrow> chars \<Rightarrow> parse_error + directive list" where
  "parse env source = parse_into_tree (expand_env_vars env source)"

lemma token_text_of: "token_text t = text_of t"
  by (cases t) simp_all

section \<open>Written trees are read back\<close>

definition written :: "chars \<Rightarrow> token" where
  "written s = (if plain_word s then Word s else QuotedString s)"

fun directive_tokens :: "directive \<Rightarrow> token list" where
  "directive_tokens (Directive name args block run) =
     written name # map written args @
     (case block of
        None \<Rightarrow> []
      | Some ds \<Rightarrow> [BlockOpen] @ concat (map (\<lambda>d. Newline # directive_tokens d) ds) @ [Newline, BlockClose])"

fun levels :: "directive \<Rightarrow> nat" where
  "levels (Directive name args block run) =
     (case block of None \<Rightarrow> 1 | Some ds \<Rightarrow> 1 + foldr max (map levels ds) 0)"

lemma elem_size_list: "x \<in> set xs \<Longrightarrow> size x < Suc (Suc (size_list size xs))"
  by (induction xs) auto

function same_directive :: "directive \<Rightarrow> directive \<Rightarrow> bool" where
  "same_directive (Directive name args block run) (Directive name' args' block' run') \<longleftrightarrow>
     name = name' \<and> args = args' \<and>
     (case (block, block') of
        (None, None) \<Rightarrow> True
      | (Some ds, Some ds') \<Rightarrow> length ds = length ds' \<and> list_all (\<lambda>(a, b). same_directive a b) (zip ds ds')
      | _ \<Rightarrow> False)"
  by pat_completeness auto
termination
  by (relation "measure (\<lambda>(a, b). size a)") (auto intro!: elem_size_list dest: set_zip_leftD)

definition same_directives :: "directive list \<Rightarrow> directive list \<Rightarrow> bool" where
  "same_directives a b \<longleftrightarrow> length a = length b \<and> list_all (\<lambda>(a, b). same_directive a b) (zip a b)"


lemma text_written [simp]: "text_of (written s) = s"
  and written_values [simp]: "written s \<noteq> BlockOpen" "written s \<noteq> BlockClose" "written s \<noteq> Newline"
  by (simp_all add: written_def)

text \<open>Tokens whose braces match, each opening at the end of a line.\<close>

inductive nested :: "token list \<Rightarrow> bool" where
  nested_Nil: "nested []"
| nested_token: "t \<noteq> BlockOpen \<Longrightarrow> t \<noteq> BlockClose \<Longrightarrow> nested ts \<Longrightarrow> nested (t # ts)"
| nested_block: "nested body \<Longrightarrow> nested ts \<Longrightarrow> nested (BlockOpen # Newline # body @ BlockClose # ts)"

lemma nested_append: "nested xs \<Longrightarrow> nested ys \<Longrightarrow> nested (xs @ ys)"
  by (induction rule: nested.induct) (auto intro: nested.intros)

lemma nested_written: "nested (map written args)"
  by (induction args) (auto intro: nested.intros)

definition lines_tokens :: "directive list \<Rightarrow> token list" where
  "lines_tokens ds = concat (map (\<lambda>d. directive_tokens d @ [Newline]) ds)"

lemma lines_tokens_simps:
  "lines_tokens [] = []" "lines_tokens (d # ds) = directive_tokens d @ Newline # lines_tokens ds"
  by (simp_all add: lines_tokens_def)

lemma directive_tokens_lines:
  "directive_tokens (Directive name args block run) =
    written name # map written args @
    (case block of None \<Rightarrow> [] | Some ds \<Rightarrow> BlockOpen # Newline # lines_tokens ds @ [BlockClose])"
proof -
  have "concat (map (\<lambda>d. Newline # directive_tokens d) ds) @ [Newline] = Newline # lines_tokens ds" for ds
    by (induction ds) (simp_all add: lines_tokens_simps)
  then show ?thesis by (auto split: option.splits)
qed

declare directive_tokens.simps [simp del]

lemma nested_directive: "nested (directive_tokens d)"
proof (induction d)
  case (Directive name args block run)
  have lines: "nested (lines_tokens ds)" if "\<And>d. d \<in> set ds \<Longrightarrow> nested (directive_tokens d)" for ds
    using that by (induction ds) (auto simp: lines_tokens_simps intro!: nested_append nested.intros)
  have "nested (case block of None \<Rightarrow> [] | Some ds \<Rightarrow> BlockOpen # Newline # lines_tokens ds @ [BlockClose])"
    using nested_block [OF lines nested_Nil] Directive nested_Nil by (auto split: option.splits)
  then show ?case
    unfolding directive_tokens_lines by (intro nested_token nested_append nested_written) simp_all
qed

lemma nested_lines: "nested (lines_tokens ds)"
  by (induction ds) (auto simp: lines_tokens_simps intro!: nested_append nested.intros nested_directive)

lemma close_scan_nested:
  "nested vs \<Longrightarrow> map spanned_value xs = vs \<Longrightarrow> 0 < depth \<Longrightarrow>
    close_scan depth (xs @ rest) = length xs + close_scan depth rest"
proof (induction arbitrary: xs depth rest rule: nested.induct)
  case (nested_block body ts)
  then obtain t n ys c zs where "xs = t # n # ys @ c # zs" "spanned_value t = BlockOpen" "spanned_value n = Newline"
    "map spanned_value ys = body" "spanned_value c = BlockClose" "map spanned_value zs = ts"
    by (auto simp: map_eq_Cons_conv map_eq_append_conv)
  then show ?case using nested_block.IH nested_block.prems(2) by simp
qed (auto simp: map_eq_Cons_conv)

lemma segment_loop_nested:
  "nested vs \<Longrightarrow> map spanned_value xs = vs \<Longrightarrow> 0 < depth \<Longrightarrow>
    segment_loop depth open_at (xs @ rest) =
      try_bind (segment_loop depth open_at rest) (\<lambda>(segment, state). Inr (xs @ segment, state))"
proof (induction arbitrary: xs depth rest rule: nested.induct)
  case nested_Nil
  then show ?case by (cases "segment_loop depth open_at rest") auto
next
  case (nested_token t ts)
  then obtain s zs where "xs = s # zs" "spanned_value s = t" "map spanned_value zs = ts" by (auto simp: map_eq_Cons_conv)
  then show ?case
    using nested_token.IH nested_token.hyps nested_token.prems(2)
    by (cases t) (auto simp: Let_def try_bind_assoc case_prod_beta)
next
  case (nested_block body ts)
  then obtain t n ys c zs where xs: "xs = t # n # ys @ c # zs" "spanned_value t = BlockOpen" "spanned_value n = Newline"
    "map spanned_value ys = body" "spanned_value c = BlockClose" "map spanned_value zs = ts"
    by (auto simp: map_eq_Cons_conv map_eq_append_conv)
  then show ?case
    using nested_block.IH nested_block.prems(2)
    by (simp add: Let_def peek_def try_bind_assoc case_prod_beta)
qed

lemma directive_run:
  assumes "map spanned_value xs = directive_tokens (Directive name args block run)"
  obtains h as bl where "xs = h # as @ bl" "spanned_value h = written name" "map spanned_value as = map written args"
    "map spanned_value bl = (case block of None \<Rightarrow> [] | Some ds \<Rightarrow> BlockOpen # Newline # lines_tokens ds @ [BlockClose])"
  using assms unfolding directive_tokens_lines by (auto simp: map_eq_Cons_conv map_eq_append_conv)

lemma written_plain:
  "map spanned_value as = map written args \<Longrightarrow> t \<in> set as \<Longrightarrow> plain_token t \<and> \<not> ends_args t"
proof -
  assume as: "map spanned_value as = map written args" and t: "t \<in> set as"
  have "spanned_value t \<in> set (map written args)" unfolding as [symmetric] using t by simp
  then obtain s where "spanned_value t = written s" by auto
  then show ?thesis by (simp add: plain_token_def ends_args_def)
qed

lemma segment_loop_plain:
  "list_all plain_token xs \<Longrightarrow>
    segment_loop depth open_at (xs @ rest) =
      try_bind (segment_loop depth open_at rest) (\<lambda>(segment, state). Inr (xs @ segment, state))"
proof (induction xs)
  case Nil
  then show ?case by (cases "segment_loop depth open_at rest") auto
next
  case (Cons t xs)
  then show ?case
    by (cases "spanned_value t") (auto simp: Let_def plain_token_def try_bind_assoc case_prod_beta)
qed

lemma parse_segment_directive:
  assumes "map spanned_value xs = directive_tokens d" "spanned_value n = Newline"
  shows "parse_segment tokens (xs @ n # rest) = Inr (xs, rest)"
proof -
  obtain name args block run where d: "d = Directive name args block run" by (cases d)
  obtain h as bl where xs: "xs = h # as @ bl" "spanned_value h = written name" "map spanned_value as = map written args"
    "map spanned_value bl = (case block of None \<Rightarrow> [] | Some ds \<Rightarrow> BlockOpen # Newline # lines_tokens ds @ [BlockClose])"
    using assms(1) unfolding d by (rule directive_run)
  have plain: "list_all plain_token (h # as)"
    using written_plain [OF xs(3)] xs(2) by (auto simp: list_all_iff plain_token_def)
  have loop: "\<exists>o'. segment_loop 0 None (bl @ n # rest) = Inr (bl, 0, o', rest)"
  proof (cases block)
    case None
    then show ?thesis using xs(4) assms(2) by simp
  next
    case (Some ds)
    then obtain t m ys c where bl: "bl = t # m # ys @ [c]" "spanned_value t = BlockOpen" "spanned_value m = Newline"
      "map spanned_value ys = lines_tokens ds" "spanned_value c = BlockClose"
      using xs(4) by (auto simp: map_eq_Cons_conv map_eq_append_conv)
    then show ?thesis
      using segment_loop_nested [OF nested_lines bl(4)] assms(2) by (simp add: Let_def peek_def)
  qed
  then show ?thesis
    using segment_loop_plain [OF plain, of 0 None "bl @ n # rest"] by (auto simp: parse_segment_def xs(1))
qed

lemma take_drop_middle: "take (length pre + length xs - length pre) (drop (length pre) (pre @ xs @ rest)) = xs"
  by simp

lemma next_segment_directive:
  assumes "map spanned_value xs = directive_tokens d" "disp_tokens c = pre @ xs @ rest" "disp_cursor c = Some (length pre)"
    "rest = [] \<or> spanned_value (hd rest) = Newline"
  shows "next_segment c = (Some (dispenser_new xs), c\<lparr>disp_cursor := Some (length pre + length xs - 1)\<rparr>)"
proof -
  obtain name args block run where d: "d = Directive name args block run" by (cases d)
  obtain h as bl where xs: "xs = h # as @ bl" "spanned_value h = written name" "map spanned_value as = map written args"
    "map spanned_value bl = (case block of None \<Rightarrow> [] | Some ds \<Rightarrow> BlockOpen # Newline # lines_tokens ds @ [BlockClose])"
    using assms(1) unfolding d by (rule directive_run)
  have plain: "\<forall>t \<in> set (h # as). plain_token t"
    using written_plain [OF xs(3)] xs(2) by (auto simp: plain_token_def)
  define i where "i = length pre + length (h # as)"
  have stop: "takeWhile plain_token (bl @ rest) = []"
    using xs(4) assms(4) by (cases block; cases rest) (auto simp: plain_token_def map_eq_Cons_conv)
  have "takeWhile plain_token (xs @ rest) = h # as"
    using plain stop takeWhile_append2 [of "h # as" plain_token "bl @ rest"] by (simp add: xs(1))
  then have i: "length pre + length (takeWhile plain_token (drop (length pre) (disp_tokens c))) = i"
    by (simp add: assms(2) i_def)
  have drop: "drop i (disp_tokens c) = bl @ rest" by (simp add: i_def assms(2) xs(1))
  have get: "value_get c i = (case bl @ rest of [] \<Rightarrow> None | t # _ \<Rightarrow> Some (spanned_value t))"
  proof (cases "bl @ rest")
    case (Cons t r)
    then have "i < length (disp_tokens c)" using drop by (cases "length (disp_tokens c) \<le> i") auto
    then have "disp_tokens c ! i = t" using drop Cons hd_drop_conv_nth [of i "disp_tokens c"] by simp
    then show ?thesis using Cons \<open>i < _\<close> by (simp add: value_get_def token_get_def)
  qed (use drop in \<open>simp add: value_get_def token_get_def\<close>)
  have ends: "(if value_get c i = Some BlockOpen then i + close_scan 0 (drop i (disp_tokens c)) else i) = length pre + length xs"
  proof (cases block)
    case None
    then show ?thesis using xs(1,4) assms(4) get by (cases rest) (auto simp: i_def)
  next
    case (Some ds)
    then obtain t m ys e where bl: "bl = t # m # ys @ [e]" "spanned_value t = BlockOpen" "spanned_value m = Newline"
      "map spanned_value ys = lines_tokens ds" "spanned_value e = BlockClose"
      using xs(4) by (auto simp: map_eq_Cons_conv map_eq_append_conv)
    have "close_scan 0 (bl @ rest) = length bl"
      using close_scan_nested [OF nested_lines bl(4), of 1 "e # rest"] by (simp add: bl(1,2,3,5))
    then show ?thesis using get drop bl(1,2) xs(1) by (simp add: i_def)
  qed
  have cursor: "(if disp_cursor c = None then snd (advance c) else c) = c" using assms(3) by simp
  show ?thesis
    unfolding next_segment_def Let_def unfolding cursor unfolding assms(3) option.case i ends
    unfolding assms(2) take_drop_middle by (simp add: i_def)
qed

lemma enter_directive:
  assumes "stands c pre (n # xs @ rest)" "spanned_value n = Newline" "map spanned_value xs = directive_tokens d"
    "rest = [] \<or> spanned_value (hd rest) = Newline"
  defines "c1 \<equiv> c\<lparr>disp_cursor := Some (length pre + 1)\<rparr>"
    and "c2 \<equiv> c\<lparr>disp_cursor := Some (length pre + length xs)\<rparr>"
  shows "\<exists>h. advance c = (Some h, c1) \<and> plain_token h"
    and "next_segment (c1\<lparr>disp_nesting := k\<rparr>) = (Some (dispenser_new xs), c2\<lparr>disp_nesting := k\<rparr>)"
    and "stands c2 (pre @ n # xs) rest"
proof -
  obtain h ys where h: "xs = h # ys" "plain_token h"
    using assms(3) by (cases d) (auto simp: directive_tokens_lines plain_token_def map_eq_Cons_conv)
  then have "advance c = (Some h, c\<lparr>disp_cursor := Some (length pre + length [n])\<rparr>)"
    using assms(1,2) by (intro advance_stands [of c pre "[n]" h "ys @ rest"]) (simp_all add: plain_token_def)
  then show "\<exists>h. advance c = (Some h, c1) \<and> plain_token h" using h(2) by (simp add: c1_def)
  show "next_segment (c1\<lparr>disp_nesting := k\<rparr>) = (Some (dispenser_new xs), c2\<lparr>disp_nesting := k\<rparr>)"
    using next_segment_directive [OF assms(3), of "c1\<lparr>disp_nesting := k\<rparr>" "pre @ [n]" rest] assms(1,4)
    by (simp add: c1_def c2_def stands_def)
  show "stands c2 (pre @ n # xs) rest"
    using assms(1) h(1) by (simp add: stands_def c2_def next_index_def)
qed

lemma same_directives_Cons: "same_directive d d' \<Longrightarrow> same_directives ds ds' \<Longrightarrow> same_directives (d # ds) (d' # ds')"
  by (simp add: same_directives_def)

lemma next_segment_brace:
  assumes "disp_tokens c = pre @ e # post" "disp_cursor c = Some (length pre)" "spanned_value e = BlockOpen"
  shows "next_segment c = (None, c)"
  using assms by (simp add: next_segment_def Let_def plain_token_def)

lemma block_loop_lines:
  assumes "\<And>d xs. d \<in> set ds \<Longrightarrow> map spanned_value xs = directive_tokens d \<Longrightarrow>
      \<exists>d'. convert xs = Inr d' \<and> same_directive d d'"
    and "stands c pre (n # ys @ e # post)" "spanned_value n = Newline" "map spanned_value ys = lines_tokens ds"
    "spanned_value e = BlockClose \<or> spanned_value e = BlockOpen" "disp_nesting c = 1"
  shows "\<exists>ds'. block_loop convert 0 c = Inr ds' \<and> same_directives ds ds'"
  using assms(1-4,6)
proof (induction ds arbitrary: c pre n ys)
  case Nil
  then have adv: "advance c = (Some e, c\<lparr>disp_cursor := Some (length pre + length [n])\<rparr>)"
    using assms(5) by (intro advance_stands [of c pre "[n]" e post]) (auto simp: lines_tokens_simps)
  show ?case
  proof (cases "spanned_value e = BlockClose")
    case True
    then have "\<exists>c'. next_block 0 c = (None, c')" using adv Nil.prems(5) by (simp add: next_block_def)
    then show ?thesis by (subst block_loop.simps) (auto simp: same_directives_def)
  next
    case False
    then have "next_block 0 c = (Some e, c\<lparr>disp_cursor := Some (length (pre @ [n])), disp_nesting := 2\<rparr>)"
      using adv Nil.prems(5) assms(5) by (simp add: next_block_def)
    moreover have "disp_tokens c = (pre @ [n]) @ e # post" using Nil.prems(2,4) by (simp add: stands_def lines_tokens_simps)
    ultimately show ?thesis
      using False assms(5) next_segment_brace [of "c\<lparr>disp_cursor := Some (length (pre @ [n])), disp_nesting := 2\<rparr>" "pre @ [n]" e post]
      by (subst block_loop.simps) (simp add: same_directives_def)
  qed
next
  case (Cons d ds)
  then obtain xs m ys' where ys: "ys = xs @ m # ys'" "map spanned_value xs = directive_tokens d"
    "spanned_value m = Newline" "map spanned_value ys' = lines_tokens ds"
    by (auto simp: lines_tokens_simps map_eq_append_conv map_eq_Cons_conv)
  have c: "stands c pre (n # xs @ m # ys' @ e # post)" using Cons.prems(2) ys(1) by simp
  note enter = enter_directive [OF c Cons.prems(3) ys(2)]
  define c1 where "c1 = c\<lparr>disp_cursor := Some (length pre + 1)\<rparr>"
  define c2 where "c2 = c\<lparr>disp_cursor := Some (length pre + length xs)\<rparr>"
  obtain h where h: "advance c = (Some h, c1)" "plain_token h" using enter(1) ys(3) by (auto simp: c1_def)
  have "c1\<lparr>disp_nesting := 1\<rparr> = c1" "c2\<lparr>disp_nesting := 1\<rparr> = c2"
    using Cons.prems(5) by (simp_all add: c1_def c2_def)
  then have segment: "next_segment c1 = (Some (dispenser_new xs), c2)"
    using enter(2) [of 1] ys(3) by (simp add: c1_def c2_def)
  have block: "next_block 0 c = (Some h, c1)"
    using h Cons.prems(5) by (auto simp: next_block_def plain_token_def)
  obtain d' where d': "convert xs = Inr d'" "same_directive d d'" using Cons.prems(1) [of d xs] ys(2) by auto
  have "\<exists>ds'. block_loop convert 0 c2 = Inr ds' \<and> same_directives ds ds'"
    using enter(3) ys(3,4) Cons.prems(1,5) by (intro Cons.IH) (auto simp: c2_def)
  then show ?case
    using block segment d' same_directives_Cons by (subst block_loop.simps) (auto simp: dispenser_new_def)
qed

lemma block_loop_block:
  assumes "\<And>d xs. d \<in> set ds \<Longrightarrow> map spanned_value xs = directive_tokens d \<Longrightarrow>
      \<exists>d'. convert xs = Inr d' \<and> same_directive d d'"
    and "stands c pre (t # n # ys @ e # post)" "spanned_value t = BlockOpen" "spanned_value n = Newline"
    "map spanned_value ys = lines_tokens ds" "spanned_value e = BlockClose \<or> spanned_value e = BlockOpen" "disp_nesting c = 0"
  shows "\<exists>ds'. block_loop convert 0 c = Inr ds' \<and> same_directives ds ds'"
proof -
  define c0 where "c0 = c\<lparr>disp_cursor := Some (next_index c)\<rparr>"
  have c0: "stands c0 (pre @ [t]) (n # ys @ e # post)"
    unfolding c0_def using assms(2) by (intro stands_cursor) (simp_all add: stands_def)
  have get: "value_get c (next_index c) = Some BlockOpen"
    using assms(2,3) by (simp add: value_get_def token_get_def stands_def)
  show ?thesis
  proof (cases ds)
    case Nil
    then have adv: "advance c0 = (Some e, c0\<lparr>disp_cursor := Some (length (pre @ [t]) + length [n])\<rparr>)"
      using c0 assms(4,5,6) by (intro advance_stands [of c0 "pre @ [t]" "[n]" e post]) (auto simp: lines_tokens_simps)
    show ?thesis
    proof (cases "spanned_value e = BlockClose")
      case True
      then have "\<exists>c'. next_block 0 c = (None, c')" using adv get assms(7) by (simp add: next_block_def c0_def Let_def)
      then show ?thesis using Nil by (subst block_loop.simps) (auto simp: same_directives_def)
    next
      case False
      let ?c = "c0\<lparr>disp_cursor := Some (length (pre @ [t, n])), disp_nesting := 1\<rparr>"
      have "next_block 0 c = (Some e, ?c)" using False adv get assms(7) by (simp add: next_block_def c0_def Let_def)
      moreover have "next_segment ?c = (None, ?c)"
        using c0 assms(5,6) False Nil
        by (intro next_segment_brace [of _ "pre @ [t, n]" e post]) (simp_all add: stands_def lines_tokens_simps)
      ultimately show ?thesis using Nil by (subst block_loop.simps) (simp add: same_directives_def)
    qed
  next
    case (Cons d ds')
    then obtain xs m ys' where ys: "ys = xs @ m # ys'" "map spanned_value xs = directive_tokens d"
      "spanned_value m = Newline" "map spanned_value ys' = lines_tokens ds'"
      using assms(5) by (auto simp: lines_tokens_simps map_eq_append_conv map_eq_Cons_conv)
    have c: "stands c0 (pre @ [t]) (n # xs @ m # ys' @ e # post)" using c0 ys(1) by simp
    note enter = enter_directive [OF c assms(4) ys(2)]
    define c1 where "c1 = c0\<lparr>disp_cursor := Some (length (pre @ [t]) + 1), disp_nesting := 1\<rparr>"
    define c2 where "c2 = c0\<lparr>disp_cursor := Some (length (pre @ [t]) + length xs), disp_nesting := 1\<rparr>"
    obtain h where h: "advance c0 = (Some h, c0\<lparr>disp_cursor := Some (length (pre @ [t]) + 1)\<rparr>)" "plain_token h"
      using enter(1) ys(3) by auto
    have block: "next_block 0 c = (Some h, c1)"
      using h get assms(7) by (auto simp: next_block_def plain_token_def c0_def c1_def Let_def)
    have segment: "next_segment c1 = (Some (dispenser_new xs), c2)"
      using enter(2) [of 1] ys(3) by (simp add: c1_def c2_def)
    obtain d' where d': "convert xs = Inr d'" "same_directive d d'" using assms(1) [of d xs] ys(2) Cons by auto
    have c2: "stands c2 ((pre @ [t]) @ n # xs) (m # ys' @ e # post)"
      using enter(3) ys(3) stands_nesting [where k = 1] by (simp add: c2_def)
    have "\<exists>ds''. block_loop convert 0 c2 = Inr ds'' \<and> same_directives ds' ds''"
      by (rule block_loop_lines [OF _ c2 ys(3,4) assms(6)]) (use assms(1) Cons in \<open>simp_all add: c2_def\<close>)
    then show ?thesis
      using block segment d' same_directives_Cons Cons by (subst block_loop.simps) (auto simp: dispenser_new_def)
  qed
qed

lemma levels_block: "levels (Directive name args (Some ds) run) \<le> Suc n \<Longrightarrow> d \<in> set ds \<Longrightarrow> levels d \<le> n"
proof -
  assume "levels (Directive name args (Some ds) run) \<le> Suc n" "d \<in> set ds"
  moreover have "levels d \<le> foldr max (map levels ds) 0" if "d \<in> set ds" using that by (induction ds) auto
  ultimately show ?thesis by simp
qed

text \<open>The name and the arguments of a run, and the cursor behind them.\<close>

lemma read_head:
  assumes "spanned_value h = written name" "map spanned_value as = map written args" "bl = [] \<or> ends_args (hd bl)"
  shows "\<exists>c. segment_to_directive (Suc n) (h # as @ bl) =
      try_bind (block_loop (segment_to_directive n) 0 c) (\<lambda>inner.
        Inr (Directive name args (if has_block bl then Some inner else None) (run_of (h # as @ bl)))) \<and>
    stands c (h # as) bl \<and> disp_nesting c = 0"
proof -
  let ?c0 = "dispenser_new (h # as @ bl)"
  let ?c1 = "?c0\<lparr>disp_cursor := Some 0\<rparr>"
  have first: "advance ?c0 = (Some h, ?c1)"
    using advance_stands [of ?c0 "[]" "[]" h "as @ bl"] stands_new [of "h # as @ bl"] assms(1) by simp
  have "stands ?c1 [h] (as @ bl)"
    using stands_cursor [of ?c0 "[]" h "as @ bl" 0] by (simp add: dispenser_new_def)
  moreover have "list_all (\<lambda>t. \<not> ends_args t) as" using written_plain [OF assms(2)] by (auto simp: list_all_iff)
  ultimately obtain k where k: "remaining_args ?c1 = (as, ?c1\<lparr>disp_cursor := k\<rparr>)"
    "stands (?c1\<lparr>disp_cursor := k\<rparr>) ([h] @ as) bl"
    using remaining_args_stands [of ?c1 "[h]" as bl] assms(3) by blast
  define c where "c = ?c1\<lparr>disp_cursor := k\<rparr>"
  have c: "stands c (h # as) bl" "disp_nesting c = 0" using k(2) by (simp_all add: c_def dispenser_new_def)
  have "map (\<lambda>t. text_of (spanned_value t)) as = map text_of (map written args)"
    unfolding assms(2) [symmetric] by simp
  then have texts: "remaining_arg_texts ?c1 = (args, c)"
    using k(1) by (simp add: remaining_arg_texts_def token_text_of c_def o_def)
  have "\<not> has_block (h # as)"
    using written_plain [OF assms(2)] assms(1) by (auto simp: has_block_def list_ex_iff plain_token_def)
  then have "has_block (h # as @ bl) = has_block bl" by (auto simp: has_block_def)
  then show ?thesis using first texts c assms(1) by (intro exI [of _ c]) simp
qed

lemma segment_with_block:
  assumes "\<And>d xs. d \<in> set ds \<Longrightarrow> map spanned_value xs = directive_tokens d \<Longrightarrow>
      \<exists>d'. segment_to_directive n xs = Inr d' \<and> same_directive d d'"
    and "map spanned_value xs = written name # map written args @ BlockOpen # Newline # lines_tokens ds"
    "spanned_value e = BlockClose \<or> spanned_value e = BlockOpen"
  shows "\<exists>d'. segment_to_directive (Suc n) (xs @ e # post) = Inr d' \<and> same_directive (Directive name args (Some ds) run) d'"
proof -
  obtain h as t m ys where xs: "xs = h # as @ t # m # ys" "spanned_value h = written name"
    "map spanned_value as = map written args" "spanned_value t = BlockOpen" "spanned_value m = Newline"
    "map spanned_value ys = lines_tokens ds"
    using assms(2) by (auto simp: map_eq_Cons_conv map_eq_append_conv)
  let ?bl = "t # m # ys @ e # post"
  obtain c where c: "segment_to_directive (Suc n) (h # as @ ?bl) =
      try_bind (block_loop (segment_to_directive n) 0 c) (\<lambda>inner.
        Inr (Directive name args (if has_block ?bl then Some inner else None) (run_of (h # as @ ?bl))))"
    "stands c (h # as) ?bl" "disp_nesting c = 0"
    using read_head [OF xs(2,3), of ?bl n] xs(4) by (auto simp: ends_args_def)
  have "\<exists>ds'. block_loop (segment_to_directive n) 0 c = Inr ds' \<and> same_directives ds ds'"
    by (rule block_loop_block [OF _ c(2) xs(4,5,6) assms(3) c(3)]) (rule assms(1))
  moreover have "has_block ?bl" using xs(4) by (simp add: has_block_def)
  ultimately show ?thesis
    using c(1) by (auto simp: xs(1) same_directives_def simp del: segment_to_directive.simps)
qed

lemma segment_to_directive_reads:
  "levels d \<le> n \<Longrightarrow> map spanned_value xs = directive_tokens d \<Longrightarrow>
    \<exists>d'. segment_to_directive n xs = Inr d' \<and> same_directive d d'"
proof (induction n arbitrary: d xs)
  case 0
  then show ?case by (cases d) (auto split: option.splits)
next
  case (Suc n)
  obtain name args block run where d: "d = Directive name args block run" by (cases d)
  show ?case
  proof (cases block)
    case None
    then obtain h as where xs: "xs = h # as @ []" "spanned_value h = written name" "map spanned_value as = map written args"
      using Suc.prems(2) by (auto simp: d directive_tokens_lines map_eq_Cons_conv)
    obtain c where c: "segment_to_directive (Suc n) xs =
        try_bind (block_loop (segment_to_directive n) 0 c) (\<lambda>inner.
          Inr (Directive name args (if has_block [] then Some inner else None) (run_of xs)))"
      "stands c (h # as) []" "disp_nesting c = 0"
      using read_head [OF xs(2,3), of "[]" n] unfolding xs(1) [symmetric] by blast
    have "next_block 0 c = (None, c)"
      using c(2,3) by (simp add: next_block_def Let_def value_get_def token_get_def stands_def)
    then have "block_loop (segment_to_directive n) 0 c = Inr []" by (subst block_loop.simps) simp
    then show ?thesis using c(1) None by (simp add: d has_block_def)
  next
    case (Some ds)
    obtain ys e where xs: "xs = ys @ e # []" "spanned_value e = BlockClose"
      "map spanned_value ys = written name # map written args @ BlockOpen # Newline # lines_tokens ds"
    proof -
      have "map spanned_value xs = (written name # map written args @ BlockOpen # Newline # lines_tokens ds) @ [BlockClose]"
        using Suc.prems(2) by (simp add: d Some directive_tokens_lines)
      then obtain ys zs where "xs = ys @ zs" "map spanned_value zs = [BlockClose]"
        "map spanned_value ys = written name # map written args @ BlockOpen # Newline # lines_tokens ds"
        unfolding map_eq_append_conv by metis
      then show thesis using that by (auto simp: map_eq_Cons_conv)
    qed
    have "\<exists>d'. segment_to_directive n zs = Inr d' \<and> same_directive q d'" if "q \<in> set ds" "map spanned_value zs = directive_tokens q" for q zs
      using Suc.IH [OF _ that(2)] levels_block [of name args ds run n q] Suc.prems(1) that(1) by (simp add: d Some)
    then show ?thesis
      using segment_with_block [of ds n ys name args e "[]" run] xs(2,3) unfolding d Some xs(1) by blast
  qed
qed

lemma map_try_all:
  "(\<And>x. x \<in> set xs \<Longrightarrow> \<exists>y. f x = Inr y \<and> P x y) \<Longrightarrow> \<exists>ys. map_try f xs = Inr ys \<and> list_all2 P xs ys"
proof (induction xs)
  case (Cons x xs)
  then obtain y ys where "f x = Inr y" "P x y" "map_try f xs = Inr ys" "list_all2 P xs ys" by fastforce
  then show ?case by simp
qed simp

text \<open>The segments of a written block.\<close>

lemma parse_segments_lines:
  assumes "map spanned_value ys = lines_tokens ds" "spanned_value e = BlockClose"
  shows "\<exists>segs. parse_segments tokens open_at allow (ys @ e # post) = Inr (segs, post) \<and>
    list_all2 (\<lambda>d seg. map spanned_value seg = directive_tokens d) ds segs"
  using assms(1)
proof (induction ds arbitrary: ys)
  case Nil
  then show ?case
    using assms(2) by (subst parse_segments.simps) (simp add: lines_tokens_simps skip_newlines_def)
next
  case (Cons d ds)
  then obtain xs m ys' where ys: "ys = xs @ m # ys'" "map spanned_value xs = directive_tokens d"
    "spanned_value m = Newline" "map spanned_value ys' = lines_tokens ds"
    by (auto simp: lines_tokens_simps map_eq_append_conv map_eq_Cons_conv)
  obtain h zs where h: "xs = h # zs" "plain_token h"
    using ys(2) by (cases d) (auto simp: directive_tokens_lines plain_token_def map_eq_Cons_conv)
  have skip: "skip_newlines (ys @ e # post) = h # zs @ m # ys' @ e # post"
    using h by (simp add: ys(1) skip_newlines_def plain_token_def)
  have segment: "parse_segment tokens (h # zs @ m # ys' @ e # post) = Inr (xs, ys' @ e # post)"
    using parse_segment_directive [OF ys(2,3), of tokens "ys' @ e # post"] h(1) by simp
  obtain segs where "parse_segments tokens open_at allow (ys' @ e # post) = Inr (segs, post)"
    "list_all2 (\<lambda>d seg. map spanned_value seg = directive_tokens d) ds segs"
    using Cons.IH [OF ys(4)] by blast
  then show ?case
    using skip segment h(2) ys(2) by (subst parse_segments.simps) (simp add: plain_token_def)
qed

lemma parse_segments_newline:
  "spanned_value n = Newline \<Longrightarrow> parse_segments tokens open_at allow (n # rest) = parse_segments tokens open_at allow rest"
  by (subst (1 2) parse_segments.simps) (simp add: skip_newlines_def)

lemma parse_blocks_newline: "spanned_value n = Newline \<Longrightarrow> parse_blocks tokens (n # rest) = parse_blocks tokens rest"
  by (subst (1 2) parse_blocks.simps) (simp add: skip_newlines_def)

lemma read_keys_plain_prefix:
  "list_all plain_token ks \<Longrightarrow> spanned_value t = BlockOpen \<Longrightarrow> read_keys (ks @ t # rest) = Inr (ks, t # rest)"
  by (induction ks) (auto simp: plain_token_def)

lemma parse_block_site:
  assumes "map spanned_value xs = directive_tokens (Directive name args (Some ds) run)"
    "\<And>d. d \<in> set ds \<Longrightarrow> levels d \<le> max_block_depth + 1"
  shows "\<exists>block d. parse_block tokens (xs @ rest) = Inr (block, rest) \<and> block_to_directive block = Inr d \<and>
    same_directive (Directive name args (Some ds) run) d"
proof -
  obtain h as bl where xs: "xs = h # as @ bl" "spanned_value h = written name" "map spanned_value as = map written args"
    "map spanned_value bl = BlockOpen # Newline # lines_tokens ds @ [BlockClose]"
    using assms(1) by (rule directive_run) simp
  obtain t n ys e where bl: "bl = t # n # ys @ [e]" "spanned_value t = BlockOpen" "spanned_value n = Newline"
    "map spanned_value ys = lines_tokens ds" "spanned_value e = BlockClose"
    using xs(4) by (auto simp: map_eq_Cons_conv map_eq_append_conv)
  have plain: "list_all plain_token (h # as)"
    using written_plain [OF xs(3)] xs(2) by (auto simp: list_all_iff plain_token_def)
  have keys: "read_keys (xs @ rest) = Inr (h # as, t # n # ys @ e # rest)"
    using read_keys_plain_prefix [OF plain bl(2), of "n # ys @ e # rest"] by (simp add: xs(1) bl(1))
  obtain segs where segs: "parse_segments tokens (here tokens (t # n # ys @ e # rest)) (names_import (h # as)) (ys @ e # rest) = Inr (segs, rest)"
    "list_all2 (\<lambda>d seg. map spanned_value seg = directive_tokens d) ds segs"
    using parse_segments_lines [OF bl(4,5), of tokens "here tokens (t # n # ys @ e # rest)" "names_import (h # as)" rest] by blast
  define block where "block = \<lparr>keys = h # as, segments = segs, has_braces = True, is_snippet = names_snippet (h # as)\<rparr>"
  have "parse_block tokens (xs @ rest) = Inr (block, rest)"
    using keys segs(1) bl(2,3) parse_segments_newline [OF bl(3)]
    by (simp add: parse_block_def Let_def site_brace_def peek_def block_def)
  moreover have "\<exists>ds'. map_try (segment_to_directive (max_block_depth + 1)) segs = Inr ds' \<and> same_directives ds ds'"
    using segs(2) assms(2)
  proof (induction rule: list_all2_induct)
    case Nil
    then show ?case by (simp add: same_directives_def)
  next
    case (Cons d ds seg segs)
    then show ?case
      using segment_to_directive_reads [of d "max_block_depth + 1" seg] same_directives_Cons
      by (fastforce simp del: segment_to_directive.simps)
  qed
  moreover have "map (\<lambda>t. text_of (spanned_value t)) as = map text_of (map written args)"
    unfolding xs(3) [symmetric] by simp
  ultimately show ?thesis
    using xs(2) by (auto simp: block_to_directive_def block_def Let_def same_directives_def o_def
        simp del: segment_to_directive.simps)
qed

lemma parse_blocks_sites:
  assumes "\<And>d. d \<in> set sites \<Longrightarrow> d_block d \<noteq> None \<and> levels d \<le> max_block_depth + 2"
    "map spanned_value xs = lines_tokens sites"
  shows "\<exists>blocks ds. parse_blocks tokens xs = Inr blocks \<and> map_try block_to_directive blocks = Inr ds \<and> same_directives sites ds"
  using assms
proof (induction sites arbitrary: xs)
  case Nil
  then show ?case by (simp add: lines_tokens_simps parse_blocks.simps skip_newlines_def same_directives_def)
next
  case (Cons d sites)
  obtain name args ds run where d: "d = Directive name args (Some ds) run"
    using Cons.prems(1) [of d] by (cases d) auto
  obtain ys n zs where xs: "xs = ys @ n # zs" "map spanned_value ys = directive_tokens d" "spanned_value n = Newline"
    "map spanned_value zs = lines_tokens sites"
    using Cons.prems(2) by (auto simp: lines_tokens_simps map_eq_append_conv map_eq_Cons_conv)
  obtain h ys' where h: "ys = h # ys'" "plain_token h"
    using xs(2) by (cases d) (auto simp: directive_tokens_lines plain_token_def map_eq_Cons_conv)
  have "levels q \<le> max_block_depth + 1" if "q \<in> set ds" for q
    using Cons.prems(1) [of d] that levels_block [of name args ds run "max_block_depth + 1" q] by (simp add: d)
  then obtain block d' where block: "parse_block tokens (ys @ n # zs) = Inr (block, n # zs)" "block_to_directive block = Inr d'"
    "same_directive d d'"
    using parse_block_site [OF xs(2) [unfolded d]] unfolding d by blast
  obtain blocks ds' where rest: "parse_blocks tokens zs = Inr blocks" "map_try block_to_directive blocks = Inr ds'"
    "same_directives sites ds'"
    using Cons.IH [OF _ xs(4)] Cons.prems(1) by auto
  have "parse_blocks tokens xs = Inr (block # blocks)"
    using block(1) rest(1) h parse_blocks_newline [OF xs(3)]
    by (subst parse_blocks.simps) (simp add: xs(1) skip_newlines_def plain_token_def)
  then show ?case using block(2,3) rest(2,3) same_directives_Cons by auto
qed

lemma printable_written: "printable (written s)"
  by (simp add: written_def)

lemma printable_directive: "list_all printable (directive_tokens d)"
proof (induction d)
  case (Directive name args block run)
  have "list_all printable (lines_tokens ds)" if "\<And>d. d \<in> set ds \<Longrightarrow> list_all printable (directive_tokens d)" for ds
    using that by (induction ds) (simp_all add: lines_tokens_simps)
  then show ?case
    using Directive by (auto simp: directive_tokens_lines printable_written list_all_iff split: option.splits)
qed

definition print_tree :: "directive list \<Rightarrow> chars" where
  "print_tree ds = print_tokens (lines_tokens ds)"

lemma expand_env_vars_none: "split_env source = None \<Longrightarrow> expand_env_vars env source = source"
  by (subst expand_env_vars.simps) simp

text \<open>
  C14: A directive tree written as configuration text is read back as that tree. Whatever the names
  and arguments are, quoted where they are not plain words, and however the blocks nest up to the limit on
  their depth, lexing the text, splitting it into site blocks and segments and assembling the tree from
  them with the cursor gives the same names, arguments and blocks, as long as the text names no environment variable.
\<close>

theorem written_tree_reads_back:
  assumes "list_all (\<lambda>d. d_block d \<noteq> None \<and> levels d \<le> max_block_depth + 2) sites"
    and "split_env (print_tree sites) = None"
  shows "\<exists>tree. parse env (print_tree sites) = Inr tree \<and> same_directives sites tree"
proof -
  have "list_all printable (lines_tokens sites)"
    by (induction sites) (simp_all add: lines_tokens_simps printable_directive)
  then obtain tokens where tokens: "tokenize (print_tree sites) = Inr tokens" "map spanned_value tokens = lines_tokens sites"
    using tokenize_loop_print [of "lines_tokens sites" "line_index_new (print_tree sites)" "[]"]
    by (auto simp: tokenize_def print_tree_def)
  obtain blocks ds where "parse_blocks tokens tokens = Inr blocks" "map_try block_to_directive blocks = Inr ds"
    "same_directives sites ds"
    using parse_blocks_sites [OF _ tokens(2), of tokens] assms(1) by (auto simp: list_all_iff)
  then show ?thesis
    using tokens(1) by (simp add: parse_def expand_env_vars_none [OF assms(2)] parse_into_tree_def parse_server_blocks_def)
qed

theorem written_tree_reads_back_witness:
  "\<exists>tree. parse (\<lambda>_. None)
      (print_tree [Directive (ascii '':80'') [] (Some [Directive (ascii ''respond'') [ascii ''a b''] None token_run_synthetic]) token_run_synthetic]) =
      Inr tree \<and>
    same_directives
      [Directive (ascii '':80'') [] (Some [Directive (ascii ''respond'') [ascii ''a b''] None token_run_synthetic]) token_run_synthetic] tree"
  by (rule written_tree_reads_back)
    (simp_all add: max_block_depth_def print_tree_def print_tokens_def lines_tokens_simps directive_tokens_lines written_def
      plain_word_def ends_a_word_def ascii_def print_token_def escape_string_def)

text \<open>
  C22: What follows a brace inside a directive is dropped without an error. The tree of a run holds the
  directives up to the first closing brace of its block, or up to the first brace on a line of its own, and whatever
  tokens come after it, it is the tree of the run that ends there.
\<close>

theorem tokens_after_a_brace_are_dropped:
  assumes "map spanned_value xs = written name # map written args @ BlockOpen # Newline # lines_tokens ds"
    and "spanned_value brace = BlockClose \<or> spanned_value brace = BlockOpen"
    and "levels (Directive name args (Some ds) run) \<le> n"
  shows "\<exists>d. segment_to_directive n (xs @ brace # dropped) = Inr d \<and> same_directive (Directive name args (Some ds) run) d"
proof -
  obtain m where n: "n = Suc m" using assms(3) by (cases n) auto
  have "\<exists>d'. segment_to_directive m ys = Inr d' \<and> same_directive d d'" if "d \<in> set ds" "map spanned_value ys = directive_tokens d" for d ys
    using segment_to_directive_reads [OF _ that(2)] levels_block assms(3) that(1) unfolding n by blast
  then show ?thesis unfolding n using segment_with_block [OF _ assms(1,2)] by blast
qed

definition spelled :: "token list \<Rightarrow> spanned list" where
  "spelled ts = map (\<lambda>t. \<lparr>spanned_value = t, spanned_span = synthetic\<rparr>) ts"

text \<open>The second \<open>respond\<close> of \<open>route { respond 1 } respond 2\<close>, the block over three lines, is not in the tree.\<close>

theorem tokens_after_a_brace_are_dropped_witness:
  "\<exists>d. segment_to_directive 2
      (spelled [Word (ascii ''route''), BlockOpen, Newline, Word (ascii ''respond''), Word (ascii ''1''), Newline] @
       \<lparr>spanned_value = BlockClose, spanned_span = synthetic\<rparr> # spelled [Word (ascii ''respond''), Word (ascii ''2'')]) = Inr d \<and>
    same_directive (Directive (ascii ''route'') [] (Some [Directive (ascii ''respond'') [ascii ''1''] None token_run_synthetic]) token_run_synthetic) d"
  by (rule tokens_after_a_brace_are_dropped)
    (simp_all add: spelled_def lines_tokens_simps directive_tokens_lines written_def plain_word_def ends_a_word_def ascii_def)

lemma skip_arguments_remaining:
  "remaining_args c = (as, c') \<Longrightarrow> k \<le> length as \<Longrightarrow>
    \<exists>d. skip_arguments k c = Some d \<and> remaining_args d = (drop k as, c')"
proof (induction k arbitrary: c as)
  case (Suc k)
  then obtain t bs where as: "as = t # bs" "k \<le> length bs" by (cases as) auto
  then obtain d where "next_arg c = (Some t, d)" "remaining_args d = (bs, c')"
    using Suc.prems(1) by (subst (asm) remaining_args.simps) (auto split: prod.splits option.splits)
  then show ?case using Suc.IH [of d bs] as by simp
qed simp

lemma drop_first_args:
  "k \<le> length args \<Longrightarrow>
    ((\<lambda>d. snd (drop_first_arg d)) ^^ k) (Directive name args block run) =
      Directive name (drop k args) block (run\<lparr>skipped_args := skipped_args run + k\<rparr>)"
proof (induction k)
  case (Suc k)
  then obtain a as where "drop k args = a # as" by (cases "drop k args") auto
  then show ?case using Suc by (simp add: drop_Suc tl_drop [symmetric])
qed simp

lemma advance_content: "content tokens \<noteq> [] \<Longrightarrow> \<exists>t d. advance (dispenser_new tokens) = (Some t, d)"
proof -
  assume "content tokens \<noteq> []"
  then have "\<not> list_all (\<lambda>t. spanned_value t = Newline) tokens" by (induction tokens) auto
  then have "length (takeWhile (\<lambda>t. spanned_value t = Newline) tokens) < length tokens"
    by (induction tokens) auto
  then show ?thesis
    by (simp add: advance_def Let_def dispenser_new_def skip_lines_def next_index_def token_get_def)
qed

text \<open>
  C20: A directive reads the same from its arguments and from its tokens, also after an outer layer has taken
  any number of arguments off the front: the cursor its run gives yields exactly the arguments that are left.
\<close>

theorem both_readings_agree:
  assumes "segment_to_directive n segment = Inr d" and "content segment \<noteq> []" and "k \<le> length (d_args d)"
  defines "rest \<equiv> ((\<lambda>d. snd (drop_first_arg d)) ^^ k) d"
  shows "d_args rest = drop k (d_args d) \<and>
    (\<exists>cursor. args_cursor (d_run rest) = Some cursor \<and> fst (remaining_arg_texts cursor) = d_args rest)"
proof -
  obtain m where n: "n = Suc m" using assms(1) by (cases n) simp_all
  obtain t c where t: "advance (dispenser_new segment) = (Some t, c)" using advance_content [OF assms(2)] by blast
  obtain as c' where as: "remaining_args c = (as, c')" by fastforce
  obtain name block where d: "d = Directive name (map (\<lambda>t. token_text (spanned_value t)) as) block (run_of segment)"
    using assms(1) t as by (auto simp: n remaining_arg_texts_def try_bind_Inr_iff)
  obtain e where e: "skip_arguments k c = Some e" "remaining_args e = (drop k as, c')"
    using skip_arguments_remaining [OF as] assms(3) by (auto simp: d)
  have "run_tokens ((run_of segment)\<lparr>skipped_args := k\<rparr>) = segment"
    by (simp add: run_tokens_def run_of_def token_run_new_def)
  moreover have "segment \<noteq> []" using assms(2) by auto
  ultimately have "args_cursor ((run_of segment)\<lparr>skipped_args := k\<rparr>) = Some e"
    using t e(1) by (simp add: args_cursor_def run_is_empty_def)
  then show ?thesis
    using e(2) assms(3) drop_first_args [of k "d_args d" name block "run_of segment"]
    by (auto simp: rest_def d remaining_arg_texts_def drop_map run_of_def token_run_new_def)
qed

theorem both_readings_agree_witness:
  "\<exists>d. segment_to_directive 1 (spelled [Word (ascii ''respond''), Word (ascii ''/up''), QuotedString (ascii ''ok'')]) = Inr d \<and>
    (\<exists>cursor. args_cursor (d_run (snd (drop_first_arg d))) = Some cursor \<and>
       fst (remaining_arg_texts cursor) = [ascii ''ok''])"
proof -
  let ?s = "spelled [Word (ascii ''respond''), Word (ascii ''/up''), QuotedString (ascii ''ok'')]"
  let ?d = "Directive (ascii ''respond'') [ascii ''/up'', ascii ''ok''] None (run_of ?s)"
  have "segment_to_directive 1 ?s = Inr ?d" by code_simp
  then show ?thesis using both_readings_agree [of 1 ?s ?d 1] by (simp add: spelled_def content_def)
qed

end
