(* ===== verification/Format.thy ===== *)
theory Format
  imports Segment_Tree "HOL-Library.Multiset"
begin

text \<open>
  The formatter behind \<open>pingclair fmt\<close> (\<open>pingclair-config/src/caddyfile/format.rs\<close>). Positions count
  characters; the code slices the source at the byte offsets of the same characters.
\<close>

definition max_indent :: nat where
  "max_indent = 10"

datatype kind = KOpen | KClose | KComment | KWord

record fmt_token =
  raw :: chars
  fmt_kind :: kind
  fmt_line :: nat
  fmt_span :: nat

definition breaks_before :: "fmt_token \<Rightarrow> fmt_token \<Rightarrow> bool" where
  "breaks_before a b \<longleftrightarrow> fmt_line a + fmt_span a < fmt_line b"

definition blank_line_before :: "fmt_token \<Rightarrow> fmt_token \<Rightarrow> bool" where
  "blank_line_before a b \<longleftrightarrow> fmt_line a + fmt_span a + 2 \<le> fmt_line b"

definition chars_trim_end :: "chars \<Rightarrow> chars" where
  "chars_trim_end s = rev (dropWhile is_whitespace (rev s))"

definition chars_trim :: "chars \<Rightarrow> chars" where
  "chars_trim s = dropWhile is_whitespace (chars_trim_end s)"

section \<open>Lexing\<close>

function quote_end :: "chars \<Rightarrow> nat \<Rightarrow> nat" where
  "quote_end cs i =
     (if length cs \<le> i \<or> cs ! i = double_quote then i
      else if cs ! i = backslash then quote_end cs (i + 2)
      else quote_end cs (i + 1))"
  by pat_completeness auto
termination
  by (relation "measure (\<lambda>(cs, i). length cs - i)") auto

declare quote_end.simps [simp del]

lemma quote_end_le: "i \<le> quote_end cs i"
proof (induction cs i rule: quote_end.induct)
  case (1 cs i)
  then show ?case by (subst quote_end.simps) force
qed

function word_scan :: "chars \<Rightarrow> nat \<Rightarrow> nat" where
  "word_scan cs i =
     (if length cs \<le> i \<or> is_whitespace (cs ! i) then i
      else if cs ! i = double_quote then word_scan cs (quote_end cs (i + 1) + 1)
      else if cs ! i = backtick then word_scan cs (scan_while (\<lambda>c. c \<noteq> backtick) cs (i + 1) + 1)
      else word_scan cs (i + 1))"
  by pat_completeness auto
termination
proof (relation "measure (\<lambda>(cs, i). length cs - i)", goal_cases)
  case (2 cs i)
  then show ?case using quote_end_le [of "i + 1" cs] by auto
next
  case (3 cs i)
  then show ?case using scan_while_bounds(1) [of "i + 1" "\<lambda>c. c \<noteq> backtick" cs] by auto
qed auto

declare word_scan.simps [simp del]

definition word_end :: "chars \<Rightarrow> nat \<Rightarrow> nat" where
  "word_end cs i = min (word_scan cs i) (length cs)"

function marker_scan :: "chars \<Rightarrow> chars \<Rightarrow> nat \<Rightarrow> nat option" where
  "marker_scan marker cs scan =
     (if length cs \<le> scan then None
      else if is_whitespace (cs ! scan) then marker_scan marker cs (scan + 1)
      else
        (let word_end = scan_while (\<lambda>c. \<not> is_whitespace c) cs scan
         in if str_ends_with (slice cs scan word_end) marker then Some word_end
            else marker_scan marker cs word_end))"
  by pat_completeness auto
termination
proof (relation "measure (\<lambda>(marker, cs, scan). length cs - scan)", goal_cases)
  case (3 marker cs scan word_end)
  then show ?case using scan_while_start [of scan cs "\<lambda>c. \<not> is_whitespace c"] by simp
qed simp_all

declare marker_scan.simps [simp del]

definition fmt_heredoc_end :: "chars \<Rightarrow> nat \<Rightarrow> nat option" where
  "fmt_heredoc_end cs start =
     (let marker_start = start + 2;
          marker_end = scan_while (\<lambda>c. \<not> is_whitespace c) cs marker_start;
          marker = slice cs marker_start marker_end
      in if marker = [] then None
         else marker_scan marker cs (scan_while (\<lambda>c. c \<noteq> newline) cs marker_end))"

definition kind_of :: "chars \<Rightarrow> kind" where
  "kind_of txt = (if txt = [open_brace] then KOpen else if txt = [close_brace] then KClose else KWord)"

function push_word :: "chars \<Rightarrow> nat \<Rightarrow> nat \<Rightarrow> fmt_token list" where
  "push_word txt line sp =
     (let opens = count_list txt open_brace; closes = count_list txt close_brace
      in if 1 < length txt \<and> sp = 0 \<and> last txt = open_brace \<and> closes < opens then
           [\<lparr>raw = butlast txt, fmt_kind = kind_of (butlast txt), fmt_line = line, fmt_span = sp\<rparr>,
            \<lparr>raw = [open_brace], fmt_kind = KOpen, fmt_line = line, fmt_span = 0\<rparr>]
         else if 1 < length txt \<and> sp = 0 \<and> last txt = close_brace \<and> opens < closes then
           push_word (butlast txt) line sp @
           [\<lparr>raw = [close_brace], fmt_kind = KClose, fmt_line = line, fmt_span = 0\<rparr>]
         else [\<lparr>raw = txt, fmt_kind = kind_of txt, fmt_line = line, fmt_span = sp\<rparr>])"
  by pat_completeness auto
termination
  by (relation "measure (\<lambda>(txt, line, sp). length txt)") auto

declare push_word.simps [simp del]

text \<open>One round of the loop: the tokens it pushes, the next line and position. \<open>None\<close> gives up.\<close>

definition fmt_lex_step :: "chars \<Rightarrow> nat \<Rightarrow> nat \<Rightarrow> (fmt_token list \<times> nat \<times> nat) option" where
  "fmt_lex_step cs line i =
     (let c = cs ! i
      in if c = newline then Some ([], line + 1, i + 1)
         else if is_whitespace c then Some ([], line, i + 1)
         else if c = hash then
           (let e = scan_while (\<lambda>c. c \<noteq> newline) cs i
            in Some ([\<lparr>raw = chars_trim_end (slice cs i e), fmt_kind = KComment, fmt_line = line, fmt_span = 0\<rparr>], line, e))
         else if c = angle \<and> char_at cs (i + 1) angle then
           (case fmt_heredoc_end cs i of
              None \<Rightarrow> None
            | Some e \<Rightarrow>
                (let txt = slice cs i e; sp = count_list txt newline
                 in Some ([\<lparr>raw = txt, fmt_kind = KWord, fmt_line = line, fmt_span = sp\<rparr>], line + sp, e)))
         else
           (let e = word_end cs i; txt = slice cs i e; sp = count_list txt newline
            in Some (push_word txt line sp, line + sp, e)))"

lemma word_scan_le: "i \<le> word_scan cs i"
proof (induction cs i rule: word_scan.induct)
  case (1 cs i)
  then show ?case
    using quote_end_le [of "i + 1" cs] scan_while_bounds(1) [of "i + 1" "\<lambda>c. c \<noteq> backtick" cs]
    by (subst word_scan.simps) force
qed

lemma word_end_progress: "i < length cs \<Longrightarrow> \<not> is_whitespace (cs ! i) \<Longrightarrow> i < word_end cs i"
proof -
  assume i: "i < length cs" "\<not> is_whitespace (cs ! i)"
  have "i < word_scan cs i"
    using i quote_end_le [of "i + 1" cs] scan_while_bounds(1) [of "i + 1" "\<lambda>c. c \<noteq> backtick" cs]
      word_scan_le [of "quote_end cs (i + 1) + 1" cs] word_scan_le [of "i + 1" cs]
      word_scan_le [of "scan_while (\<lambda>c. c \<noteq> backtick) cs (i + 1) + 1" cs]
    by (subst word_scan.simps) auto
  then show ?thesis using i(1) by (simp add: word_end_def)
qed

lemma marker_scan_le: "marker_scan marker cs scan = Some e \<Longrightarrow> scan \<le> e"
proof (induction marker cs scan rule: marker_scan.induct)
  case (1 marker cs scan)
  then show ?case
    using scan_while_bounds(1) [of scan "\<lambda>c. \<not> is_whitespace c" cs]
    by (subst (asm) (3) marker_scan.simps) (fastforce simp: Let_def split: if_splits)
qed

lemma fmt_heredoc_end_progress: "fmt_heredoc_end cs start = Some e \<Longrightarrow> start < e"
  using scan_while_bounds(1) [of "start + 2" "\<lambda>c. \<not> is_whitespace c" cs]
    scan_while_bounds(1) [of "scan_while (\<lambda>c. \<not> is_whitespace c) cs (start + 2)" "\<lambda>c. c \<noteq> newline" cs]
  by (auto simp: fmt_heredoc_end_def Let_def dest!: marker_scan_le split: if_splits)

lemma fmt_lex_step_progress:
  assumes "i < length cs" and "fmt_lex_step cs line i = Some (pushed, line', i')"
  shows "i < i'"
  using assms word_end_progress [OF assms(1)] scan_while_start [OF assms(1), of "\<lambda>c. c \<noteq> newline"]
  by (auto simp: fmt_lex_step_def Let_def dest: fmt_heredoc_end_progress split: if_splits option.splits)

function fmt_lex_loop :: "chars \<Rightarrow> nat \<Rightarrow> nat \<Rightarrow> fmt_token list option" where
  "fmt_lex_loop cs line i =
     (if length cs \<le> i then Some []
      else
        (case fmt_lex_step cs line i of
           None \<Rightarrow> None
         | Some (pushed, line', i') \<Rightarrow> map_option (\<lambda>tokens. pushed @ tokens) (fmt_lex_loop cs line' i')))"
  by pat_completeness auto
termination
proof (relation "measure (\<lambda>(cs, line, i). length cs - i)", goal_cases)
  case (2 cs line i a pushed b line' i')
  then have "i < i'" by (intro fmt_lex_step_progress [of i cs line pushed line' i']) auto
  then show ?case using 2 by auto
qed simp

declare fmt_lex_loop.simps [simp del]

definition fmt_lex :: "chars \<Rightarrow> fmt_token list option" where
  "fmt_lex source = fmt_lex_loop source 1 0"

section \<open>Rendering\<close>

record render_state =
  r_out :: chars
  r_nesting :: nat
  r_line_start :: bool
  r_closed_top :: bool
  r_import :: bool
  r_folded :: "nat option"

definition render_init :: render_state where
  "render_init = \<lparr>r_out = [], r_nesting = 0, r_line_start = True, r_closed_top = False, r_import = False, r_folded = None\<rparr>"

text \<open>The line breaks in front of a token: none, one, or two for a blank line. The arguments are what the
  round of the loop has computed before the corresponding statement.\<close>

definition breaks_at ::
    "fmt_token option \<Rightarrow> fmt_token \<Rightarrow> nat \<Rightarrow> render_state \<Rightarrow> bool \<Rightarrow> bool \<Rightarrow> bool \<Rightarrow> bool \<Rightarrow> nat" where
  "breaks_at previous token i st line_starts_with_import starts_line closes trailing_comment =
     (let gap = (case previous of
                   None \<Rightarrow> 0
                 | Some p \<Rightarrow> if blank_line_before p token then 2 else if breaks_before p token then 1 else 0);
          placed =
            (if fmt_kind token = KOpen then
               (if (case previous of None \<Rightarrow> False | Some p \<Rightarrow> fmt_kind p = KComment) then 1
                else if line_starts_with_import \<and> r_nesting st = 0 \<and> starts_line \<and> 0 < i then max gap 1
                else 0)
             else if closes then (if r_line_start st then gap else max gap 1)
             else if trailing_comment then 0
             else gap);
          after_close = (case previous of
                           None \<Rightarrow> placed
                         | Some p \<Rightarrow>
                             if fmt_kind p = KClose \<and> placed = 0 \<and> \<not> closes \<and> \<not> trailing_comment then 1 else placed);
          after_open = (case previous of
                          None \<Rightarrow> after_close
                        | Some p \<Rightarrow> if fmt_kind p = KOpen \<and> after_close = 0 \<and> \<not> trailing_comment then 1 else after_close)
      in if r_closed_top st \<and> after_open < 2 \<and> \<not> trailing_comment then 2 else after_open)"

definition render_token :: "fmt_token list \<Rightarrow> nat \<Rightarrow> render_state \<Rightarrow> render_state" where
  "render_token tokens i st =
     (if r_folded st = Some i then st
      else
        (let token = tokens ! i;
             previous = (if i = 0 then None else Some (tokens ! (i - 1)));
             starts_line = (case previous of None \<Rightarrow> True | Some p \<Rightarrow> breaks_before p token);
             line_starts_with_import =
               (if fmt_kind token \<noteq> KOpen \<and> fmt_kind token \<noteq> KClose \<and> starts_line
                then r_nesting st = 0 \<and> fmt_kind token \<noteq> KComment \<and> raw token = ascii ''import''
                else r_import st);
             closes = (fmt_kind token = KClose \<and> 0 < r_nesting st);
             trailing_comment = (fmt_kind token = KComment \<and> \<not> starts_line);
             breaks = breaks_at previous token i st line_starts_with_import starts_line closes trailing_comment;
             nesting = (if closes then r_nesting st - 1 else r_nesting st);
             folds = (trailing_comment \<and> breaks = 0 \<and>
                      (case previous of None \<Rightarrow> False | Some p \<Rightarrow> fmt_kind p \<noteq> KOpen) \<and>
                      i + 1 < length tokens \<and> fmt_kind (tokens ! (i + 1)) = KOpen);
             out = (if folds then r_out st @ [space] @ raw (tokens ! (i + 1)) else r_out st);
             nesting = (if folds then nesting + 1 else nesting);
             folded = (if folds then Some (i + 1) else r_folded st);
             out = out @ replicate breaks newline;
             line_start = (r_line_start st \<or> 0 < breaks);
             out = out @ (if line_start then replicate (min nesting max_indent) tab else [space]);
             out = out @ raw token
         in \<lparr>r_out = out,
             r_nesting = (if fmt_kind token = KOpen then nesting + 1 else nesting),
             r_line_start = False,
             r_closed_top = (closes \<and> nesting = 0),
             r_import = line_starts_with_import,
             r_folded = folded\<rparr>))"

definition render :: "fmt_token list \<Rightarrow> chars" where
  "render tokens = chars_trim (r_out (fold (render_token tokens) [0..<length tokens] render_init)) @ [newline]"

section \<open>The meaning check\<close>

definition same_tree :: "(chars \<Rightarrow> chars option) \<Rightarrow> chars \<Rightarrow> chars \<Rightarrow> bool" where
  "same_tree env before after =
     (case (parse env before, parse env after) of
        (Inr a, Inr b) \<Rightarrow> same_directives a b
      | _ \<Rightarrow> False)"

definition format :: "(chars \<Rightarrow> chars option) \<Rightarrow> chars \<Rightarrow> chars" where
  "format env source =
     (let fallback = chars_trim source @ [newline]
      in case fmt_lex source of
           None \<Rightarrow> fallback
         | Some tokens \<Rightarrow>
             (let formatted = render tokens
              in case fmt_lex formatted of
                   None \<Rightarrow> fallback
                 | Some again \<Rightarrow>
                     (let unchanged_tokens = (length tokens = length again \<and>
                            list_all (\<lambda>(before, after). raw before = raw after) (zip tokens again))
                      in if \<not> unchanged_tokens \<or> render again \<noteq> formatted \<or> \<not> same_tree env source formatted
                         then fallback else formatted)))"

section \<open>What formatting may change\<close>

lemma same_directive_refl: "same_directive d d"
proof (induction d)
  case (Directive name args block run)
  then show ?case by (auto simp: list_all_iff zip_same split: option.splits)
qed

lemma same_directives_refl: "same_directives ds ds"
  by (auto simp: same_directives_def list_all_iff zip_same same_directive_refl)


section \<open>Rendering moves only white space\<close>

definition ink :: "chars \<Rightarrow> chars" where
  "ink s = filter (\<lambda>c. \<not> is_whitespace c) s"

lemma ink_append [simp]: "ink (a @ b) = ink a @ ink b"
  by (simp add: ink_def)

lemma ink_blank [simp]: "ink (replicate n newline) = []" "ink (replicate n tab) = []" "ink [] = []" "ink (space # s) = ink s"
  by (simp_all add: ink_def is_whitespace_def)

lemma ink_trim: "ink (chars_trim s) = ink s"
proof -
  have drop: "filter (\<lambda>c. \<not> is_whitespace c) (dropWhile is_whitespace xs) = filter (\<lambda>c. \<not> is_whitespace c) xs" for xs
    by (induction xs) simp_all
  then show ?thesis by (simp add: ink_def chars_trim_def chars_trim_end_def rev_filter [symmetric])
qed

text \<open>The characters of the first tokens, and of a brace that was put in front of its turn.\<close>

definition inked :: "fmt_token list \<Rightarrow> nat \<Rightarrow> render_state \<Rightarrow> bool" where
  "inked tokens i st \<longleftrightarrow>
     mset (ink (r_out st)) =
       mset (concat (map (\<lambda>t. ink (raw t)) (take i tokens))) +
       (if r_folded st = Some i \<and> i < length tokens then mset (ink (raw (tokens ! i))) else {#}) \<and>
     (case r_folded st of None \<Rightarrow> True | Some k \<Rightarrow> k \<le> i)"

lemma render_token_inked:
  assumes "inked tokens i st" "i < length tokens"
  shows "inked tokens (i + 1) (render_token tokens i st)"
proof (cases "r_folded st = Some i")
  case True
  then show ?thesis
    using assms by (simp add: inked_def render_token_def take_Suc_conv_app_nth)
next
  case False
  have "\<exists>folds lines blanks. r_out (render_token tokens i st) =
      (if folds then r_out st @ [space] @ raw (tokens ! (i + 1)) else r_out st) @ lines @ blanks @ raw (tokens ! i) \<and>
    ink lines = [] \<and> ink blanks = [] \<and> r_folded (render_token tokens i st) = (if folds then Some (i + 1) else r_folded st) \<and>
    (folds \<longrightarrow> i + 1 < length tokens)"
    unfolding render_token_def Let_def using False
    by (simp only: if_False render_state.simps append_assoc) (intro exI conjI, rule refl, simp, simp, rule refl, simp)
  then obtain folds lines blanks where st: "r_out (render_token tokens i st) =
      (if folds then r_out st @ [space] @ raw (tokens ! (i + 1)) else r_out st) @ lines @ blanks @ raw (tokens ! i)"
    "ink lines = []" "ink blanks = []"
    "r_folded (render_token tokens i st) = (if folds then Some (i + 1) else r_folded st)"
    "folds \<Longrightarrow> i + 1 < length tokens"
    by blast
  show ?thesis
    using assms False st
    by (cases folds) (auto simp: inked_def take_Suc_conv_app_nth split: option.splits)
qed

text \<open>
  C21: Rendering adds and removes white space only: the other characters of its result are those of the tokens,
  each as often as it was there.
\<close>

theorem render_moves_only_white_space:
  "mset (ink (render tokens)) = mset (concat (map (\<lambda>t. ink (raw t)) tokens))"
proof -
  have "i \<le> length tokens \<Longrightarrow> inked tokens i (fold (render_token tokens) [0..<i] render_init)" for i
  proof (induction i)
    case 0
    then show ?case by (simp add: inked_def render_init_def ink_def)
  next
    case (Suc i)
    then show ?case using render_token_inked [of tokens i] by simp
  qed
  from this [of "length tokens"] show ?thesis
    by (simp add: inked_def render_def ink_trim) (simp add: ink_def is_whitespace_def)
qed

text \<open>Where \<open>render\<close> puts a comment behind a brace, the order of the tokens changes and \<open>format\<close> gives the
  source back.\<close>

definition brace_after_comment :: chars where
  "brace_after_comment = ascii ''a #b'' @ [newline] @ ascii ''{'' @ [newline] @ ascii ''}''"

definition brace_before_comment :: chars where
  "brace_before_comment = ascii ''a { #b'' @ [newline] @ ascii ''}'' @ [newline]"

lemmas evaluate_lex = fmt_lex_def fmt_lex_loop.simps fmt_lex_step_def Let_def is_whitespace_def ascii_def scan_while_def
  slice_def word_end_def word_scan.simps push_word.simps kind_of_def chars_trim_end_def char_at_def

lemmas evaluate_render = render_token_def render_init_def breaks_at_def breaks_before_def blank_line_before_def Let_def
  ascii_def chars_trim_def chars_trim_end_def is_whitespace_def

lemma folded_brace_falls_back:
  "render (the (fmt_lex brace_after_comment)) = brace_before_comment"
  "format env brace_after_comment = brace_after_comment @ [newline]"
proof -
  let ?word = "\<lambda>s k l. \<lparr>raw = ascii s, fmt_kind = k, fmt_line = l, fmt_span = 0\<rparr>"
  let ?tokens = "[?word ''a'' KWord 1, ?word ''#b'' KComment 1, ?word ''{'' KOpen 2, ?word ''}'' KClose 3]"
  let ?again = "[?word ''a'' KWord 1, ?word ''{'' KOpen 1, ?word ''#b'' KComment 1, ?word ''}'' KClose 2]"
  have lex: "fmt_lex brace_after_comment = Some ?tokens" by (simp add: evaluate_lex brace_after_comment_def)
  have render: "render ?tokens = brace_before_comment"
    by (simp add: render_def upt_rec evaluate_render brace_before_comment_def)
  have again: "fmt_lex brace_before_comment = Some ?again" by (simp add: evaluate_lex brace_before_comment_def)
  have trim: "chars_trim brace_after_comment = brace_after_comment"
    by (simp add: chars_trim_def chars_trim_end_def brace_after_comment_def ascii_def is_whitespace_def)
  show "render (the (fmt_lex brace_after_comment)) = brace_before_comment" unfolding lex option.sel by (rule render)
  show "format env brace_after_comment = brace_after_comment @ [newline]"
    unfolding format_def lex Let_def option.case render again trim by (simp add: ascii_def)
qed

end
