(* ===== verification/Imports.thy ===== *)
theory Imports
  imports Segment_Tree "HOL-Library.List_Lexorder"
begin

text \<open>
  The expansion of \<open>import\<close> (\<open>pingclair-config/src/caddyfile/adapter/imports.rs\<close>, with \<open>collect_snippets\<close> of
  \<open>adapter/mod.rs\<close>): snippets, files, single-wildcard patterns, arguments, block placeholders, and the two guards
  against looping. The filesystem and the environment are a parameter. A path is what \<open>Path::components\<close> of a Unix
  path sees; its text is Unicode. The message of an error is its kind and what it names. The depth is an argument as in
  the code; only the descent into an imported body costs fuel, and
  \<open>expand_ends\<close> bounds the fuel that is ever needed.
\<close>

section \<open>Paths and the filesystem\<close>

record path =
  rooted :: bool
  parts :: "chars list"

definition slash :: nat where "slash = of_char CHR ''/''"
definition dot :: chars where "dot = ascii ''.''"
definition dot_dot :: chars where "dot_dot = ascii ''..''"

definition path_of :: "chars \<Rightarrow> path" where
  "path_of s =
     (let absolute = str_starts_with s [slash];
          pieces = split_on slash s;
          named = filter (\<lambda>p. p \<noteq> [] \<and> p \<noteq> dot) pieces
      in \<lparr>rooted = absolute, parts = (if \<not> absolute \<and> hd pieces = dot then dot # named else named)\<rparr>)"

definition path_join :: "path \<Rightarrow> path \<Rightarrow> path" where
  "path_join base p =
     (if rooted p \<or> (\<not> rooted base \<and> parts base = []) then p
      else base\<lparr>parts := parts base @ filter (\<lambda>c. c \<noteq> dot) (parts p)\<rparr>)"

definition path_parent :: "path \<Rightarrow> path option" where
  "path_parent p = (if parts p = [] then None else Some (p\<lparr>parts := butlast (parts p)\<rparr>))"

definition path_file_name :: "path \<Rightarrow> chars option" where
  "path_file_name p =
     (if parts p = [] \<or> last (parts p) = dot \<or> last (parts p) = dot_dot then None else Some (last (parts p)))"

text \<open>The entries of a directory come with their names where these are text, and whether they are files. The canonical
  name is the displayed path that \<open>canonicalize\<close> gives, or the path itself where that fails.\<close>

record import_fs =
  is_file :: "path \<Rightarrow> bool"
  read_dir :: "path \<Rightarrow> (chars option \<times> bool) list option"
  canonical :: "path \<Rightarrow> chars"
  read_to_string :: "path \<Rightarrow> chars option"
  env_var :: "chars \<Rightarrow> chars option"

section \<open>Errors\<close>

datatype refusal =
    GlobComplexity chars
  | RelativeWithoutFile chars
  | FileNotFound path
  | WildcardInDirectory path
  | AnonymousBlock
  | PlaceholderInArguments chars
  | NestsTooDeep
  | CannotRead path
  | CannotParse path parse_error
  | BareMixedWithBraced
  | DirectiveAsSite chars

datatype adapter_error =
    ArgumentCount chars nat nat
  | InvalidArgument chars refusal
  | BlockNotAllowed chars
  | RecursiveSnippet "chars list"
  | UndefinedNamedRoute chars
  | RecursiveNamedRoute chars

datatype 'a outcome = OutOfFuel | Failed adapter_error | Done 'a

fun and_then :: "'a outcome \<Rightarrow> ('a \<Rightarrow> 'b outcome) \<Rightarrow> 'b outcome" where
  "and_then OutOfFuel f = OutOfFuel"
| "and_then (Failed e) f = Failed e"
| "and_then (Done x) f = f x"

lemma and_then_cong [fundef_cong]:
  "r = r' \<Longrightarrow> (\<And>x. r' = Done x \<Longrightarrow> f x = g x) \<Longrightarrow> and_then r f = and_then r' g"
  by (cases r') simp_all

lemma and_then_Done: "and_then r f = Done y \<longleftrightarrow> (\<exists>x. r = Done x \<and> f x = Done y)"
  by (cases r) simp_all

lemma and_then_OutOfFuel: "and_then r f = OutOfFuel \<longleftrightarrow> r = OutOfFuel \<or> (\<exists>x. r = Done x \<and> f x = OutOfFuel)"
  by (cases r) simp_all

lemma and_then_Failed: "and_then r f = Failed e \<longleftrightarrow> r = Failed e \<or> (\<exists>x. r = Done x \<and> f x = Failed e)"
  by (cases r) simp_all

definition import_name :: chars where
  "import_name = ascii ''import''"

abbreviation import_error :: "refusal \<Rightarrow> 'a outcome" where
  "import_error r \<equiv> Failed (InvalidArgument import_name r)"

section \<open>Patterns\<close>

definition star :: nat where "star = of_char CHR ''*''"
definition question :: nat where "question = of_char CHR ''?''"
definition open_bracket :: nat where "open_bracket = of_char CHR ''[''"
definition close_bracket :: nat where "close_bracket = of_char CHR '']''"

definition check_glob_complexity :: "chars \<Rightarrow> unit outcome" where
  "check_glob_complexity pattern =
     (let wildcards = count_list pattern star + count_list pattern question
      in if 1 < wildcards \<or> (open_bracket \<in> set pattern \<and> close_bracket \<in> set pattern)
         then import_error (GlobComplexity pattern) else Done ())"

definition is_glob :: "chars \<Rightarrow> bool" where
  "is_glob pattern \<longleftrightarrow> star \<in> set pattern \<or> question \<in> set pattern \<or> open_bracket \<in> set pattern"

definition char_width :: "nat \<Rightarrow> nat" where
  "char_width c = (if c < 128 then 1 else if c < 2048 then 2 else if c < 65536 then 3 else 4)"

definition byte_length :: "chars \<Rightarrow> nat" where
  "byte_length s = sum_list (map char_width s)"

definition split_wildcard :: "chars \<Rightarrow> chars \<times> chars" where
  "split_wildcard name =
     (let before = takeWhile (\<lambda>c. c \<noteq> star \<and> c \<noteq> question) name
      in if before = name then (name, []) else (before, drop (length before + 1) name))"

definition glob_entry :: "chars \<Rightarrow> chars \<Rightarrow> bool" where
  "glob_entry name entry =
     (case split_wildcard name of
        (before, after) \<Rightarrow>
          str_starts_with entry before \<and> str_ends_with entry after \<and>
          \<not> byte_length entry < byte_length before + byte_length after \<and>
          \<not> (question \<in> set name \<and> byte_length entry \<noteq> byte_length before + byte_length after + 1))"

definition glob_files :: "import_fs \<Rightarrow> path \<Rightarrow> path list outcome" where
  "glob_files fs pattern =
     (case (path_parent pattern, path_file_name pattern) of
        (Some dir, Some name) \<Rightarrow>
          if list_ex is_glob (parts dir) then import_error (WildcardInDirectory pattern)
          else
            (case read_dir fs dir of
               None \<Rightarrow> Done []
             | Some entries \<Rightarrow>
                 Done (concat (map (\<lambda>(text, file).
                   (case text of
                      None \<Rightarrow> []
                    | Some text \<Rightarrow>
                        if glob_entry name text \<and> file then [path_join dir \<lparr>rooted = False, parts = [text]\<rparr>] else []))
                   entries)))
      | _ \<Rightarrow> Done [])"

definition starts_with_char :: "nat \<Rightarrow> chars option \<Rightarrow> bool" where
  "starts_with_char c name = (case name of None \<Rightarrow> False | Some n \<Rightarrow> str_starts_with n [c])"

definition resolve_files :: "import_fs \<Rightarrow> chars \<Rightarrow> path option \<Rightarrow> path list outcome" where
  "resolve_files fs pattern base =
     and_then (check_glob_complexity pattern) (\<lambda>_.
     and_then
       (let candidate = path_of pattern
        in if rooted candidate then Done candidate
           else (case base of
                   Some dir \<Rightarrow> Done (path_join dir candidate)
                 | None \<Rightarrow> import_error (RelativeWithoutFile pattern))) (\<lambda>resolved.
     if \<not> is_glob pattern then
       (if \<not> is_file fs resolved then import_error (FileNotFound resolved) else Done [resolved])
     else
       and_then (glob_files fs resolved) (\<lambda>found.
         let kept = (if starts_with_char star (path_file_name resolved)
                     then filter (\<lambda>p. \<not> starts_with_char (of_char CHR ''.'') (path_file_name p)) found else found)
         in Done (sort_key parts kept))))"

section \<open>Arguments\<close>

text \<open>\<open>str::replace\<close>, for a pattern that is not empty.\<close>

function replace_all :: "chars \<Rightarrow> chars \<Rightarrow> chars \<Rightarrow> chars" where
  "replace_all from to s =
     (if from = [] then s
      else
        (case s of
           [] \<Rightarrow> []
         | c # cs \<Rightarrow>
             (case strip_prefix from s of
                Some rest \<Rightarrow> to @ replace_all from to rest
              | None \<Rightarrow> c # replace_all from to cs)))"
  by pat_completeness auto
termination
  by (relation "measure (\<lambda>(from, to, s). length s)") (auto simp: strip_prefix_Some)

declare replace_all.simps [simp del]

definition bracket_arg :: "nat \<Rightarrow> chars" where
  "bracket_arg index = ascii ''{args['' @ ascii (show_nat index) @ ascii '']}''"

definition dotted_arg :: "nat \<Rightarrow> chars" where
  "dotted_arg index = ascii ''{args.'' @ ascii (show_nat index) @ ascii ''}''"

definition replace_index :: "nat \<times> chars \<Rightarrow> chars \<Rightarrow> chars" where
  "replace_index = (\<lambda>(index, v) out. replace_all (dotted_arg index) v (replace_all (bracket_arg index) v out))"

definition replace_args :: "chars list \<Rightarrow> chars \<Rightarrow> chars" where
  "replace_args args s =
     fold (\<lambda>index. replace_index (index, [])) [length args..<length args + 8]
       (fold replace_index (enumerate 0 args) s)"

fun substitute_directive :: "chars list \<Rightarrow> directive \<Rightarrow> directive" where
  "substitute_directive args (Directive name as block run) =
     Directive (replace_args args name) (map (replace_args args) as)
       (map_option (map (substitute_directive args)) block) token_run_synthetic"

definition substitute_args :: "directive list \<Rightarrow> chars list \<Rightarrow> directive list" where
  "substitute_args ds args = (if args = [] then ds else map (substitute_directive args) ds)"

section \<open>Block placeholders\<close>

fun named_content :: "directive \<Rightarrow> directive list" where
  "named_content (Directive name args block run) =
     (case (args, block) of
        ([], None) \<Rightarrow> []
      | ([], Some inner) \<Rightarrow> inner
      | (a # as, inner) \<Rightarrow> [Directive a as inner token_run_synthetic])"

fun collect_named_blocks :: "directive list \<Rightarrow> (chars \<rightharpoonup> directive list) \<Rightarrow> (chars \<rightharpoonup> directive list) outcome" where
  "collect_named_blocks [] named = Done named"
| "collect_named_blocks (d # ds) named =
     (if d_name d = ascii ''{'' \<or> (d_name d = [] \<and> d_block d \<noteq> None) then import_error AnonymousBlock
      else collect_named_blocks ds (named(d_name d \<mapsto> named_content d)))"

definition block_placeholder :: chars where
  "block_placeholder = ascii ''{block}''"

definition named_placeholder :: "chars \<Rightarrow> chars option" where
  "named_placeholder name = Option.bind (strip_prefix (ascii ''{blocks.'') name) (strip_suffix (ascii ''}''))"

definition placeholder_argument :: "chars \<Rightarrow> bool" where
  "placeholder_argument arg \<longleftrightarrow>
     arg = block_placeholder \<or> (str_starts_with arg (ascii ''{blocks.'') \<and> str_ends_with arg (ascii ''}''))"

definition snippet_definition :: "chars \<Rightarrow> bool" where
  "snippet_definition name \<longleftrightarrow> str_starts_with name (ascii ''('') \<and> str_ends_with name (ascii '')'')"

fun substitute_block_placeholders ::
    "directive list \<Rightarrow> (chars \<rightharpoonup> directive list) \<Rightarrow> directive list \<Rightarrow> directive list outcome" where
  "substitute_block_placeholders block named [] = Done []"
| "substitute_block_placeholders block named (Directive name args inner run # ds) =
     and_then
       (if name = block_placeholder then Done block
        else
          (case named_placeholder name of
             Some key \<Rightarrow> Done (case named key of Some found \<Rightarrow> found | None \<Rightarrow> [])
           | None \<Rightarrow>
               (case find placeholder_argument args of
                  Some arg \<Rightarrow> import_error (PlaceholderInArguments arg)
                | None \<Rightarrow>
                    and_then
                      (if snippet_definition name then Done inner
                       else
                         (case inner of
                            None \<Rightarrow> Done None
                          | Some b \<Rightarrow> and_then (substitute_block_placeholders block named b) (\<lambda>b. Done (Some b)))) (\<lambda>inner.
                      Done [Directive name args inner run]))))
       (\<lambda>out. and_then (substitute_block_placeholders block named ds) (\<lambda>rest. Done (out @ rest)))"

section \<open>Expansion\<close>

type_synonym snippet_map = "chars \<rightharpoonup> directive list"

definition snippet_name :: "chars \<Rightarrow> chars" where
  "snippet_name name = butlast (tl name)"

definition block_directives :: "directive \<Rightarrow> directive list" where
  "block_directives d = (case d_block d of Some b \<Rightarrow> b | None \<Rightarrow> [])"

definition collect_snippets :: "directive list \<Rightarrow> snippet_map \<times> directive list" where
  "collect_snippets ds =
     (fold (\<lambda>d snippets. snippets(snippet_name (d_name d) \<mapsto> block_directives d))
        (filter (\<lambda>d. snippet_definition (d_name d)) ds) Map.empty,
      filter (\<lambda>d. \<not> snippet_definition (d_name d)) ds)"

definition max_import_depth :: nat where
  "max_import_depth = 32"

definition enter :: "chars \<Rightarrow> chars list \<Rightarrow> chars list outcome" where
  "enter node active =
     (if node \<in> set active then Failed (RecursiveSnippet (active @ [node])) else Done (active @ [node]))"

text \<open>The walk over the directives of one body; \<open>import\<close> is what an import stands for.\<close>

fun walk ::
    "(nat \<Rightarrow> snippet_map \<Rightarrow> chars list \<Rightarrow> directive list option \<Rightarrow> (directive list \<times> snippet_map) outcome) \<Rightarrow>
     nat \<Rightarrow> snippet_map \<Rightarrow> directive list \<Rightarrow> (directive list \<times> snippet_map) outcome" where
  "walk imported depth snippets [] = Done ([], snippets)"
| "walk imported depth snippets (Directive name args block run # ds) =
     and_then
       (if name \<noteq> import_name then
          (case block of
             None \<Rightarrow> Done ([Directive name args None run], snippets)
           | Some inner \<Rightarrow>
               if max_import_depth < depth + 1 then import_error NestsTooDeep
               else
                 and_then (walk imported (depth + 1) snippets inner) (\<lambda>(inner, snippets).
                   Done ([Directive name args (Some inner) run], snippets)))
        else imported depth snippets args block)
       (\<lambda>(out, snippets).
          and_then (walk imported depth snippets ds) (\<lambda>(rest, snippets). Done (out @ rest, snippets)))"

type_synonym expander = "path option \<Rightarrow> chars list \<Rightarrow> nat \<Rightarrow> snippet_map \<Rightarrow> directive list \<Rightarrow> (directive list \<times> snippet_map) outcome"

fun import_files ::
    "expander \<Rightarrow> import_fs \<Rightarrow> chars list \<Rightarrow> chars list \<Rightarrow> directive list \<Rightarrow> (chars \<rightharpoonup> directive list) \<Rightarrow>
     nat \<Rightarrow> snippet_map \<Rightarrow> path list \<Rightarrow> (directive list \<times> snippet_map) outcome" where
  "import_files expand fs active args block named depth snippets [] = Done ([], snippets)"
| "import_files expand fs active args block named depth snippets (file # files) =
     and_then (enter (canonical fs file) active) (\<lambda>entered.
     and_then (case read_to_string fs file of None \<Rightarrow> import_error (CannotRead file) | Some source \<Rightarrow> Done source) (\<lambda>source.
     and_then (case parse (env_var fs) source of Inl e \<Rightarrow> import_error (CannotParse file e) | Inr parsed \<Rightarrow> Done parsed) (\<lambda>parsed.
     case collect_snippets parsed of
       (found, body) \<Rightarrow>
         and_then (substitute_block_placeholders block named (substitute_args body args)) (\<lambda>substituted.
         and_then (expand (path_parent file) entered depth (snippets ++ found) substituted) (\<lambda>(out, snippets).
         and_then (import_files expand fs active args block named depth snippets files) (\<lambda>(rest, snippets).
           Done (out @ rest, snippets)))))))"

definition import_directive ::
    "expander \<Rightarrow> import_fs \<Rightarrow> path option \<Rightarrow> chars list \<Rightarrow>
     nat \<Rightarrow> snippet_map \<Rightarrow> chars list \<Rightarrow> directive list option \<Rightarrow> (directive list \<times> snippet_map) outcome" where
  "import_directive expand fs base active depth snippets arguments block =
     (case arguments of
        [] \<Rightarrow> Failed (ArgumentCount import_name 1 0)
      | pattern # args \<Rightarrow>
          and_then
            (case block of
               Some b \<Rightarrow> and_then (collect_named_blocks b Map.empty) (\<lambda>named. Done (b, named))
             | None \<Rightarrow> Done ([], Map.empty)) (\<lambda>(block, named).
          case snippets pattern of
            Some body \<Rightarrow>
              and_then (enter pattern active) (\<lambda>entered.
              and_then (substitute_block_placeholders block named (substitute_args body args)) (\<lambda>substituted.
                expand base entered depth snippets substituted))
          | None \<Rightarrow>
              and_then (resolve_files fs pattern base) (\<lambda>files.
                import_files expand fs active args block named depth snippets files)))"

fun expand :: "nat \<Rightarrow> import_fs \<Rightarrow> expander" where
  "expand fuel fs base active depth snippets ds =
     (if max_import_depth < depth then import_error NestsTooDeep
      else
        walk
          (case fuel of
             0 \<Rightarrow> (\<lambda>depth snippets args block. OutOfFuel)
           | Suc fuel \<Rightarrow> import_directive (expand fuel fs) fs base active)
          depth snippets ds)"

declare expand.simps [simp del]

section \<open>What expansion leaves\<close>

fun import_free :: "directive \<Rightarrow> bool" where
  "import_free (Directive name args block run) \<longleftrightarrow>
     name \<noteq> import_name \<and> (case block of None \<Rightarrow> True | Some ds \<Rightarrow> list_all import_free ds)"

fun settled :: "nat \<Rightarrow> directive \<Rightarrow> bool" where
  "settled depth (Directive name args block run) \<longleftrightarrow>
     name \<noteq> import_name \<and>
     (case block of None \<Rightarrow> True | Some ds \<Rightarrow> depth + 1 \<le> max_import_depth \<and> list_all (settled (depth + 1)) ds)"

lemma settled_import_free: "settled depth d \<Longrightarrow> import_free d"
proof (induction d arbitrary: depth)
  case (Directive name args block run)
  then show ?case by (fastforce simp: list_all_iff split: option.splits)
qed

lemma walk_settled:
  "(\<And>depth snippets args block out s. imported depth snippets args block = Done (out, s) \<Longrightarrow> list_all (settled depth) out) \<Longrightarrow>
    walk imported depth snippets ds = Done (out, s) \<Longrightarrow> list_all (settled depth) out"
proof (induction imported depth snippets ds arbitrary: out s rule: walk.induct [case_names Nil Cons])
  case (Cons imported depth snippets name args block run ds)
  then show ?case
    by (cases block) (auto simp: and_then_Done list_all_iff split: if_splits)
qed simp

lemma settled_walk: "list_all (settled depth) ds \<Longrightarrow> walk imported depth snippets ds = Done (ds, snippets)"
proof (induction imported depth snippets ds rule: walk.induct [case_names Nil Cons])
  case (Cons imported depth snippets name args block run ds)
  then show ?case by (cases block) auto
qed simp

lemma import_files_settled:
  assumes "\<And>base active depth snippets ds out s. rec base active depth snippets ds = Done (out, s) \<Longrightarrow> list_all (settled depth) out"
  shows "import_files rec fs active args block named depth snippets files = Done (out, s) \<Longrightarrow> list_all (settled depth) out"
  by (induction files arbitrary: snippets out s) (fastforce simp: and_then_Done case_prod_beta dest: assms)+

lemma import_directive_settled:
  assumes "\<And>base active depth snippets ds out s. rec base active depth snippets ds = Done (out, s) \<Longrightarrow> list_all (settled depth) out"
    and "import_directive rec fs base active depth snippets arguments block = Done (out, s)"
  shows "list_all (settled depth) out"
proof -
  have files: "import_files rec fs active args block named depth snippets files = Done (out, s) \<Longrightarrow> list_all (settled depth) out"
    for active args block named snippets files by (rule import_files_settled) (rule assms(1))
  show ?thesis
    using assms(2) unfolding import_directive_def
    by (auto simp: and_then_Done split: list.splits option.splits dest: assms(1) files)
qed

lemma expand_settled: "expand fuel fs base active depth snippets ds = Done (out, s) \<Longrightarrow> list_all (settled depth) out"
proof (induction fuel arbitrary: base active depth snippets ds out s)
  case 0
  then show ?case by (auto simp: expand.simps intro: walk_settled split: if_splits)
next
  case (Suc fuel)
  have w: "walk (import_directive (expand fuel fs) fs base active) depth snippets ds = Done (out, s)"
    using Suc.prems by (simp add: expand.simps [of "Suc fuel"] split: if_splits)
  show ?case
  proof (rule walk_settled [OF _ w])
    show "list_all (settled depth) out"
      if "import_directive (expand fuel fs) fs base active depth snippets args block = Done (out, s)"
      for depth snippets args block out s
      using that by (rule import_directive_settled [rotated]) (rule Suc.IH)
  qed
qed

text \<open>C24: when the imports of a configuration have been expanded, no \<open>import\<close> is left at any depth, and the result
  is final: expanding it again, with any snippets, any filesystem and from any place, gives it back unchanged, so that
  nothing that was spliced in is read a second time.\<close>

theorem expansion_is_final:
  assumes "expand fuel fs base active depth snippets ds = Done (out, snippets')" and "depth \<le> max_import_depth"
  shows "list_all import_free out \<and> expand fuel' fs' base' active' depth s' out = Done (out, s')"
proof
  have settled: "list_all (settled depth) out" by (rule expand_settled [OF assms(1)])
  then show "list_all import_free out" by (auto simp: list_all_iff intro: settled_import_free)
  show "expand fuel' fs' base' active' depth s' out = Done (out, s')"
    using assms(2) settled_walk [OF settled] by (simp add: expand.simps)
qed

section \<open>Expansion ends\<close>

text \<open>Every name under which a body can be entered: the snippets known so far, those that some readable file defines,
  and the canonical names of the readable files.\<close>

definition names_within :: "import_fs \<Rightarrow> chars set \<Rightarrow> bool" where
  "names_within fs U \<longleftrightarrow>
     (\<forall>file source. read_to_string fs file = Some source \<longrightarrow>
        canonical fs file \<in> U \<and>
        (\<forall>parsed. parse (env_var fs) source = Inr parsed \<longrightarrow> dom (fst (collect_snippets parsed)) \<subseteq> U))"

definition ends_within :: "chars set \<Rightarrow> (directive list \<times> snippet_map) outcome \<Rightarrow> bool" where
  "ends_within U r \<longleftrightarrow> (case r of OutOfFuel \<Rightarrow> False | Failed e \<Rightarrow> True | Done (out, s) \<Rightarrow> dom s \<subseteq> U)"

lemma ends_within_simps [simp]:
  "\<not> ends_within U OutOfFuel" "ends_within U (Failed e)" "ends_within U (Done (out, s)) \<longleftrightarrow> dom s \<subseteq> U"
  by (simp_all add: ends_within_def)

lemma ends_within_then:
  "ends_within U r \<Longrightarrow> (\<And>out s. r = Done (out, s) \<Longrightarrow> dom s \<subseteq> U \<Longrightarrow> ends_within U (f (out, s))) \<Longrightarrow> ends_within U (and_then r f)"
  by (cases r) auto

lemma ends_within_then_other:
  "r \<noteq> OutOfFuel \<Longrightarrow> (\<And>x. r = Done x \<Longrightarrow> ends_within U (f x)) \<Longrightarrow> ends_within U (and_then r f)"
  by (cases r) auto

lemma ends_within_seq:
  assumes "ends_within U r" and "\<And>out s. r = Done (out, s) \<Longrightarrow> dom s \<subseteq> U \<Longrightarrow> ends_within U (g s)"
  shows "ends_within U (and_then r (\<lambda>(out, s). and_then (g s) (\<lambda>(rest, s). Done (h out rest, s))))"
proof (cases r)
  case (Done x)
  obtain out s where x: "x = (out, s)" by fastforce
  then show ?thesis using assms Done by (cases "g s") auto
qed (use assms in simp_all)

lemma walk_ends:
  "(\<And>depth snippets args block. dom snippets \<subseteq> U \<Longrightarrow> ends_within U (imported depth snippets args block)) \<Longrightarrow>
    dom snippets \<subseteq> U \<Longrightarrow> ends_within U (walk imported depth snippets ds)"
proof (induction imported depth snippets ds rule: walk.induct [case_names Nil Cons])
  case (Cons imported depth snippets name args block run ds)
  let ?head = "if name \<noteq> import_name then
         (case block of
            None \<Rightarrow> Done ([Directive name args None run], snippets)
          | Some inner \<Rightarrow>
              if max_import_depth < depth + 1 then import_error NestsTooDeep
              else and_then (walk imported (depth + 1) snippets inner) (\<lambda>(inner, snippets).
                     Done ([Directive name args (Some inner) run], snippets)))
       else imported depth snippets args block"
  have inner: "ends_within U (and_then (walk imported (depth + 1) snippets inner) (\<lambda>(inner, snippets).
      Done ([Directive name args (Some inner) run], snippets)))"
    if "name \<noteq> import_name" "block = Some inner" "\<not> max_import_depth < depth + 1" for inner
  proof -
    have "ends_within U (walk imported (depth + 1) snippets inner)"
      using Cons.IH(1) [OF that(1) that(2) that(3)] Cons.prems by blast
    then show ?thesis by (rule ends_within_then) simp
  qed
  have "ends_within U ?head"
    using inner Cons.prems by (simp split: option.split)
  moreover have "ends_within U (walk imported depth s ds)" if "?head = Done (out, s)" "dom s \<subseteq> U" for out s
    using Cons.IH(2) [OF that(1) refl] that(2) Cons.prems(1) by blast
  ultimately show ?case unfolding walk.simps by (rule ends_within_seq)
qed simp

lemma substitute_block_placeholders_returns: "substitute_block_placeholders block named ds \<noteq> OutOfFuel"
proof (induction block named ds rule: substitute_block_placeholders.induct [case_names Nil Cons])
  case (Cons block named name args inner run ds)
  then show ?case by (auto simp: and_then_OutOfFuel split: option.splits if_splits)
qed simp

lemma collect_named_blocks_returns: "collect_named_blocks ds named \<noteq> OutOfFuel"
  by (induction ds arbitrary: named) simp_all

lemma resolve_files_returns: "resolve_files fs pattern base \<noteq> OutOfFuel"
  by (auto simp: resolve_files_def and_then_OutOfFuel check_glob_complexity_def glob_files_def Let_def
      split: if_splits option.splits)

lemma enter_Done: "enter node active = Done entered \<longleftrightarrow> node \<notin> set active \<and> entered = active @ [node]"
  by (auto simp: enter_def)

lemma import_files_end:
  assumes rec: "\<And>base entered snippets ds. distinct entered \<Longrightarrow> set entered \<subseteq> U \<Longrightarrow> length entered = Suc (length active) \<Longrightarrow>
      dom snippets \<subseteq> U \<Longrightarrow> ends_within U (rec base entered depth snippets ds)"
    and names: "names_within fs U" and active: "distinct active" "set active \<subseteq> U"
  shows "dom snippets \<subseteq> U \<Longrightarrow> ends_within U (import_files rec fs active args block named depth snippets files)"
proof (induction files arbitrary: snippets)
  case (Cons f files)
  show ?case
  proof (cases "canonical fs f \<in> set active \<or> read_to_string fs f = None \<or>
      (\<exists>e. parse (env_var fs) (the (read_to_string fs f)) = Inl e)")
    case True
    then show ?thesis by (cases "read_to_string fs f") (auto simp: enter_def)
  next
    case False
    then obtain source parsed where read: "read_to_string fs f = Some source" "parse (env_var fs) source = Inr parsed"
      and new: "canonical fs f \<notin> set active"
      by (cases "read_to_string fs f"; cases "parse (env_var fs) (the (read_to_string fs f))") auto
    obtain found body where collect: "collect_snippets parsed = (found, body)" by fastforce
    have "canonical fs f \<in> U" "dom found \<subseteq> U" using names read collect by (force simp: names_within_def)+
    then have "ends_within U (rec (path_parent f) (active @ [canonical fs f]) depth (snippets ++ found) ds)" for ds
      using Cons.prems active new by (intro rec) auto
    then have "ends_within U (and_then (rec (path_parent f) (active @ [canonical fs f]) depth (snippets ++ found) ds)
        (\<lambda>(out, s). and_then (import_files rec fs active args block named depth s files) (\<lambda>(rest, s). Done (out @ rest, s))))" for ds
      using Cons.IH by (rule ends_within_seq)
    then have "ends_within U (and_then (substitute_block_placeholders block named ds) (\<lambda>ds.
        and_then (rec (path_parent f) (active @ [canonical fs f]) depth (snippets ++ found) ds)
        (\<lambda>(out, s). and_then (import_files rec fs active args block named depth s files) (\<lambda>(rest, s). Done (out @ rest, s)))))" for ds
      by (rule ends_within_then_other [OF substitute_block_placeholders_returns])
    then show ?thesis using new by (simp add: enter_def read collect)
  qed
qed simp

lemma import_directive_ends:
  assumes rec: "\<And>base entered snippets depth ds. distinct entered \<Longrightarrow> set entered \<subseteq> U \<Longrightarrow> length entered = Suc (length active) \<Longrightarrow>
      dom snippets \<subseteq> U \<Longrightarrow> ends_within U (rec base entered depth snippets ds)"
    and names: "names_within fs U" and active: "distinct active" "set active \<subseteq> U" and snippets: "dom snippets \<subseteq> U"
  shows "ends_within U (import_directive rec fs base active depth snippets arguments block)"
proof (cases arguments)
  case (Cons pattern args)
  have files: "ends_within U (import_files rec fs active args block named depth snippets files)" for block named files
    using rec names active snippets by (rule import_files_end)
  have body: "ends_within U (and_then (enter pattern active) (\<lambda>entered.
      and_then (substitute_block_placeholders block named (substitute_args body args)) (\<lambda>substituted.
        rec base entered depth snippets substituted)))" if "snippets pattern = Some body" for block named body
  proof (cases "pattern \<in> set active")
    case False
    have "pattern \<in> U" using that snippets by auto
    then have "ends_within U (rec base (active @ [pattern]) depth snippets ds)" for ds
      using False active snippets by (intro rec) auto
    then have "ends_within U (and_then (substitute_block_placeholders block named ds) (\<lambda>substituted.
        rec base (active @ [pattern]) depth snippets substituted))" for ds
      by (rule ends_within_then_other [OF substitute_block_placeholders_returns])
    then show ?thesis using False by (simp add: enter_def)
  qed (simp add: enter_def)
  have both: "ends_within U (case snippets pattern of
        Some body \<Rightarrow>
          and_then (enter pattern active) (\<lambda>entered.
          and_then (substitute_block_placeholders block named (substitute_args body args)) (\<lambda>substituted.
            rec base entered depth snippets substituted))
      | None \<Rightarrow>
          and_then (resolve_files fs pattern base) (\<lambda>files.
            import_files rec fs active args block named depth snippets files))" for block named
    using body files resolve_files_returns by (auto intro!: ends_within_then_other split: option.split)
  show ?thesis
    unfolding import_directive_def Cons list.case
    using both collect_named_blocks_returns
    by (intro ends_within_then_other) (auto simp: and_then_OutOfFuel and_then_Done split: option.splits)
qed (simp add: import_directive_def)

lemma expand_ends:
  assumes "finite U" and "names_within fs U"
  shows "distinct active \<Longrightarrow> set active \<subseteq> U \<Longrightarrow> card U < fuel + length active \<Longrightarrow> dom snippets \<subseteq> U \<Longrightarrow>
    ends_within U (expand fuel fs base active depth snippets ds)"
proof (induction fuel arbitrary: base active depth snippets ds)
  case 0
  then have "length active \<le> card U" using card_mono [OF assms(1) 0(2)] by (simp add: distinct_card)
  then show ?case using 0 by simp
next
  case (Suc fuel)
  have "ends_within U (import_directive (expand fuel fs) fs base active depth snippets arguments block)"
    if "dom snippets \<subseteq> U" for depth snippets arguments block
    using assms(2) Suc.prems(1,2) that by (intro import_directive_ends Suc.IH) (use Suc.prems(3) in simp_all)
  then show ?case using Suc.prems(4) by (simp add: expand.simps [of "Suc fuel"] walk_ends)
qed

text \<open>C25: the expansion of imports always ends. If the snippets and the readable files of a configuration have only
  finitely many names, then a number of nested imports above that number is never reached: every body is entered under a
  name that is not active yet, whatever the snippets, files, patterns and blocks say, and the expansion gives a result or
  an error.\<close>

theorem import_expansion_terminates:
  assumes "finite U" and "names_within fs U" and "dom snippets \<subseteq> U" and "card U < fuel"
  shows "(\<exists>e. expand fuel fs base [] depth snippets ds = Failed e) \<or>
    (\<exists>out snippets'. expand fuel fs base [] depth snippets ds = Done (out, snippets'))"
proof -
  have "ends_within U (expand fuel fs base [] depth snippets ds)"
    using assms by (intro expand_ends) simp_all
  then show ?thesis by (cases "expand fuel fs base [] depth snippets ds") auto
qed

section \<open>Fuel and cycles\<close>

lemma walk_mono:
  "(\<And>depth snippets args block. imported depth snippets args block \<noteq> OutOfFuel \<Longrightarrow>
      other depth snippets args block = imported depth snippets args block) \<Longrightarrow>
    walk imported depth snippets ds \<noteq> OutOfFuel \<Longrightarrow> walk other depth snippets ds = walk imported depth snippets ds"
proof (induction imported depth snippets ds rule: walk.induct [case_names Nil Cons])
  case (Cons imported depth snippets name args block run ds)
  let ?head = "\<lambda>imported. if name \<noteq> import_name then
         (case block of
            None \<Rightarrow> Done ([Directive name args None run], snippets)
          | Some inner \<Rightarrow>
              if max_import_depth < depth + 1 then import_error NestsTooDeep
              else and_then (walk imported (depth + 1) snippets inner) (\<lambda>(inner, snippets).
                     Done ([Directive name args (Some inner) run], snippets)))
       else imported depth snippets args block"
  have some: "?head imported \<noteq> OutOfFuel" using Cons.prems(2) by (auto simp: and_then_OutOfFuel)
  have "walk other (depth + 1) snippets inner = walk imported (depth + 1) snippets inner"
    if "name \<noteq> import_name" "block = Some inner" "\<not> max_import_depth < depth + 1" for inner
    using Cons.IH(1) [OF that Cons.prems(1)] some that by (auto simp: and_then_OutOfFuel)
  then have head: "?head other = ?head imported"
    using some Cons.prems(1) by (auto split: option.split)
  have tail: "walk other depth s ds = walk imported depth s ds" if "?head imported = Done (out, s)" for out s
    using Cons.IH(2) [OF that refl Cons.prems(1)] Cons.prems(2) unfolding walk.simps that by (simp add: and_then_OutOfFuel)
  show ?case
    unfolding walk.simps head using tail by (cases "?head imported") (auto simp del: walk.simps split: prod.split)
qed simp

lemma import_files_mono:
  assumes "\<And>base active depth snippets ds. rec base active depth snippets ds \<noteq> OutOfFuel \<Longrightarrow>
      other base active depth snippets ds = rec base active depth snippets ds"
  shows "import_files rec fs active args block named depth snippets files \<noteq> OutOfFuel \<Longrightarrow>
    import_files other fs active args block named depth snippets files = import_files rec fs active args block named depth snippets files"
proof (induction files arbitrary: snippets)
  case (Cons f files)
  show ?case
    using Cons.prems unfolding import_files.simps
    by (intro and_then_cong) (auto simp: and_then_OutOfFuel assms Cons.IH split: prod.splits intro!: and_then_cong)
qed simp

lemma import_directive_mono:
  assumes "\<And>base active depth snippets ds. rec base active depth snippets ds \<noteq> OutOfFuel \<Longrightarrow>
      other base active depth snippets ds = rec base active depth snippets ds"
    and "import_directive rec fs base active depth snippets arguments block \<noteq> OutOfFuel"
  shows "import_directive other fs base active depth snippets arguments block =
    import_directive rec fs base active depth snippets arguments block"
proof -
  have files: "import_files other fs active args block named depth snippets files =
      import_files rec fs active args block named depth snippets files"
    if "import_files rec fs active args block named depth snippets files \<noteq> OutOfFuel" for args block named files
    using that by (intro import_files_mono assms(1))
  show ?thesis
    using assms(2) unfolding import_directive_def
    by (auto simp: and_then_OutOfFuel assms(1) files split: list.splits option.splits prod.splits intro!: and_then_cong)
qed

text \<open>A result does not depend on the fuel that was left.\<close>

lemma expand_more_fuel:
  "expand fuel fs base active depth snippets ds \<noteq> OutOfFuel \<Longrightarrow>
    expand (Suc fuel) fs base active depth snippets ds = expand fuel fs base active depth snippets ds"
proof (induction fuel arbitrary: base active depth snippets ds)
  case 0
  have "walk imported depth snippets ds = walk (\<lambda>depth snippets args block. OutOfFuel) depth snippets ds"
    if "walk (\<lambda>depth snippets args block. OutOfFuel) depth snippets ds \<noteq> OutOfFuel" for imported
    using that by (intro walk_mono) simp_all
  then show ?case using 0 by (simp add: expand.simps [of 0] expand.simps [of "Suc 0"] split: if_splits)
next
  case (Suc fuel)
  have "import_directive (expand (Suc fuel) fs) fs base active depth snippets arguments block =
      import_directive (expand fuel fs) fs base active depth snippets arguments block"
    if "import_directive (expand fuel fs) fs base active depth snippets arguments block \<noteq> OutOfFuel"
    for depth snippets arguments block
    using that by (intro import_directive_mono Suc.IH)
  then show ?case
    using Suc.prems walk_mono [of "import_directive (expand fuel fs) fs base active" "import_directive (expand (Suc fuel) fs) fs base active"]
    by (simp add: expand.simps [of "Suc fuel"] expand.simps [of "Suc (Suc fuel)"] split: if_splits)
qed

lemma expand_fuel_irrelevant:
  "expand fuel fs base active depth snippets ds \<noteq> OutOfFuel \<Longrightarrow> fuel \<le> fuel' \<Longrightarrow>
    expand fuel' fs base active depth snippets ds = expand fuel fs base active depth snippets ds"
  by (rotate_tac, induction rule: dec_induct) (simp_all add: expand_more_fuel)

text \<open>Where the error of a cycle comes from.\<close>

lemma walk_cycle:
  "walk imported depth snippets ds = Failed (RecursiveSnippet chain) \<Longrightarrow>
    \<exists>depth snippets args block. imported depth snippets args block = Failed (RecursiveSnippet chain)"
proof (induction imported depth snippets ds rule: walk.induct [case_names Nil Cons])
  case (Cons imported depth snippets name args block run ds)
  then show ?case by (cases block) (auto simp: and_then_Failed split: if_splits)
qed simp

lemma substitute_block_placeholders_cycle: "substitute_block_placeholders block named ds \<noteq> Failed (RecursiveSnippet chain)"
proof (induction block named ds rule: substitute_block_placeholders.induct [case_names Nil Cons])
  case (Cons block named name args inner run ds)
  then show ?case by (auto simp: and_then_Failed split: option.splits if_splits)
qed simp

lemma collect_named_blocks_cycle: "collect_named_blocks ds named \<noteq> Failed (RecursiveSnippet chain)"
  by (induction ds arbitrary: named) simp_all

lemma resolve_files_cycle: "resolve_files fs pattern base \<noteq> Failed (RecursiveSnippet chain)"
  by (auto simp: resolve_files_def and_then_Failed check_glob_complexity_def glob_files_def Let_def
      split: if_splits option.splits)

definition cycle_from :: "expander \<Rightarrow> chars list \<Rightarrow> chars list \<Rightarrow> bool" where
  "cycle_from rec active chain \<longleftrightarrow>
     (\<exists>node\<in>set active. chain = active @ [node]) \<or>
     (\<exists>base node depth snippets ds. node \<notin> set active \<and>
        rec base (active @ [node]) depth snippets ds = Failed (RecursiveSnippet chain))"

lemma cycle_fromI:
  "node \<in> set active \<Longrightarrow> cycle_from rec active (active @ [node])"
  "node \<notin> set active \<Longrightarrow> rec base (active @ [node]) depth snippets ds = Failed (RecursiveSnippet chain) \<Longrightarrow>
    cycle_from rec active chain"
  unfolding cycle_from_def by blast+

lemma enter_Failed: "enter node active = Failed e \<longleftrightarrow> node \<in> set active \<and> e = RecursiveSnippet (active @ [node])"
  by (auto simp: enter_def)

lemma import_files_cycle:
  "import_files rec fs active args block named depth snippets files = Failed (RecursiveSnippet chain) \<Longrightarrow> cycle_from rec active chain"
proof (induction files arbitrary: snippets)
  case (Cons f files)
  then show ?case
    by (auto simp: and_then_Failed enter_Done enter_Failed substitute_block_placeholders_cycle
        split: option.splits sum.splits prod.splits intro: cycle_fromI)
qed simp

lemma import_directive_cycle:
  "import_directive rec fs base active depth snippets arguments block = Failed (RecursiveSnippet chain) \<Longrightarrow> cycle_from rec active chain"
  unfolding import_directive_def
  by (auto simp: and_then_Failed enter_Done enter_Failed substitute_block_placeholders_cycle collect_named_blocks_cycle
      resolve_files_cycle split: list.splits option.splits intro: cycle_fromI import_files_cycle)

lemma expand_cycle:
  "expand fuel fs base active depth snippets ds = Failed (RecursiveSnippet chain) \<Longrightarrow> distinct active \<Longrightarrow>
    \<exists>entered node. chain = active @ entered @ [node] \<and> distinct (active @ entered) \<and> node \<in> set (active @ entered)"
proof (induction fuel arbitrary: base active depth snippets ds)
  case 0
  then show ?case by (auto simp: expand.simps dest!: walk_cycle split: if_splits)
next
  case (Suc fuel)
  have "walk (import_directive (expand fuel fs) fs base active) depth snippets ds = Failed (RecursiveSnippet chain)"
    using Suc.prems(1) by (simp add: expand.simps [of "Suc fuel"] split: if_splits)
  then have "cycle_from (expand fuel fs) active chain" by (blast dest: walk_cycle import_directive_cycle)
  then show ?case
    unfolding cycle_from_def
  proof (elim disjE bexE exE conjE)
    fix node assume "node \<in> set active" "chain = active @ [node]"
    then show ?thesis using Suc.prems(2) by (intro exI [of _ "[]"] exI [of _ node]) simp
  next
    fix base node depth snippets ds
    assume new: "node \<notin> set active"
      and failed: "expand fuel fs base (active @ [node]) depth snippets ds = Failed (RecursiveSnippet chain)"
    have "distinct (active @ [node])" using new Suc.prems(2) by simp
    from Suc.IH [OF failed this] obtain entered last_node where "chain = (active @ [node]) @ entered @ [last_node]"
      "distinct ((active @ [node]) @ entered)" "last_node \<in> set ((active @ [node]) @ entered)"
      by blast
    then show ?thesis by (intro exI [of _ "node # entered"] exI [of _ last_node]) simp
  qed
qed


section \<open>Arguments are put in place of their placeholders\<close>

datatype piece = Literal chars | Bracket nat | Dotted nat

fun piece_text :: "piece \<Rightarrow> chars" where
  "piece_text (Literal s) = s"
| "piece_text (Bracket i) = bracket_arg i"
| "piece_text (Dotted i) = dotted_arg i"

definition pieces_text :: "piece list \<Rightarrow> chars" where
  "pieces_text ps = concat (map piece_text ps)"

fun brace_free :: "piece \<Rightarrow> bool" where
  "brace_free (Literal s) = (open_brace \<notin> set s)"
| "brace_free _ = True"

text \<open>A hole is a placeholder text: one opening brace at its start and one closing brace at its end.\<close>

definition hole :: "chars \<Rightarrow> bool" where
  "hole h \<longleftrightarrow> (\<exists>body. h = open_brace # body @ [close_brace] \<and> open_brace \<notin> set body \<and> close_brace \<notin> set body)"

lemma replace_all_plain:
  assumes "hole h" and "open_brace \<notin> set s"
  shows "replace_all h v (s @ rest) = s @ replace_all h v rest"
  using assms(2)
proof (induction s)
  case (Cons c s)
  have "strip_prefix h (c # s @ rest) = None"
    using assms(1) Cons.prems by (auto simp: hole_def strip_prefix_def)
  then show ?case using Cons assms(1) by (subst replace_all.simps) (auto simp: hole_def)
qed simp

lemma replace_all_hit:
  assumes "hole h"
  shows "replace_all h v (h @ rest) = v @ replace_all h v rest"
  using assms by (subst replace_all.simps) (auto simp: hole_def strip_prefix_def split: list.split)

lemma hole_prefix:
  assumes "hole h" and "hole k" and "strip_prefix h (k @ rest) = Some tail"
  shows "h = k"
proof -
  obtain a b where ab: "h = open_brace # a @ [close_brace]" "close_brace \<notin> set a" "k = open_brace # b @ [close_brace]" "close_brace \<notin> set b"
    using assms(1,2) by (auto simp: hole_def)
  have eq: "b @ close_brace # rest = a @ close_brace # tail" using assms(3) by (simp add: strip_prefix_Some ab)
  have "split_once close_brace (b @ close_brace # rest) = Some (b, rest)"
    "split_once close_brace (a @ close_brace # tail) = Some (a, tail)"
    using ab by (simp_all add: split_once_Some)
  then have "a = b" unfolding eq by simp
  then show ?thesis using ab by simp
qed

lemma replace_all_miss:
  assumes "hole h" and "hole k" and "h \<noteq> k"
  shows "replace_all h v (k @ rest) = k @ replace_all h v rest"
proof -
  obtain b where b: "k = open_brace # b" "open_brace \<notin> set b" using assms(2) by (auto simp: hole_def)
  have "strip_prefix h (k @ rest) = None" using hole_prefix [OF assms(1,2)] assms(3) by (cases "strip_prefix h (k @ rest)") auto
  then have "replace_all h v (k @ rest) = open_brace # replace_all h v (b @ rest)"
    using assms(1) by (subst replace_all.simps) (auto simp: hole_def b)
  then show ?thesis using replace_all_plain [OF assms(1) b(2)] b by simp
qed

lemma digits_no_braces: "open_brace \<notin> set (ascii (show_nat n))" "close_brace \<notin> set (ascii (show_nat n))"
  using show_nat_digits [of n]
  by (auto simp: ascii_def list_all_iff is_ascii_digit_def)

lemma ascii_append: "ascii (xs @ ys) = ascii xs @ ascii ys"
  by (simp add: ascii_def)

lemma arg_texts:
  "bracket_arg n = open_brace # ascii ''args['' @ ascii (show_nat n) @ ascii '']'' @ [close_brace]"
  "dotted_arg n = open_brace # ascii ''args.'' @ ascii (show_nat n) @ [close_brace]"
  by (simp_all add: bracket_arg_def dotted_arg_def ascii_def)

lemma hole_args: "hole (bracket_arg n)" "hole (dotted_arg n)"
proof -
  show "hole (bracket_arg n)"
    unfolding hole_def arg_texts using digits_no_braces [of n]
    by (intro exI [of _ "ascii ''args['' @ ascii (show_nat n) @ ascii '']''"]) (auto simp: ascii_def)
  show "hole (dotted_arg n)"
    unfolding hole_def arg_texts using digits_no_braces [of n]
    by (intro exI [of _ "ascii ''args.'' @ ascii (show_nat n)"]) (auto simp: ascii_def)
qed

lemma ascii_inj: "ascii xs = ascii ys \<longleftrightarrow> xs = ys"
  unfolding ascii_def by (rule inj_map_eq_map) (auto simp: inj_def)

lemma arg_inj [simp]:
  "bracket_arg i = bracket_arg j \<longleftrightarrow> i = j" "dotted_arg i = dotted_arg j \<longleftrightarrow> i = j"
  "bracket_arg i \<noteq> dotted_arg j" "dotted_arg j \<noteq> bracket_arg i"
  by (simp_all add: arg_texts ascii_inj show_nat_inj) (simp_all add: ascii_def)

text \<open>The placeholder of one index filled with a value.\<close>

definition fill :: "nat \<Rightarrow> chars \<Rightarrow> piece \<Rightarrow> piece" where
  "fill i v p = (if p = Bracket i \<or> p = Dotted i then Literal v else p)"

lemma replace_all_pieces:
  assumes "h = piece_text p" and "p = Bracket i \<or> p = Dotted i" and "list_all brace_free ps"
  shows "replace_all h v (pieces_text ps) = pieces_text (map (\<lambda>q. if q = p then Literal v else q) ps)"
proof -
  have h: "hole h" using assms(1,2) hole_args by auto
  have nil: "replace_all h v [] = []" using h by (subst replace_all.simps) (auto simp: hole_def)
  show ?thesis
    using assms(3)
  proof (induction ps)
    case Nil
    then show ?case by (simp add: pieces_text_def nil)
  next
    case (Cons q ps)
    have "replace_all h v (piece_text q @ pieces_text ps) =
        piece_text (if q = p then Literal v else q) @ replace_all h v (pieces_text ps)"
    proof (cases q)
      case (Literal s)
      then show ?thesis using Cons.prems assms(2) replace_all_plain [OF h] by auto
    next
      case (Bracket j)
      then show ?thesis using assms(1,2) replace_all_hit [OF h] replace_all_miss [OF h hole_args(1) [of j]] by (cases "i = j") auto
    next
      case (Dotted j)
      then show ?thesis using assms(1,2) replace_all_hit [OF h] replace_all_miss [OF h hole_args(2) [of j]] by (cases "i = j") auto
    qed
    then show ?case using Cons by (simp add: pieces_text_def)
  qed
qed

lemma replace_index_pieces:
  assumes "list_all brace_free ps" and "open_brace \<notin> set v"
  shows "replace_index (i, v) (pieces_text ps) = pieces_text (map (fill i v) ps) \<and> list_all brace_free (map (fill i v) ps)"
proof -
  let ?ps = "map (\<lambda>q. if q = Bracket i then Literal v else q) ps"
  have free: "list_all brace_free ?ps" using assms by (auto simp: list_all_iff)
  have "replace_index (i, v) (pieces_text ps) = pieces_text (map (\<lambda>q. if q = Dotted i then Literal v else q) ?ps)"
    using replace_all_pieces [of "bracket_arg i" "Bracket i" i ps v] replace_all_pieces [of "dotted_arg i" "Dotted i" i ?ps v] assms(1) free
    by (simp add: replace_index_def)
  also have "map (\<lambda>q. if q = Dotted i then Literal v else q) ?ps = map (fill i v) ps"
    by (auto simp: fill_def)
  finally show ?thesis using assms by (auto simp: list_all_iff fill_def)
qed

fun piece_value :: "chars list \<Rightarrow> piece \<Rightarrow> chars" where
  "piece_value args (Literal s) = s"
| "piece_value args (Bracket i) = (if i < length args then args ! i else [])"
| "piece_value args (Dotted i) = (if i < length args then args ! i else [])"

fun piece_index :: "piece \<Rightarrow> nat" where
  "piece_index (Literal s) = 0"
| "piece_index (Bracket i) = i"
| "piece_index (Dotted i) = i"

definition fill_below :: "chars list \<Rightarrow> nat \<Rightarrow> piece \<Rightarrow> piece" where
  "fill_below args n p = (if piece_index p < n \<and> (\<forall>s. p \<noteq> Literal s) then Literal (piece_value args p) else p)"

lemma fill_step: "fill n (if n < length args then args ! n else []) (fill_below args n p) = fill_below args (Suc n) p"
  by (cases p) (auto simp: fill_def fill_below_def less_Suc_eq)

lemma brace_free_fill: "brace_free p \<Longrightarrow> \<forall>v\<in>set args. open_brace \<notin> set v \<Longrightarrow> brace_free (fill_below args n p)"
  by (cases p) (auto simp: fill_below_def)

lemma replace_args_steps:
  assumes "list_all brace_free ps" and "\<forall>v\<in>set args. open_brace \<notin> set v"
  shows "fold (\<lambda>n. replace_index (n, if n < length args then args ! n else [])) [0..<m] (pieces_text ps) =
    pieces_text (map (fill_below args m) ps)"
proof (induction m)
  case 0
  then show ?case by (simp add: fill_below_def map_idI)
next
  case (Suc m)
  have "list_all brace_free (map (fill_below args m) ps)" using assms brace_free_fill by (auto simp: list_all_iff)
  moreover have "open_brace \<notin> set (if m < length args then args ! m else [])" using assms(2) by auto
  ultimately show ?case using Suc replace_index_pieces by (simp add: fill_step o_def)
qed

lemma replace_args_fold:
  "replace_args args s = fold (\<lambda>n. replace_index (n, if n < length args then args ! n else [])) [0..<length args + 8] s"
proof -
  let ?filler = "\<lambda>n. if n < length args then args ! n else []"
  have "enumerate 0 args = map (\<lambda>n. (n, ?filler n)) [0..<length args]"
    by (rule nth_equalityI) (auto simp: nth_enumerate_eq)
  then have first: "fold replace_index (enumerate 0 args) = fold (\<lambda>n. replace_index (n, ?filler n)) [0..<length args]"
    by (simp add: fold_map o_def)
  have rest: "fold (\<lambda>n. replace_index (n, [])) [length args..<length args + 8] =
      fold (\<lambda>n. replace_index (n, ?filler n)) [length args..<length args + 8]"
    by (intro ext fold_cong) auto
  show ?thesis
    unfolding replace_args_def first rest upt_add_eq_append [OF le0] by (simp only: fold_append o_apply)
qed

text \<open>C26: the arguments of an import land exactly where the imported text asks for them. In a text made of plain parts
  and of placeholders \<open>{args[N]}\<close> or \<open>{args.N}\<close>, every placeholder becomes its argument and one that has none of the
  next eight indices becomes empty, whatever the order of the placeholders and however often each occurs, provided the
  arguments themselves contain no opening brace.\<close>

theorem arguments_replace_their_placeholders:
  assumes "list_all brace_free ps" and "\<forall>v\<in>set args. open_brace \<notin> set v"
    and "\<forall>p\<in>set ps. piece_index p < length args + 8"
  shows "replace_args args (pieces_text ps) = concat (map (piece_value args) ps)"
proof -
  have "replace_args args (pieces_text ps) = pieces_text (map (fill_below args (length args + 8)) ps)"
    unfolding replace_args_fold by (rule replace_args_steps [OF assms(1,2)])
  also have "\<dots> = concat (map (piece_value args) ps)"
    unfolding pieces_text_def map_map
  proof (rule arg_cong [where f = concat], rule map_cong [OF refl])
    fix p assume "p \<in> set ps"
    then show "(piece_text \<circ> fill_below args (length args + 8)) p = piece_value args p"
      using assms(3) by (cases p) (auto simp: fill_below_def)
  qed
  finally show ?thesis .
qed

text \<open>Without arguments nothing is replaced, and a placeholder stays in the text; an argument that itself spells a
  later placeholder is replaced once more.\<close>

lemma placeholder_without_arguments_stays: "substitute_args ds [] = ds"
  by (simp add: substitute_args_def)

lemma argument_spelling_a_placeholder:
  assumes "open_brace \<notin> set v"
  shows "replace_args [bracket_arg 1, v] (bracket_arg 0) = v"
proof -
  have one: "replace_index (i, w) (pieces_text [p]) = pieces_text [fill i w p]"
    if "brace_free p" "open_brace \<notin> set w" for i w p
    using replace_index_pieces [of "[p]" w i] that by simp
  have zero: "replace_index (0, bracket_arg 1) (bracket_arg 0) = bracket_arg 1"
    using replace_all_hit [OF hole_args(1), of 0 "bracket_arg 1" "[]"] replace_all_miss [OF hole_args(2) hole_args(1), of 0 1 "bracket_arg 1" "[]"]
    by (simp add: replace_index_def replace_all.simps [of _ _ "[]"])
  have "replace_index (i, []) v = v" for i
    using one [of "Literal v" "[]" i] assms by (simp add: fill_def pieces_text_def)
  then have rest: "fold (\<lambda>n. replace_index (n, [])) ns v = v" for ns by (induction ns) simp_all
  have "fold replace_index (enumerate 0 [bracket_arg 1, v]) (bracket_arg 0) = v"
    using zero one [of "Bracket 1" v 1] assms by (simp add: fill_def pieces_text_def)
  then show ?thesis by (simp only: replace_args_def rest)
qed

section \<open>Examples\<close>

definition no_files :: import_fs where
  "no_files = \<lparr>is_file = (\<lambda>_. False), read_dir = (\<lambda>_. None), canonical = (\<lambda>_. []), read_to_string = (\<lambda>_. None), env_var = (\<lambda>_. None)\<rparr>"

definition import_of :: "string \<Rightarrow> directive" where
  "import_of name = Directive import_name [ascii name] None token_run_synthetic"

definition plain :: "string \<Rightarrow> directive" where
  "plain name = Directive (ascii name) [] None token_run_synthetic"

definition two_snippets :: snippet_map where
  "two_snippets = [ascii ''a'' \<mapsto> [import_of ''b'', plain ''c''], ascii ''b'' \<mapsto> [plain ''d'']]"

lemmas evaluate_imports =
  expand.simps import_directive_def enter_def substitute_args_def import_of_def plain_def two_snippets_def
  max_import_depth_def import_name_def block_placeholder_def named_placeholder_def placeholder_argument_def snippet_definition_def
  strip_prefix_def strip_suffix_def str_starts_with_def str_ends_with_def

lemma two_snippets_expand:
  "expand (Suc (Suc (Suc 0))) no_files None [] 0 two_snippets [import_of ''a''] = Done ([plain ''d'', plain ''c''], two_snippets)"
  by (simp add: evaluate_imports ascii_def)

theorem expansion_is_final_witness:
  "list_all import_free [plain ''d'', plain ''c''] \<and>
   expand 0 no_files None [] 0 Map.empty [plain ''d'', plain ''c''] = Done ([plain ''d'', plain ''c''], Map.empty)"
  using expansion_is_final [OF two_snippets_expand, of 0 no_files None "[]" Map.empty] by (simp add: max_import_depth_def)

theorem import_expansion_terminates_witness:
  "(\<exists>e. expand (Suc (Suc (Suc 0))) no_files None [] 0 two_snippets [import_of ''a''] = Failed e) \<or>
   (\<exists>out snippets'. expand (Suc (Suc (Suc 0))) no_files None [] 0 two_snippets [import_of ''a''] = Done (out, snippets'))"
proof (rule import_expansion_terminates)
  show "finite {ascii ''a'', ascii ''b''}" by simp
  show "names_within no_files {ascii ''a'', ascii ''b''}" by (simp add: names_within_def no_files_def)
  show "dom two_snippets \<subseteq> {ascii ''a'', ascii ''b''}" by (auto simp: two_snippets_def split: if_splits)
  show "card {ascii ''a'', ascii ''b''} < Suc (Suc (Suc 0))" by (simp add: ascii_def)
qed

lemma looping_snippet:
  "expand (Suc (Suc 0)) no_files None [] 0 [ascii ''a'' \<mapsto> [import_of ''a'']] [import_of ''a''] =
     Failed (RecursiveSnippet [ascii ''a'', ascii ''a''])"
  by (simp add: evaluate_imports ascii_def)


theorem arguments_replace_their_placeholders_witness:
  "replace_args [ascii ''p'', ascii ''q''] (pieces_text [Bracket 1, Literal (ascii ''-''), Dotted 0, Bracket 5, Bracket 1]) = ascii ''q-pq''"
  using arguments_replace_their_placeholders
    [of "[Bracket 1, Literal (ascii ''-''), Dotted 0, Bracket 5, Bracket 1]" "[ascii ''p'', ascii ''q'']"]
  by (simp add: ascii_def)

end
