(* ===== verification/Adapter_Pass.thy ===== *)
theory Adapter_Pass
  imports Imports "HOL-Library.Multiset"
begin

text \<open>
  The first pass of the adapter (\<open>pingclair-config/src/caddyfile/adapter/mod.rs\<close>, \<open>adapt_from\<close> up to the typed tree):
  the registry of directive names (\<open>registry.rs\<close>), named routes and their invocations, and the site that is written
  without braces. Only the descent into the body of a named route costs fuel;
  \<open>expand_named_routes_return\<close> shows that the number of named routes is enough.
\<close>

section \<open>The registry\<close>

datatype support = Implemented | Recognised

record spec =
  spec_name :: string
  spec_support :: support

definition implemented :: "string \<Rightarrow> spec" where
  "implemented name = \<lparr>spec_name = name, spec_support = Implemented\<rparr>"

definition recognised :: "string \<Rightarrow> spec" where
  "recognised name = \<lparr>spec_name = name, spec_support = Recognised\<rparr>"

definition directives :: "spec list" where
  "directives =
     [implemented ''abort'', implemented ''access_control'', implemented ''acme_server'', implemented ''basic_auth'',
      implemented ''basicauth'', implemented ''bind'', implemented ''compress'', implemented ''cors'',
      implemented ''encode'', implemented ''error'', implemented ''error_page'', implemented ''file_server'',
      implemented ''forward_auth'', implemented ''gzip_types'', implemented ''handle'',
      implemented ''handle_errors'', implemented ''handle_path'', implemented ''header'', implemented ''import'',
      implemented ''intercept'', implemented ''invoke'', implemented ''limits'', implemented ''listen'',
      implemented ''log'', implemented ''log_append'', implemented ''log_name'', implemented ''log_skip'',
      implemented ''map'', implemented ''method'', implemented ''metrics'', implemented ''php_fastcgi'',
      implemented ''rate_limit'', implemented ''redir'', implemented ''redirect'', implemented ''request_body'',
      implemented ''request_header'', implemented ''respond'', implemented ''reverse_proxy'',
      implemented ''rewrite'', implemented ''root'', implemented ''route'', implemented ''templates'',
      implemented ''tls'', implemented ''try_files'', implemented ''uri'', implemented ''vars'',
      recognised ''copy_response'', recognised ''copy_response_headers'', recognised ''fs'', recognised ''push'',
      recognised ''skip_log'', recognised ''tracing'']"

definition global_options :: "spec list" where
  "global_options =
     [implemented ''acme_dns'', implemented ''admin'', implemented ''auto_https'', implemented ''client_ip_headers'',
      implemented ''debug'', implemented ''default_bind'', implemented ''default_sni'', implemented ''dns'',
      implemented ''dns_refresh'', implemented ''email'', implemented ''expected_underscore_headers'',
      implemented ''grace_period'', implemented ''http_port'', implemented ''https_port'',
      implemented ''local_certs'', implemented ''log'', implemented ''metrics'', implemented ''ocsp_stapling'',
      implemented ''order'', implemented ''persist_config'', implemented ''pki'', implemented ''protocols'',
      implemented ''renewal_window_ratio'', implemented ''servers'', implemented ''skip_install_trust'',
      implemented ''storage'', implemented ''tls_resolvers'', implemented ''trusted_proxies'',
      recognised ''acme_ca'', recognised ''acme_ca_root'', recognised ''acme_eab'', recognised ''cert_issuer'',
      recognised ''cert_lifetime'', recognised ''ech'', recognised ''events'', recognised ''fallback_sni'',
      recognised ''filesystem'', recognised ''frankenphp'', recognised ''key_type'', recognised ''ocsp_interval'',
      recognised ''on_demand_tls'', recognised ''preferred_chains'', recognised ''renew_interval'',
      recognised ''shutdown_delay'', recognised ''storage_clean_interval'']"

definition directive_spec :: "chars \<Rightarrow> spec option" where
  "directive_spec name = find (\<lambda>s. ascii (spec_name s) = name) directives"

definition global_option :: "chars \<Rightarrow> spec option" where
  "global_option name = find (\<lambda>s. ascii (spec_name s) = name) global_options"

definition is_implemented_directive :: "chars \<Rightarrow> bool" where
  "is_implemented_directive name = (case directive_spec name of None \<Rightarrow> False | Some s \<Rightarrow> spec_support s = Implemented)"

definition recognised_but_unimplemented :: "string list" where
  "recognised_but_unimplemented = map spec_name (filter (\<lambda>s. spec_support s = Recognised) (directives @ global_options))"

definition is_directive_name :: "chars \<Rightarrow> bool" where
  "is_directive_name name \<longleftrightarrow> directive_spec name \<noteq> None"

section \<open>Named routes\<close>

type_synonym named_route_map = "chars \<rightharpoonup> directive list"

definition named_route_definition :: "chars \<Rightarrow> bool" where
  "named_route_definition name \<longleftrightarrow> str_starts_with name (ascii ''&('') \<and> str_ends_with name (ascii '')'')"

definition collect_named_routes :: "directive list \<Rightarrow> named_route_map \<times> directive list" where
  "collect_named_routes ds =
     (fold (\<lambda>d named. named(butlast (drop 2 (d_name d)) \<mapsto> block_directives d))
        (filter (\<lambda>d. named_route_definition (d_name d)) ds) Map.empty,
      filter (\<lambda>d. \<not> named_route_definition (d_name d)) ds)"

definition invoke_name :: chars where
  "invoke_name = ascii ''invoke''"

fun routes :: "(chars \<Rightarrow> directive list outcome) \<Rightarrow> directive list \<Rightarrow> directive list outcome" where
  "routes invoked [] = Done []"
| "routes invoked (Directive name args block run # ds) =
     and_then
       (if name = invoke_name then
          (if block \<noteq> None then Failed (BlockNotAllowed invoke_name)
           else (case args of [route] \<Rightarrow> invoked route | _ \<Rightarrow> Failed (ArgumentCount invoke_name 1 (length args))))
        else
          (case block of
             None \<Rightarrow> Done [Directive name args None run]
           | Some b \<Rightarrow> and_then (routes invoked b) (\<lambda>b. Done [Directive name args (Some b) run])))
       (\<lambda>out. and_then (routes invoked ds) (\<lambda>rest. Done (out @ rest)))"

fun expand_named_routes :: "nat \<Rightarrow> named_route_map \<Rightarrow> chars list \<Rightarrow> directive list \<Rightarrow> directive list outcome" where
  "expand_named_routes fuel named stack ds =
     routes
       (\<lambda>name.
          if name \<in> set stack then Failed (RecursiveNamedRoute name)
          else
            (case named name of
               None \<Rightarrow> Failed (UndefinedNamedRoute name)
             | Some body \<Rightarrow> (case fuel of 0 \<Rightarrow> OutOfFuel | Suc fuel \<Rightarrow> expand_named_routes fuel named (stack @ [name]) body)))
       ds"

declare expand_named_routes.simps [simp del]

section \<open>A site without braces\<close>

definition is_global :: "directive \<Rightarrow> bool" where
  "is_global d \<longleftrightarrow> d_name d = [] \<or> d_name d = ascii ''global'' \<or> d_name d = ascii ''options''"

definition is_bare :: "directive \<Rightarrow> bool" where
  "is_bare d \<longleftrightarrow> \<not> is_global d \<and> (is_directive_name (d_name d) \<or> d_block d = None)"

definition is_braced_site :: "directive \<Rightarrow> bool" where
  "is_braced_site d \<longleftrightarrow> \<not> is_global d \<and> \<not> is_directive_name (d_name d) \<and> d_block d \<noteq> None"

definition site_address :: chars where
  "site_address = ascii ''site address''"

definition coalesce_bare_single_site :: "directive list \<Rightarrow> directive list outcome" where
  "coalesce_bare_single_site ds =
     (let globals = filter is_global ds; bare = filter is_bare ds; braced_sites = filter is_braced_site ds
      in case bare of
           [] \<Rightarrow> Done (globals @ braced_sites)
         | site # rest \<Rightarrow>
             if braced_sites \<noteq> [] then Failed (InvalidArgument site_address BareMixedWithBraced)
             else if is_directive_name (d_name site) then Failed (InvalidArgument site_address (DirectiveAsSite (d_name site)))
             else Done (globals @ [if rest = [] then site else with_block rest site]))"

section \<open>The first pass\<close>

definition adapt_pass :: "nat \<Rightarrow> import_fs \<Rightarrow> path option \<Rightarrow> directive list \<Rightarrow> directive list outcome" where
  "adapt_pass fuel fs base ds =
     (case collect_named_routes ds of
        (named, ds) \<Rightarrow>
          (case collect_snippets ds of
             (snippets, remaining) \<Rightarrow>
               and_then (expand fuel fs base [] 0 snippets remaining) (\<lambda>(expanded, _).
               and_then (expand_named_routes fuel named [] expanded) coalesce_bare_single_site)))"

section \<open>What the registry promises\<close>

lemma registry_names_distinct: "distinct (map spec_name directives)" "distinct (map spec_name global_options)"
  by (simp_all add: directives_def global_options_def implemented_def recognised_def)

section \<open>Invocations\<close>

fun invoke_free :: "directive \<Rightarrow> bool" where
  "invoke_free (Directive name args block run) \<longleftrightarrow>
     name \<noteq> invoke_name \<and> (case block of None \<Rightarrow> True | Some ds \<Rightarrow> list_all invoke_free ds)"

definition returns_with :: "('a \<Rightarrow> bool) \<Rightarrow> 'a outcome \<Rightarrow> bool" where
  "returns_with P r \<longleftrightarrow> (case r of OutOfFuel \<Rightarrow> False | Failed e \<Rightarrow> True | Done x \<Rightarrow> P x)"

lemma returns_with_simps [simp]:
  "\<not> returns_with P OutOfFuel" "returns_with P (Failed e)" "returns_with P (Done x) \<longleftrightarrow> P x"
  by (simp_all add: returns_with_def)

lemma returns_with_then:
  "returns_with Q r \<Longrightarrow> (\<And>x. r = Done x \<Longrightarrow> Q x \<Longrightarrow> returns_with P (f x)) \<Longrightarrow> returns_with P (and_then r f)"
  by (cases r) auto

lemma routes_return:
  "(\<And>name. returns_with (list_all invoke_free) (invoked name)) \<Longrightarrow> returns_with (list_all invoke_free) (routes invoked ds)"
proof (induction invoked ds rule: routes.induct [case_names Nil Cons])
  case (Cons invoked name args block run ds)
  have block: "returns_with (list_all invoke_free) (and_then (routes invoked b) (\<lambda>b. Done [Directive name args (Some b) run]))"
    if "name \<noteq> invoke_name" "block = Some b" for b
    by (rule returns_with_then [OF Cons.IH(1) [OF that Cons.prems]]) (simp add: that)
  have head: "returns_with (list_all invoke_free)
      (if name = invoke_name then
         (if block \<noteq> None then Failed (BlockNotAllowed invoke_name)
          else (case args of [route] \<Rightarrow> invoked route | _ \<Rightarrow> Failed (ArgumentCount invoke_name 1 (length args))))
       else
         (case block of
            None \<Rightarrow> Done [Directive name args None run]
          | Some b \<Rightarrow> and_then (routes invoked b) (\<lambda>b. Done [Directive name args (Some b) run])))"
    using block Cons.prems by (auto split: list.split option.split)
  show ?case
    unfolding routes.simps
  proof (rule returns_with_then [OF head])
    fix out assume free: "list_all invoke_free out"
    assume "(if name = invoke_name then
         (if block \<noteq> None then Failed (BlockNotAllowed invoke_name)
          else (case args of [route] \<Rightarrow> invoked route | _ \<Rightarrow> Failed (ArgumentCount invoke_name 1 (length args))))
       else
         (case block of
            None \<Rightarrow> Done [Directive name args None run]
          | Some b \<Rightarrow> and_then (routes invoked b) (\<lambda>b. Done [Directive name args (Some b) run]))) = Done out"
    then have "returns_with (list_all invoke_free) (routes invoked ds)" using Cons.IH(2) Cons.prems by blast
    then show "returns_with (list_all invoke_free) (and_then (routes invoked ds) (\<lambda>rest. Done (out @ rest)))"
      by (rule returns_with_then) (simp add: free)
  qed
qed simp

lemma expand_named_routes_return:
  assumes "finite (dom named)"
  shows "distinct stack \<Longrightarrow> set stack \<subseteq> dom named \<Longrightarrow> card (dom named) \<le> fuel + length stack \<Longrightarrow>
    returns_with (list_all invoke_free) (expand_named_routes fuel named stack ds)"
proof (induction fuel arbitrary: stack ds)
  case 0
  have "set stack = dom named"
    using card_subset_eq [OF assms 0(2)] 0(1,3) card_mono [OF assms 0(2)] by (simp add: distinct_card)
  then show ?case by (subst expand_named_routes.simps) (auto intro!: routes_return split: option.split)
next
  case (Suc fuel)
  have "returns_with (list_all invoke_free) (expand_named_routes fuel named (stack @ [name]) body)"
    if "name \<notin> set stack" "named name = Some body" for name body
    using that Suc.prems by (intro Suc.IH) auto
  then show ?case by (subst expand_named_routes.simps) (auto intro!: routes_return split: option.split)
qed

text \<open>Invoking named routes always ends: with as much fuel as there are named routes the expansion gives a result or
  an error, and a result has no \<open>invoke\<close> left at any depth.\<close>

theorem invocations_terminate:
  assumes "finite (dom named)" and "card (dom named) \<le> fuel"
  shows "(\<exists>e. expand_named_routes fuel named [] ds = Failed e) \<or>
    (\<exists>out. expand_named_routes fuel named [] ds = Done out \<and> list_all invoke_free out)"
  using expand_named_routes_return [OF assms(1), of "[]" fuel ds] assms(2)
  by (cases "expand_named_routes fuel named [] ds") auto

section \<open>Sites without braces\<close>

lemma top_level_kinds:
  "\<not> (is_global d \<and> is_bare d)" "\<not> (is_global d \<and> is_braced_site d)" "\<not> (is_bare d \<and> is_braced_site d)"
  "is_global d \<or> is_bare d \<or> is_braced_site d"
  by (auto simp: is_bare_def is_braced_site_def)

lemma partition_mset:
  "mset ds = mset (filter is_global ds) + mset (filter is_bare ds) + mset (filter is_braced_site ds)"
  using top_level_kinds by (induction ds) (auto simp: is_bare_def is_braced_site_def)


section \<open>The pass as a whole\<close>

lemma dom_fold_upd: "dom (fold (\<lambda>d m. m(k d \<mapsto> v d)) ds m) = dom m \<union> k ` set ds"
  by (induction ds arbitrary: m) auto

lemma named_routes_few: "finite (dom (fst (collect_named_routes ds)))" "card (dom (fst (collect_named_routes ds))) \<le> length ds"
proof -
  let ?found = "filter (\<lambda>d. named_route_definition (d_name d)) ds"
  have dom: "dom (fst (collect_named_routes ds)) = (\<lambda>d. butlast (drop 2 (d_name d))) ` set ?found"
    by (simp add: collect_named_routes_def dom_fold_upd)
  show "finite (dom (fst (collect_named_routes ds)))" by (simp only: dom finite_imageI finite_set)
  have "card (dom (fst (collect_named_routes ds))) \<le> card (set ?found)" unfolding dom by (rule card_image_le) simp
  also have "\<dots> \<le> length ?found" by (rule card_length)
  also have "\<dots> \<le> length ds" by simp
  finally show "card (dom (fst (collect_named_routes ds))) \<le> length ds" .
qed

lemma coalesce_returns:
  assumes "list_all invoke_free ds"
  shows "returns_with (list_all invoke_free) (coalesce_bare_single_site ds)"
proof -
  have "invoke_free (with_block rest site)" if "filter is_bare ds = site # rest" for site rest
  proof -
    have "set (site # rest) \<subseteq> set ds" unfolding that [symmetric] by auto
    then show ?thesis using assms by (cases site) (auto simp: list_all_iff)
  qed
  moreover have "invoke_free site" if "filter is_bare ds = site # rest" for site rest
  proof -
    have "site \<in> set (filter is_bare ds)" unfolding that by simp
    then show ?thesis using assms by (auto simp: list_all_iff)
  qed
  ultimately show ?thesis
    using assms by (auto simp: coalesce_bare_single_site_def Let_def list_all_iff split: list.split)
qed

text \<open>C23: the first pass over a configuration always ends. With more fuel than there are names of snippets and readable
  files and top-level directives, imports, invocations and the gathering of an unbraced site give a tree without any
  \<open>invoke\<close>, or an error.\<close>

theorem first_pass_ends:
  assumes "finite U" and "names_within fs U"
    and "dom (fst (collect_snippets (snd (collect_named_routes ds)))) \<subseteq> U" and "card U + length ds < fuel"
  shows "(\<exists>e. adapt_pass fuel fs base ds = Failed e) \<or>
    (\<exists>out. adapt_pass fuel fs base ds = Done out \<and> list_all invoke_free out)"
proof -
  obtain named ds' where routes: "collect_named_routes ds = (named, ds')" by fastforce
  obtain snippets remaining where snippets: "collect_snippets ds' = (snippets, remaining)" by fastforce
  have imported: "ends_within U (expand fuel fs base [] 0 snippets remaining)"
    using assms routes snippets by (intro expand_ends) auto
  have invocations: "returns_with (list_all invoke_free) (expand_named_routes fuel named [] expanded)" for expanded
    using named_routes_few [of ds] routes assms(4) by (intro expand_named_routes_return) auto
  have "returns_with (list_all invoke_free) (adapt_pass fuel fs base ds)"
  proof (cases "expand fuel fs base [] 0 snippets remaining")
    case (Done x)
    have "returns_with (list_all invoke_free) (and_then (expand_named_routes fuel named [] (fst x)) coalesce_bare_single_site)"
      by (rule returns_with_then [OF invocations]) (rule coalesce_returns)
    then show ?thesis by (simp add: adapt_pass_def routes snippets Done case_prod_beta)
  qed (use imported in \<open>simp_all add: adapt_pass_def routes snippets\<close>)
  then show ?thesis by (cases "adapt_pass fuel fs base ds") auto
qed

section \<open>Examples\<close>

definition named_config :: "directive list" where
  "named_config =
     [Directive (ascii ''&(r)'') [] (Some [import_of ''s'']) token_run_synthetic,
      Directive (ascii ''(s)'') [] (Some [plain ''respond'']) token_run_synthetic,
      Directive (ascii ''site'') [] (Some [Directive invoke_name [ascii ''r''] None token_run_synthetic]) token_run_synthetic]"

lemmas evaluate_pass =
  evaluate_imports adapt_pass_def collect_named_routes_def collect_snippets_def named_route_definition_def snippet_name_def
  block_directives_def invoke_name_def expand_named_routes.simps coalesce_bare_single_site_def is_global_def is_bare_def
  is_braced_site_def is_directive_name_def directive_spec_def directives_def implemented_def recognised_def Let_def

lemma named_route_keeps_its_imports:
  "adapt_pass (Suc (Suc 0)) no_files None named_config =
     Done [Directive (ascii ''site'') [] (Some [import_of ''s'']) token_run_synthetic]"
  by (simp add: named_config_def evaluate_pass ascii_def)

theorem invocations_terminate_witness:
  "(\<exists>e. expand_named_routes (Suc 0) [ascii ''r'' \<mapsto> [plain ''respond'']] [] [plain ''respond''] = Failed e) \<or>
   (\<exists>out. expand_named_routes (Suc 0) [ascii ''r'' \<mapsto> [plain ''respond'']] [] [plain ''respond''] = Done out \<and> list_all invoke_free out)"
  by (rule invocations_terminate) simp_all

lemma unbraced_site:
  "coalesce_bare_single_site [plain ''localhost'', plain ''respond''] = Done [with_block [plain ''respond''] (plain ''localhost'')]"
  by (simp add: evaluate_pass ascii_def)


theorem first_pass_ends_witness:
  "(\<exists>e. adapt_pass 5 no_files None named_config = Failed e) \<or>
   (\<exists>out. adapt_pass 5 no_files None named_config = Done out \<and> list_all invoke_free out)"
proof (rule first_pass_ends)
  show "finite {ascii ''s''}" by simp
  show "names_within no_files {ascii ''s''}" by (simp add: names_within_def no_files_def)
  show "dom (fst (collect_snippets (snd (collect_named_routes named_config)))) \<subseteq> {ascii ''s''}"
    by (simp add: named_config_def evaluate_pass ascii_def)
  show "card {ascii ''s''} + length named_config < 5" by (simp add: named_config_def)
qed

end
