(* ===== verification/Overload.thy ===== *)
theory Overload
  imports Prelude
begin

text \<open>
  Admission to a reverse-proxy route and to one of its backends (\<open>pingclair-proxy/src/overload.rs\<close>, with the
  policies of \<open>pingclair-core/src/config/types.rs\<close> and their bounds in \<open>validate_proxy_protection_handler\<close> of
  \<open>pingclair-config/src/compiler.rs\<close>). A semaphore is the number of its free permits, the clock is an argument
  in nanoseconds, and a guard that releases something when it is dropped is a value of the state until the step that drops it.
  The tasks of the runtime interleave as the step relations \<open>route_step\<close> and \<open>backend_step\<close>. Metrics and log
  lines are left out.
\<close>

section \<open>Policies\<close>

record overload_config =
  max_in_flight :: "nat option"
  max_pending :: nat
  pending_timeout_ms :: nat
  upstream_max_connections :: "nat option"

definition overload_default :: overload_config where
  "overload_default =
     \<lparr>max_in_flight = None, max_pending = 0, pending_timeout_ms = 1000, upstream_max_connections = None\<rparr>"

record breaker_config =
  failure_threshold :: "nat option"
  error_rate_percent :: "nat option"
  minimum_requests :: nat
  window_requests :: nat
  open_duration_ms :: nat
  half_open_requests :: nat
  failure_statuses :: "nat list"

definition breaker_enabled :: "breaker_config \<Rightarrow> bool" where
  "breaker_enabled c \<longleftrightarrow> failure_threshold c \<noteq> None \<or> error_rate_percent c \<noteq> None"

definition breaker_default :: breaker_config where
  "breaker_default =
     \<lparr>failure_threshold = None, error_rate_percent = None, minimum_requests = 20, window_requests = 100,
      open_duration_ms = 30000, half_open_requests = 1, failure_statuses = []\<rparr>"

datatype policy_error =
    OverloadLimits
  | PendingNeedsInFlight
  | NoActiveLimit
  | PendingTimeout
  | BreakerNeedsThreshold
  | ConsecutiveOutOfRange
  | ErrorRateOutOfRange
  | WindowOutOfRange
  | RecoveryOutOfRange
  | FailureStatuses

definition outside :: "nat option \<Rightarrow> nat \<Rightarrow> nat \<Rightarrow> bool" where
  "outside v lo hi = (case v of None \<Rightarrow> False | Some n \<Rightarrow> n < lo \<or> hi < n)"

definition validate_protection :: "overload_config \<Rightarrow> breaker_config \<Rightarrow> policy_error option" where
  "validate_protection overload breaker =
     (if outside (max_in_flight overload) 1 1000000 \<or> outside (upstream_max_connections overload) 1 1000000 \<or>
         1000000 < max_pending overload then Some OverloadLimits
      else if 0 < max_pending overload \<and> max_in_flight overload = None then Some PendingNeedsInFlight
      else if overload \<noteq> overload_default \<and> max_in_flight overload = None \<and> max_pending overload = 0 \<and>
         upstream_max_connections overload = None then Some NoActiveLimit
      else if 0 < max_pending overload \<and> (pending_timeout_ms overload = 0 \<or> 31536000000 < pending_timeout_ms overload)
      then Some PendingTimeout
      else if \<not> breaker_enabled breaker \<and> breaker \<noteq> breaker_default then Some BreakerNeedsThreshold
      else if outside (failure_threshold breaker) 1 1000000 then Some ConsecutiveOutOfRange
      else if outside (error_rate_percent breaker) 1 100 then Some ErrorRateOutOfRange
      else if breaker_enabled breaker \<and>
         (minimum_requests breaker = 0 \<or> window_requests breaker = 0 \<or>
          window_requests breaker < minimum_requests breaker \<or> 10000 < window_requests breaker) then Some WindowOutOfRange
      else if breaker_enabled breaker \<and>
         (open_duration_ms breaker = 0 \<or> 31536000000 < open_duration_ms breaker \<or>
          half_open_requests breaker = 0 \<or> 1000 < half_open_requests breaker) then Some RecoveryOutOfRange
      else if list_ex (\<lambda>s. \<not> (400 \<le> s \<and> s \<le> 599)) (failure_statuses breaker) \<or> 200 < length (failure_statuses breaker) \<or>
         \<not> distinct (failure_statuses breaker) then Some FailureStatuses
      else None)"

datatype admission_error = QueueFull | QueueTimeout | UpstreamCapacity | CircuitOpen

fun metric_reason :: "admission_error \<Rightarrow> bytes" where
  "metric_reason QueueFull = ''queue_full''"
| "metric_reason QueueTimeout = ''queue_timeout''"
| "metric_reason UpstreamCapacity = ''upstream_capacity''"
| "metric_reason CircuitOpen = ''circuit_open''"

section \<open>The circuit of a backend\<close>

datatype circuit_phase = Closed | HalfOpen | Open

record circuit_inner =
  phase :: circuit_phase
  open_until :: "nat option"
  consecutive_failures :: nat
  outcomes :: "bool list"
  half_open_in_flight :: nat
  half_open_successes :: nat

definition circuit_new :: circuit_inner where
  "circuit_new =
     \<lparr>phase = Closed, open_until = None, consecutive_failures = 0, outcomes = [],
      half_open_in_flight = 0, half_open_successes = 0\<rparr>"

definition circuit_open :: "breaker_config \<Rightarrow> nat \<Rightarrow> circuit_inner \<Rightarrow> circuit_inner" where
  "circuit_open config now inner =
     inner\<lparr>phase := Open, open_until := Some (now + open_duration_ms config * 1000000),
           half_open_in_flight := 0, half_open_successes := 0\<rparr>"

text \<open>Whether the admission is a probe, and the circuit after it.\<close>

definition circuit_admit :: "breaker_config \<Rightarrow> nat \<Rightarrow> circuit_inner \<Rightarrow> (admission_error + bool) \<times> circuit_inner" where
  "circuit_admit config now inner =
     (case phase inner of
        Closed \<Rightarrow> (Inr False, inner)
      | Open \<Rightarrow>
          if (case open_until inner of None \<Rightarrow> False | Some until \<Rightarrow> now < until) then (Inl CircuitOpen, inner)
          else (Inr True, inner\<lparr>phase := HalfOpen, half_open_in_flight := 1, half_open_successes := 0\<rparr>)
      | HalfOpen \<Rightarrow>
          if half_open_requests config \<le> half_open_in_flight inner then (Inl CircuitOpen, inner)
          else (Inr True, inner\<lparr>half_open_in_flight := half_open_in_flight inner + 1\<rparr>))"

definition record_outcome :: "breaker_config \<Rightarrow> bool \<Rightarrow> circuit_inner \<Rightarrow> circuit_inner" where
  "record_outcome config success inner =
     (let pushed = outcomes inner @ [success];
          kept = (if window_requests config < length pushed then tl pushed else pushed)
      in inner\<lparr>outcomes := kept,
               consecutive_failures := (if success then 0 else min (consecutive_failures inner + 1) (2 ^ 32 - 1))\<rparr>)"

definition consecutive_open :: "breaker_config \<Rightarrow> circuit_inner \<Rightarrow> bool" where
  "consecutive_open config inner =
     (case failure_threshold config of None \<Rightarrow> False | Some threshold \<Rightarrow> threshold \<le> consecutive_failures inner)"

definition ratio_open :: "breaker_config \<Rightarrow> circuit_inner \<Rightarrow> bool" where
  "ratio_open config inner =
     (case error_rate_percent config of
        None \<Rightarrow> False
      | Some threshold \<Rightarrow>
          minimum_requests config \<le> length (outcomes inner) \<and>
          threshold * length (outcomes inner) \<le> length (filter Not (outcomes inner)) * 100)"

definition circuit_complete :: "breaker_config \<Rightarrow> nat \<Rightarrow> bool \<Rightarrow> bool \<Rightarrow> circuit_inner \<Rightarrow> circuit_inner" where
  "circuit_complete config now probe success inner =
     (if probe then
        (let inner = inner\<lparr>half_open_in_flight := half_open_in_flight inner - 1\<rparr>
         in if phase inner \<noteq> HalfOpen then inner
            else if \<not> success then circuit_open config now inner
            else
              (let inner = inner\<lparr>half_open_successes := half_open_successes inner + 1\<rparr>
               in if half_open_requests config \<le> half_open_successes inner then
                    inner\<lparr>phase := Closed, open_until := None, consecutive_failures := 0, outcomes := []\<rparr>
                  else inner))
      else if phase inner \<noteq> Closed then inner
      else
        (let inner = record_outcome config success inner
         in if consecutive_open config inner \<or> ratio_open config inner then circuit_open config now inner else inner))"

definition abandon_probe :: "circuit_inner \<Rightarrow> circuit_inner" where
  "abandon_probe inner =
     (if phase inner = HalfOpen then inner\<lparr>half_open_in_flight := half_open_in_flight inner - 1\<rparr> else inner)"

section \<open>Backends\<close>

record circuit_admission =
  probe :: bool
  reported :: bool

record upstream_admission =
  permit :: bool
  circuit :: "circuit_admission option"

record backend_protection =
  slots :: "nat option"
  breaker :: "circuit_inner option"

definition backend_new :: "nat option \<Rightarrow> breaker_config \<Rightarrow> backend_protection" where
  "backend_new max_connections config =
     \<lparr>slots = max_connections, breaker = (if breaker_enabled config then Some circuit_new else None)\<rparr>"

text \<open>Dropping the circuit's half of an admission.\<close>

definition drop_circuit :: "circuit_admission option \<Rightarrow> backend_protection \<Rightarrow> backend_protection" where
  "drop_circuit c backend =
     (case c of
        Some c \<Rightarrow> if probe c \<and> \<not> reported c then backend\<lparr>breaker := map_option abandon_probe (breaker backend)\<rparr> else backend
      | None \<Rightarrow> backend)"

definition backend_admit ::
    "breaker_config \<Rightarrow> nat \<Rightarrow> backend_protection \<Rightarrow> (admission_error + upstream_admission) \<times> backend_protection" where
  "backend_admit config now backend =
     (case (case breaker backend of
              None \<Rightarrow> (Inr None, backend)
            | Some inner \<Rightarrow>
                (case circuit_admit config now inner of
                   (Inl e, inner) \<Rightarrow> (Inl e, backend\<lparr>breaker := Some inner\<rparr>)
                 | (Inr p, inner) \<Rightarrow> (Inr (Some \<lparr>probe = p, reported = False\<rparr>), backend\<lparr>breaker := Some inner\<rparr>))) of
        (Inl e, backend) \<Rightarrow> (Inl e, backend)
      | (Inr c, backend) \<Rightarrow>
          (case slots backend of
             None \<Rightarrow> (Inr \<lparr>permit = False, circuit = c\<rparr>, backend)
           | Some n \<Rightarrow>
               if n = 0 then (Inl UpstreamCapacity, drop_circuit c backend)
               else (Inr \<lparr>permit = True, circuit = c\<rparr>, backend\<lparr>slots := Some (n - 1)\<rparr>)))"

definition report ::
    "breaker_config \<Rightarrow> nat \<Rightarrow> bool \<Rightarrow> upstream_admission \<Rightarrow> backend_protection \<Rightarrow> upstream_admission \<times> backend_protection" where
  "report config now success admission backend =
     (case circuit admission of
        None \<Rightarrow> (admission, backend)
      | Some c \<Rightarrow>
          if reported c then (admission, backend)
          else
            (admission\<lparr>circuit := Some (c\<lparr>reported := True\<rparr>)\<rparr>,
             backend\<lparr>breaker := map_option (circuit_complete config now (probe c) success) (breaker backend)\<rparr>))"

definition failed_status :: "breaker_config \<Rightarrow> nat \<Rightarrow> bool" where
  "failed_status config status =
     (if failure_statuses config = [] then 500 \<le> status \<and> status \<le> 599 else status \<in> set (failure_statuses config))"

definition report_status ::
    "breaker_config \<Rightarrow> nat \<Rightarrow> nat \<Rightarrow> upstream_admission \<Rightarrow> backend_protection \<Rightarrow> upstream_admission \<times> backend_protection" where
  "report_status config now status = report config now (\<not> failed_status config status)"

definition report_failure ::
    "breaker_config \<Rightarrow> nat \<Rightarrow> upstream_admission \<Rightarrow> backend_protection \<Rightarrow> upstream_admission \<times> backend_protection" where
  "report_failure config now = report config now False"

definition drop_admission :: "upstream_admission \<Rightarrow> backend_protection \<Rightarrow> backend_protection" where
  "drop_admission admission backend =
     (let backend = (if permit admission then backend\<lparr>slots := map_option Suc (slots backend)\<rparr> else backend)
      in drop_circuit (circuit admission) backend)"

record backend_world =
  clock :: nat
  backend :: backend_protection
  admissions :: "upstream_admission list"

definition world_new :: "nat option \<Rightarrow> breaker_config \<Rightarrow> nat \<Rightarrow> backend_world" where
  "world_new max_connections config now =
     \<lparr>clock = now, backend = backend_new max_connections config, admissions = []\<rparr>"

definition remove_at :: "nat \<Rightarrow> 'a list \<Rightarrow> 'a list" where
  "remove_at i xs = take i xs @ drop (i + 1) xs"

inductive backend_step :: "breaker_config \<Rightarrow> backend_world \<Rightarrow> backend_world \<Rightarrow> bool" for config where
  admit: "backend_admit config (clock w) (backend w) = (Inr a, b) \<Longrightarrow>
    backend_step config w (w\<lparr>backend := b, admissions := admissions w @ [a]\<rparr>)"
| refuse: "backend_admit config (clock w) (backend w) = (Inl e, b) \<Longrightarrow>
    backend_step config w (w\<lparr>backend := b\<rparr>)"
| report: "i < length (admissions w) \<Longrightarrow> report config (clock w) success (admissions w ! i) (backend w) = (a, b) \<Longrightarrow>
    backend_step config w (w\<lparr>backend := b, admissions := (admissions w)[i := a]\<rparr>)"
| finish: "i < length (admissions w) \<Longrightarrow>
    backend_step config w (w\<lparr>backend := drop_admission (admissions w ! i) (backend w), admissions := remove_at i (admissions w)\<rparr>)"
| tick: "backend_step config w (w\<lparr>clock := clock w + d\<rparr>)"

inductive_cases backend_stepE: "backend_step config w w'"

definition backend_runs :: "breaker_config \<Rightarrow> nat option \<Rightarrow> backend_world \<Rightarrow> bool" where
  "backend_runs config max_connections w \<longleftrightarrow> (\<exists>now. (backend_step config)\<^sup>*\<^sup>* (world_new max_connections config now) w)"

section \<open>The limits of a backend\<close>

definition is_probe :: "upstream_admission \<Rightarrow> bool" where
  "is_probe a = (case circuit a of None \<Rightarrow> False | Some c \<Rightarrow> probe c \<and> \<not> reported c)"

definition probes_out :: "upstream_admission list \<Rightarrow> nat" where
  "probes_out as = length (filter is_probe as)"

definition permits_out :: "upstream_admission list \<Rightarrow> nat" where
  "permits_out as = length (filter permit as)"

definition circuit_ok :: "breaker_config \<Rightarrow> nat \<Rightarrow> circuit_inner \<Rightarrow> bool" where
  "circuit_ok config out inner \<longleftrightarrow>
     length (outcomes inner) \<le> window_requests config \<and>
     (case phase inner of
        Closed \<Rightarrow> open_until inner = None
      | Open \<Rightarrow> open_until inner \<noteq> None \<and> half_open_in_flight inner = 0
      | HalfOpen \<Rightarrow>
          half_open_in_flight inner \<le> max 1 (half_open_requests config) \<and> half_open_in_flight inner \<le> out \<and>
          half_open_successes inner < max 1 (half_open_requests config))"

definition limits_ok :: "breaker_config \<Rightarrow> nat option \<Rightarrow> backend_world \<Rightarrow> bool" where
  "limits_ok config max_connections w \<longleftrightarrow>
     (case slots (backend w) of
        None \<Rightarrow> max_connections = None \<and> permits_out (admissions w) = 0
      | Some n \<Rightarrow> max_connections = Some (n + permits_out (admissions w))) \<and>
     (case breaker (backend w) of None \<Rightarrow> True | Some inner \<Rightarrow> circuit_ok config (probes_out (admissions w)) inner)"

lemma circuit_ok_new: "circuit_ok config 0 circuit_new"
  by (simp add: circuit_ok_def circuit_new_def)

lemma circuit_admit_ok:
  "circuit_ok config out inner \<Longrightarrow> circuit_admit config now inner = (r, inner') \<Longrightarrow>
    circuit_ok config (out + (case r of Inl e \<Rightarrow> 0 | Inr p \<Rightarrow> if p then 1 else 0)) inner'"
  by (cases "phase inner") (auto simp: circuit_ok_def circuit_admit_def split: if_splits)

lemma circuit_open_ok:
  "length (outcomes inner) \<le> window_requests config \<Longrightarrow> circuit_ok config out (circuit_open config now inner)"
  by (simp add: circuit_ok_def circuit_open_def)

lemma record_outcome_window:
  "length (outcomes inner) \<le> window_requests config \<Longrightarrow>
    length (outcomes (record_outcome config success inner)) \<le> window_requests config"
  by (auto simp: record_outcome_def Let_def)

lemma circuit_complete_ok:
  assumes "circuit_ok config out inner"
  shows "circuit_ok config (out - (if p then 1 else 0)) (circuit_complete config now p success inner)"
proof (cases p)
  case True
  have window: "length (outcomes inner) \<le> window_requests config" using assms by (simp add: circuit_ok_def)
  show ?thesis
    using assms True window
      circuit_open_ok [of "inner\<lparr>half_open_in_flight := half_open_in_flight inner - 1\<rparr>" config "out - 1" now]
    by (cases "phase inner") (auto simp: circuit_complete_def Let_def circuit_ok_def)
next
  case False
  have window: "length (outcomes (record_outcome config success inner)) \<le> window_requests config"
    using assms by (intro record_outcome_window) (simp add: circuit_ok_def)
  have keeps: "phase (record_outcome config success inner) = phase inner"
    "open_until (record_outcome config success inner) = open_until inner"
    by (simp_all add: record_outcome_def Let_def)
  show ?thesis
    using assms False window keeps circuit_open_ok [OF window, of out now]
    by (cases "phase inner") (auto simp: circuit_complete_def Let_def circuit_ok_def [of config out "record_outcome config success inner"]
        circuit_ok_def [of config out inner])
qed

lemma abandon_probe_ok: "circuit_ok config out inner \<Longrightarrow> circuit_ok config (out - 1) (abandon_probe inner)"
  by (cases "phase inner") (auto simp: circuit_ok_def abandon_probe_def)

lemma length_filter_update:
  assumes "i < length xs"
  shows "length (filter P (xs[i := a])) + (if P (xs ! i) then 1 else 0) = length (filter P xs) + (if P a then 1 else 0)"
proof -
  have "length (filter P xs) = length (filter P (take i xs @ xs ! i # drop (Suc i) xs))"
    using assms by (simp add: id_take_nth_drop [symmetric])
  then show ?thesis using assms by (simp add: upd_conv_take_nth_drop)
qed

lemma length_filter_remove:
  assumes "i < length xs"
  shows "length (filter P (remove_at i xs)) + (if P (xs ! i) then 1 else 0) = length (filter P xs)"
proof -
  have "length (filter P xs) = length (filter P (take i xs @ xs ! i # drop (Suc i) xs))"
    using assms by (simp add: id_take_nth_drop [symmetric])
  then show ?thesis by (simp add: remove_at_def)
qed

lemma backend_admit_ok:
  assumes "limits_ok config m w" and "backend_admit config (clock w) (backend w) = (r, b)"
  shows "limits_ok config m (w\<lparr>backend := b, admissions := admissions w @ (case r of Inl e \<Rightarrow> [] | Inr a \<Rightarrow> [a])\<rparr>)"
proof (cases "breaker (backend w)")
  case None
  then show ?thesis
    using assms by (auto simp: backend_admit_def limits_ok_def permits_out_def probes_out_def drop_circuit_def
        split: option.splits if_splits)
next
  case (Some inner)
  obtain r' inner' where admit: "circuit_admit config (clock w) inner = (r', inner')" by fastforce
  have ok: "circuit_ok config (probes_out (admissions w)) inner" using assms(1) Some by (simp add: limits_ok_def)
  note ok' = circuit_admit_ok [OF ok admit]
  show ?thesis
  proof (cases r')
    case (Inl e)
    then show ?thesis using assms Some admit ok' by (auto simp: backend_admit_def limits_ok_def split: option.splits)
  next
    case (Inr p)
    then show ?thesis
      using assms Some admit ok' abandon_probe_ok [OF ok']
      by (auto simp: backend_admit_def limits_ok_def permits_out_def probes_out_def is_probe_def drop_circuit_def
          split: option.splits if_splits)
  qed
qed

lemma report_ok:
  assumes "limits_ok config m w" and i: "i < length (admissions w)"
    and report: "report config now success (admissions w ! i) (backend w) = (a, b)"
  shows "limits_ok config m (w\<lparr>backend := b, admissions := (admissions w)[i := a]\<rparr>)"
proof (cases "case circuit (admissions w ! i) of None \<Rightarrow> True | Some c \<Rightarrow> reported c")
  case True
  then have "a = admissions w ! i" "b = backend w" using report by (auto simp: report_def split: option.splits)
  then show ?thesis using assms(1) by simp
next
  case False
  then obtain c where c: "circuit (admissions w ! i) = Some c" "\<not> reported c" by (auto split: option.splits)
  then have ab: "a = (admissions w ! i)\<lparr>circuit := Some (c\<lparr>reported := True\<rparr>)\<rparr>"
    "b = (backend w)\<lparr>breaker := map_option (circuit_complete config now (probe c) success) (breaker (backend w))\<rparr>"
    using report by (auto simp: report_def)
  have permits: "permits_out ((admissions w)[i := a]) = permits_out (admissions w)"
    using length_filter_update [OF i, of permit a] ab(1) by (simp add: permits_out_def)
  have probes: "probes_out ((admissions w)[i := a]) = probes_out (admissions w) - (if probe c then 1 else 0)"
    using length_filter_update [OF i, of is_probe a] c by (simp add: ab(1) probes_out_def is_probe_def)
  show ?thesis
    using assms(1) circuit_complete_ok [of config "probes_out (admissions w)" _ "probe c" now success]
    by (auto simp: limits_ok_def permits probes ab(2) split: option.splits)
qed

lemma drop_admission_ok:
  assumes "limits_ok config m w" and i: "i < length (admissions w)"
  shows "limits_ok config m
    (w\<lparr>backend := drop_admission (admissions w ! i) (backend w), admissions := remove_at i (admissions w)\<rparr>)"
proof -
  let ?a = "admissions w ! i"
  have permits: "permits_out (remove_at i (admissions w)) + (if permit ?a then 1 else 0) = permits_out (admissions w)"
    unfolding permits_out_def by (rule length_filter_remove [OF i])
  have probes: "probes_out (remove_at i (admissions w)) = probes_out (admissions w) - (if is_probe ?a then 1 else 0)"
    using length_filter_remove [OF i, of is_probe] by (auto simp: probes_out_def)
  have slots: "slots (drop_admission ?a (backend w)) =
      (if permit ?a then map_option Suc (slots (backend w)) else slots (backend w))"
    by (simp add: drop_admission_def drop_circuit_def Let_def split: option.split)
  have breaker: "breaker (drop_admission ?a (backend w)) =
      (if is_probe ?a then map_option abandon_probe (breaker (backend w)) else breaker (backend w))"
    by (simp add: drop_admission_def drop_circuit_def Let_def is_probe_def split: option.split)
  show ?thesis
    using assms(1) permits abandon_probe_ok [of config "probes_out (admissions w)"]
    by (auto simp: limits_ok_def slots breaker probes split: option.splits if_splits)
qed

lemma limits_ok_new: "limits_ok config m (world_new m config now)"
  by (simp add: limits_ok_def world_new_def backend_new_def permits_out_def probes_out_def circuit_ok_new split: option.split)

lemma backend_step_ok: "backend_step config w w' \<Longrightarrow> limits_ok config m w \<Longrightarrow> limits_ok config m w'"
proof (induction rule: backend_step.induct)
  case (admit w a b)
  then show ?case using backend_admit_ok [of config m w "Inr a" b] by simp
next
  case (refuse w e b)
  then show ?case using backend_admit_ok [of config m w "Inl e" b] by simp
next
  case (report i w success a b)
  then show ?case by (intro report_ok)
next
  case (finish i w)
  then show ?case by (intro drop_admission_ok)
next
  case (tick w d)
  then show ?case by (simp add: limits_ok_def split: option.splits)
qed

lemma backend_runs_ok:
  assumes "backend_runs config m w"
  shows "limits_ok config m w"
proof -
  obtain now where "(backend_step config)\<^sup>*\<^sup>* (world_new m config now) w" using assms by (auto simp: backend_runs_def)
  then show ?thesis by (induction rule: rtranclp_induct) (auto intro: limits_ok_new backend_step_ok)
qed

text \<open>C15: however requests are admitted, refused, reported and dropped at a backend, and however they interleave:
  the free slots and the admissions that hold a slot always add up to the configured number of connections;
  the outcome window never outgrows its bound; a closed circuit has no deadline and an open one has; and in a
  half-open round the count of probes in flight stays within the configured number and never exceeds the probes
  that are really outstanding.\<close>

theorem backend_limits_hold:
  assumes "backend_runs config max_connections w"
  shows "(case slots (backend w) of
            None \<Rightarrow> max_connections = None \<and> permits_out (admissions w) = 0
          | Some free \<Rightarrow> max_connections = Some (free + permits_out (admissions w))) \<and>
         (case breaker (backend w) of None \<Rightarrow> True | Some inner \<Rightarrow>
          length (outcomes inner) \<le> window_requests config \<and>
          (case phase inner of
             Closed \<Rightarrow> open_until inner = None
           | Open \<Rightarrow> open_until inner \<noteq> None \<and> half_open_in_flight inner = 0
           | HalfOpen \<Rightarrow>
               half_open_in_flight inner \<le> max 1 (half_open_requests config) \<and>
               half_open_in_flight inner \<le> probes_out (admissions w) \<and>
               half_open_successes inner < max 1 (half_open_requests config)))"
  using backend_runs_ok [OF assms] by (auto simp: limits_ok_def circuit_ok_def split: option.splits)

section \<open>When a circuit opens, and how it recovers\<close>

text \<open>What the whole history of a closed circuit says: the run of failures at its end, or the share of failures
  among its last requests.\<close>

definition history_opens :: "breaker_config \<Rightarrow> bool list \<Rightarrow> bool" where
  "history_opens config history \<longleftrightarrow>
     (case failure_threshold config of None \<Rightarrow> False | Some t \<Rightarrow> t \<le> length (takeWhile Not (rev history))) \<or>
     (case error_rate_percent config of
        None \<Rightarrow> False
      | Some percent \<Rightarrow>
          (let recent = drop (length history - window_requests config) history
           in minimum_requests config \<le> length recent \<and>
              percent * length recent \<le> 100 * length (filter Not recent)))"

definition observe :: "breaker_config \<Rightarrow> (nat \<times> bool) list \<Rightarrow> circuit_inner \<Rightarrow> circuit_inner" where
  "observe config history = fold (\<lambda>(now, success). circuit_complete config now False success) history"

definition evidence :: "breaker_config \<Rightarrow> bool list \<Rightarrow> circuit_inner" where
  "evidence config history = circuit_new
     \<lparr>consecutive_failures := min (length (takeWhile Not (rev history))) (2 ^ 32 - 1),
      outcomes := drop (length history - window_requests config) history\<rparr>"

lemma evidence_Nil: "evidence config [] = circuit_new"
  by (simp add: evidence_def circuit_new_def)

lemma window_slides:
  "w \<le> length h \<Longrightarrow> tl (drop (length h - w) h @ [s]) = drop (Suc (length h) - w) (h @ [s])"
proof -
  assume w: "w \<le> length h"
  have "drop (length h - w) h @ [s] = drop (length h - w) (h @ [s])" by simp
  then show ?thesis by (simp only: drop_Suc [symmetric] tl_drop Suc_diff_le [OF w])
qed

lemma record_outcome_evidence: "record_outcome config s (evidence config h) = evidence config (h @ [s])"
proof (cases "window_requests config \<le> length h")
  case True
  then show ?thesis
    using window_slides [OF True, of s]
    by (simp add: record_outcome_def evidence_def circuit_new_def Let_def min.assoc)
next
  case False
  then show ?thesis by (auto simp: record_outcome_def evidence_def circuit_new_def Let_def min.assoc)
qed

lemma evidence_opens:
  assumes "\<And>t. failure_threshold config = Some t \<Longrightarrow> t < 2 ^ 32"
  shows "consecutive_open config (evidence config h) \<or> ratio_open config (evidence config h) \<longleftrightarrow> history_opens config h"
proof -
  have "consecutive_open config (evidence config h) \<longleftrightarrow>
      (case failure_threshold config of None \<Rightarrow> False | Some t \<Rightarrow> t \<le> length (takeWhile Not (rev h)))"
    using assms by (fastforce simp: consecutive_open_def evidence_def split: option.splits)
  moreover have "ratio_open config (evidence config h) \<longleftrightarrow>
      (case error_rate_percent config of None \<Rightarrow> False | Some percent \<Rightarrow>
         (let recent = drop (length h - window_requests config) h
          in minimum_requests config \<le> length recent \<and> percent * length recent \<le> 100 * length (filter Not recent)))"
    by (simp add: ratio_open_def evidence_def Let_def mult.commute split: option.split)
  ultimately show ?thesis by (simp add: history_opens_def)
qed

lemma observe_snoc: "observe config (history @ [(now, s)]) inner = circuit_complete config now False s (observe config history inner)"
  by (simp add: observe_def)

definition ever_opens :: "breaker_config \<Rightarrow> bool list \<Rightarrow> bool" where
  "ever_opens config history \<longleftrightarrow> (\<exists>k<length history. history_opens config (take (Suc k) history))"

lemma ever_opens_Nil: "\<not> ever_opens config []"
  by (simp add: ever_opens_def)

lemma ever_opens_snoc: "ever_opens config (h @ [s]) \<longleftrightarrow> ever_opens config h \<or> history_opens config (h @ [s])"
  by (auto simp: ever_opens_def less_Suc_eq)

lemma observe_evidence:
  assumes "\<And>t. failure_threshold config = Some t \<Longrightarrow> t < 2 ^ 32"
  shows "if ever_opens config (map snd history) then phase (observe config history circuit_new) = Open
         else observe config history circuit_new = evidence config (map snd history)"
proof (induction history rule: rev_induct)
  case Nil
  then show ?case by (simp add: observe_def evidence_Nil ever_opens_Nil)
next
  case (snoc x history)
  obtain now s where x: "x = (now, s)" by fastforce
  have closed: "phase (evidence config h) = Closed" for h by (simp add: evidence_def circuit_new_def)
  show ?case
  proof (cases "ever_opens config (map snd history)")
    case True
    then show ?thesis using snoc.IH by (simp add: x observe_snoc circuit_complete_def ever_opens_snoc)
  next
    case False
    then show ?thesis
      using snoc.IH evidence_opens [of config "map snd history @ [s]"] assms
      by (simp add: x observe_snoc circuit_complete_def ever_opens_snoc closed record_outcome_evidence Let_def circuit_open_def)
  qed
qed

lemma validated_threshold: "validate_protection overload config = None \<Longrightarrow> failure_threshold config = Some t \<Longrightarrow> t < 2 ^ 32"
  by (auto simp: validate_protection_def outside_def split: if_splits)

text \<open>C17: the circuit of a validated policy, as long as it only sees ordinary completions, opens exactly at the first point where its whole
  history justifies it: the run of failures at the end has reached the threshold, or at least the minimum number of
  requests lies in the window and the failures among them reach the percentage. The saturating counter and the
  sliding window of the code lose nothing of that evidence.\<close>

theorem circuit_opens_on_evidence:
  assumes "validate_protection overload config = None"
  shows "phase (observe config history circuit_new) =
    (if \<exists>k<length history. history_opens config (take (Suc k) (map snd history)) then Open else Closed)"
  using observe_evidence [of config history] validated_threshold [OF assms]
  by (auto simp: ever_opens_def evidence_def circuit_new_def split: if_splits)

text \<open>One probe that is admitted and then reported successful.\<close>

definition good_probe :: "breaker_config \<Rightarrow> nat \<Rightarrow> circuit_inner \<Rightarrow> circuit_inner" where
  "good_probe config now inner =
     (case circuit_admit config now inner of
        (Inl e, inner) \<Rightarrow> inner
      | (Inr p, inner) \<Rightarrow> circuit_complete config now p True inner)"

lemma good_probe_open:
  "phase inner = Open \<Longrightarrow> open_until inner = Some until \<Longrightarrow> until \<le> now \<Longrightarrow> 0 < half_open_requests config \<Longrightarrow>
    good_probe config now inner =
      (if half_open_requests config = 1 then circuit_new\<lparr>half_open_successes := 1\<rparr>
       else inner\<lparr>phase := HalfOpen, half_open_in_flight := 0, half_open_successes := 1\<rparr>)"
  by (simp add: good_probe_def circuit_admit_def circuit_complete_def Let_def circuit_new_def)

lemma good_probe_half_open:
  "phase inner = HalfOpen \<Longrightarrow> half_open_in_flight inner = 0 \<Longrightarrow> 0 < half_open_requests config \<Longrightarrow>
    good_probe config now inner =
      (if half_open_requests config \<le> Suc (half_open_successes inner)
       then circuit_new\<lparr>half_open_successes := Suc (half_open_successes inner)\<rparr>
       else inner\<lparr>half_open_successes := Suc (half_open_successes inner)\<rparr>)"
  by (simp add: good_probe_def circuit_admit_def circuit_complete_def Let_def circuit_new_def)

lemma good_probe_rounds:
  assumes "phase inner = Open" and "open_until inner = Some until" and "until \<le> now" and "Suc k \<le> half_open_requests config"
  shows "(good_probe config now ^^ Suc k) inner =
    (if Suc k = half_open_requests config then circuit_new\<lparr>half_open_successes := Suc k\<rparr>
     else inner\<lparr>phase := HalfOpen, half_open_in_flight := 0, half_open_successes := Suc k\<rparr>)"
  using assms(4)
proof (induction k)
  case 0
  then show ?case using good_probe_open [OF assms(1-3), of config] by simp
next
  case (Suc k)
  then have "(good_probe config now ^^ Suc (Suc k)) inner =
      good_probe config now (inner\<lparr>phase := HalfOpen, half_open_in_flight := 0, half_open_successes := Suc k\<rparr>)" by simp
  then show ?case
    using Suc.prems by (simp add: good_probe_half_open del: funpow.simps)
qed

text \<open>C18: an open circuit refuses every request before its deadline and is left as it was; once the deadline has
  passed it admits a probe, a failed probe opens it again for the full duration, and the configured number of
  successful probes, and no fewer, closes it with all evidence cleared.\<close>

theorem open_circuit_recovers:
  assumes "phase inner = Open" and "open_until inner = Some until" and "before < until" and "until \<le> now"
    and "0 < k" and "k \<le> half_open_requests config"
  shows "circuit_admit config before inner = (Inl CircuitOpen, inner) \<and>
    (\<exists>probing. circuit_admit config now inner = (Inr True, probing) \<and> phase probing = HalfOpen \<and>
       circuit_complete config now True False probing = circuit_open config now inner) \<and>
    (good_probe config now ^^ k) inner =
      (if k = half_open_requests config then circuit_new\<lparr>half_open_successes := k\<rparr>
       else inner\<lparr>phase := HalfOpen, half_open_in_flight := 0, half_open_successes := k\<rparr>)"
proof (intro conjI)
  show "circuit_admit config before inner = (Inl CircuitOpen, inner)"
    using assms by (simp add: circuit_admit_def)
  show "\<exists>probing. circuit_admit config now inner = (Inr True, probing) \<and> phase probing = HalfOpen \<and>
      circuit_complete config now True False probing = circuit_open config now inner"
    using assms by (simp add: circuit_admit_def circuit_complete_def circuit_open_def Let_def)
  obtain n where n: "k = Suc n" using assms(5) gr0_implies_Suc by blast
  show "(good_probe config now ^^ k) inner =
      (if k = half_open_requests config then circuit_new\<lparr>half_open_successes := k\<rparr>
       else inner\<lparr>phase := HalfOpen, half_open_in_flight := 0, half_open_successes := k\<rparr>)"
    using good_probe_rounds [of inner until now n config] assms n by (simp del: funpow.simps)
qed

section \<open>Probes of an earlier round\<close>

text \<open>The events of a run, played one after the other.\<close>

datatype event = Admit | Report nat bool | Finish nat | Tick nat

fun play :: "breaker_config \<Rightarrow> event \<Rightarrow> backend_world \<Rightarrow> backend_world" where
  "play config Admit w =
     (case backend_admit config (clock w) (backend w) of
        (Inl e, b) \<Rightarrow> w\<lparr>backend := b\<rparr>
      | (Inr a, b) \<Rightarrow> w\<lparr>backend := b, admissions := admissions w @ [a]\<rparr>)"
| "play config (Report i success) w =
     (if i < length (admissions w) then
        (case report config (clock w) success (admissions w ! i) (backend w) of
           (a, b) \<Rightarrow> w\<lparr>backend := b, admissions := (admissions w)[i := a]\<rparr>)
      else w)"
| "play config (Finish i) w =
     (if i < length (admissions w) then
        w\<lparr>backend := drop_admission (admissions w ! i) (backend w), admissions := remove_at i (admissions w)\<rparr>
      else w)"
| "play config (Tick d) w = w\<lparr>clock := clock w + d\<rparr>"

lemma play_steps: "(backend_step config)\<^sup>*\<^sup>* w (play config e w)"
proof (cases e)
  case Admit
  then show ?thesis by (auto split: prod.split sum.split intro: backend_step.admit backend_step.refuse)
next
  case (Report i success)
  then show ?thesis by (auto split: prod.split intro: backend_step.report)
next
  case (Finish i)
  then show ?thesis by (auto intro: backend_step.finish)
next
  case (Tick d)
  then show ?thesis by (auto intro: backend_step.tick)
qed

lemma play_runs: "backend_runs config m (fold (play config) es (world_new m config now))"
proof -
  have "(backend_step config)\<^sup>*\<^sup>* w (fold (play config) es w)" for w
    by (induction es arbitrary: w) (auto intro: rtranclp_trans play_steps)
  then show ?thesis unfolding backend_runs_def by blast
qed

text \<open>The first request fails and opens the circuit. Of the two probes of the first round one fails and opens it again,
  while the other is still running when the second round starts; its success is then counted in that round.\<close>

definition two_rounds :: "event list" where
  "two_rounds =
     [Admit, Report 0 False, Finish 0, Tick 5000000, Admit, Admit, Report 1 False, Finish 1, Tick 5000000,
      Admit, Report 0 True, Finish 0, Admit, Admit]"

definition two_probes :: breaker_config where
  "two_probes = breaker_default\<lparr>failure_threshold := Some 1, half_open_requests := 2, open_duration_ms := 5\<rparr>"

lemmas evaluate_backend =
  two_rounds_def two_probes_def breaker_default_def world_new_def backend_new_def breaker_enabled_def circuit_new_def
  backend_admit_def circuit_admit_def report_def circuit_complete_def record_outcome_def consecutive_open_def ratio_open_def
  circuit_open_def drop_admission_def drop_circuit_def remove_at_def abandon_probe_def Let_def

lemma stale_probe_overbooks:
  "\<exists>w inner. backend_runs two_probes None w \<and> breaker (backend w) = Some inner \<and> phase inner = HalfOpen \<and>
     half_open_requests two_probes < probes_out (admissions w)"
proof -
  let ?w = "fold (play two_probes) two_rounds (world_new None two_probes 0)"
  have "breaker (backend ?w) = Some \<lparr>phase = HalfOpen, open_until = Some 10000000, consecutive_failures = 1, outcomes = [False],
      half_open_in_flight = 2, half_open_successes = 1\<rparr> \<and> probes_out (admissions ?w) = 3"
    by (simp add: evaluate_backend probes_out_def is_probe_def)
  then show ?thesis using play_runs [of two_probes None two_rounds 0] by (force simp: two_probes_def)
qed

section \<open>The backends of a route\<close>

text \<open>The per-address state is kept in a map that is replaced as a whole.\<close>

record 'addr route_protection =
  backends :: "'addr \<rightharpoonup> backend_protection"
  reconciled_generation :: nat

definition reconcile_backends :: "nat \<Rightarrow> 'addr set \<Rightarrow> 'addr route_protection \<Rightarrow> 'addr route_protection" where
  "reconcile_backends generation live route =
     (if reconciled_generation route = generation then route
      else
        route\<lparr>backends := (if dom (backends route) \<subseteq> live then backends route else backends route |` live),
              reconciled_generation := generation\<rparr>)"

definition route_backend ::
    "overload_config \<Rightarrow> breaker_config \<Rightarrow> 'addr \<Rightarrow> 'addr route_protection \<Rightarrow> backend_protection \<times> 'addr route_protection" where
  "route_backend overload config address route =
     (case backends route address of
        Some existing \<Rightarrow> (existing, route)
      | None \<Rightarrow>
          (let created = backend_new (upstream_max_connections overload) config;
               route = route\<lparr>backends := (backends route)(address \<mapsto> created)\<rparr>
           in (case backends route address of Some b \<Rightarrow> b | None \<Rightarrow> created, route)))"

lemma reconcile_keeps_live:
  "a \<in> live \<Longrightarrow> backends (reconcile_backends generation live route) a = backends route a"
  by (simp add: reconcile_backends_def)

lemma reconcile_drops_dead:
  "reconciled_generation route \<noteq> generation \<Longrightarrow> dom (backends (reconcile_backends generation live route)) = dom (backends route) \<inter> live"
  by (auto simp: reconcile_backends_def)

lemma reconcile_once: "reconcile_backends g live' (reconcile_backends g live route) = reconcile_backends g live route"
  by (simp add: reconcile_backends_def)

lemma route_backend_stable:
  assumes "route_backend overload config address route = (b, route')"
  shows "backends route' address = Some b \<and> (\<forall>a. a \<noteq> address \<longrightarrow> backends route' a = backends route a) \<and>
    (\<forall>existing. backends route address = Some existing \<longrightarrow> b = existing) \<and>
    route_backend overload config address route' = (b, route')"
  using assms by (auto simp: route_backend_def Let_def split: option.splits)

section \<open>Route admission\<close>

text \<open>A request that found no free slot is \<^emph>\<open>trying\<close> until it has raised the pending count, \<^emph>\<open>waiting\<close> while its guard
  is alive and the semaphore has given it nothing, \<^emph>\<open>granted\<close> between the permit and the drop of the guard, and
  \<^emph>\<open>running\<close> once it owns its admission. The two tests and the drop are separate atomic operations, so requests may
  interleave between them.\<close>

datatype route_task = Trying | Waiting | Granted | Running

record route_world =
  route_slots :: nat
  pending :: nat
  tasks :: "route_task list"

definition route_new :: "nat \<Rightarrow> route_world" where
  "route_new limit = \<lparr>route_slots = limit, pending = 0, tasks = []\<rparr>"

inductive route_step :: "nat \<Rightarrow> route_world \<Rightarrow> route_world \<Rightarrow> bool" for queue where
  acquired: "0 < route_slots w \<Longrightarrow>
    route_step queue w (w\<lparr>route_slots := route_slots w - 1, tasks := tasks w @ [Running]\<rparr>)"
| no_permits: "route_slots w = 0 \<Longrightarrow> route_step queue w (w\<lparr>tasks := tasks w @ [Trying]\<rparr>)"
| queued: "i < length (tasks w) \<Longrightarrow> tasks w ! i = Trying \<Longrightarrow> pending w < queue \<Longrightarrow>
    route_step queue w (w\<lparr>pending := pending w + 1, tasks := (tasks w)[i := Waiting]\<rparr>)"
| queue_full: "i < length (tasks w) \<Longrightarrow> tasks w ! i = Trying \<Longrightarrow> \<not> pending w < queue \<Longrightarrow>
    route_step queue w (w\<lparr>tasks := remove_at i (tasks w)\<rparr>)"
| granted: "i < length (tasks w) \<Longrightarrow> tasks w ! i = Waiting \<Longrightarrow> 0 < route_slots w \<Longrightarrow>
    route_step queue w (w\<lparr>route_slots := route_slots w - 1, tasks := (tasks w)[i := Granted]\<rparr>)"
| admitted: "i < length (tasks w) \<Longrightarrow> tasks w ! i = Granted \<Longrightarrow>
    route_step queue w (w\<lparr>pending := pending w - 1, tasks := (tasks w)[i := Running]\<rparr>)"
| given_up: "i < length (tasks w) \<Longrightarrow> tasks w ! i = Waiting \<Longrightarrow>
    route_step queue w (w\<lparr>pending := pending w - 1, tasks := remove_at i (tasks w)\<rparr>)"
| cancelled: "i < length (tasks w) \<Longrightarrow> tasks w ! i = Granted \<Longrightarrow>
    route_step queue w (w\<lparr>route_slots := route_slots w + 1, pending := pending w - 1, tasks := remove_at i (tasks w)\<rparr>)"
| released: "i < length (tasks w) \<Longrightarrow> tasks w ! i = Running \<Longrightarrow>
    route_step queue w (w\<lparr>route_slots := route_slots w + 1, tasks := remove_at i (tasks w)\<rparr>)"

definition owns_slot :: "route_task \<Rightarrow> bool" where
  "owns_slot t = (t = Granted \<or> t = Running)"

definition is_pending :: "route_task \<Rightarrow> bool" where
  "is_pending t = (t = Waiting \<or> t = Granted)"

definition route_ok :: "nat \<Rightarrow> nat \<Rightarrow> route_world \<Rightarrow> bool" where
  "route_ok limit queue w \<longleftrightarrow>
     route_slots w + length (filter owns_slot (tasks w)) = limit \<and>
     pending w = length (filter is_pending (tasks w)) \<and> pending w \<le> queue"

lemma route_ok_new: "route_ok limit queue (route_new limit)"
  by (simp add: route_ok_def route_new_def)

lemma route_step_ok: "route_step p w w' \<Longrightarrow> route_ok m p w \<Longrightarrow> route_ok m p w'"
proof (induction rule: route_step.induct)
  case (acquired w)
  then show ?case by (auto simp: route_ok_def owns_slot_def is_pending_def)
next
  case (no_permits w)
  then show ?case by (auto simp: route_ok_def owns_slot_def is_pending_def)
next
  case (queued i w)
  then show ?case
    using length_filter_update [OF queued(1), of owns_slot Waiting] length_filter_update [OF queued(1), of is_pending Waiting]
    by (auto simp: route_ok_def owns_slot_def is_pending_def)
next
  case (queue_full i w)
  then show ?case
    using length_filter_remove [OF queue_full(1), of owns_slot] length_filter_remove [OF queue_full(1), of is_pending]
    by (auto simp: route_ok_def owns_slot_def is_pending_def)
next
  case (granted i w)
  then show ?case
    using length_filter_update [OF granted(1), of owns_slot Granted] length_filter_update [OF granted(1), of is_pending Granted]
    by (auto simp: route_ok_def owns_slot_def is_pending_def)
next
  case (admitted i w)
  then show ?case
    using length_filter_update [OF admitted(1), of owns_slot Running] length_filter_update [OF admitted(1), of is_pending Running]
    by (auto simp: route_ok_def owns_slot_def is_pending_def)
next
  case (given_up i w)
  then show ?case
    using length_filter_remove [OF given_up(1), of owns_slot] length_filter_remove [OF given_up(1), of is_pending]
    by (auto simp: route_ok_def owns_slot_def is_pending_def)
next
  case (cancelled i w)
  then show ?case
    using length_filter_remove [OF cancelled(1), of owns_slot] length_filter_remove [OF cancelled(1), of is_pending]
    by (auto simp: route_ok_def owns_slot_def is_pending_def)
next
  case (released i w)
  then show ?case
    using length_filter_remove [OF released(1), of owns_slot] length_filter_remove [OF released(1), of is_pending]
    by (auto simp: route_ok_def owns_slot_def is_pending_def)
qed

text \<open>C19: whatever the interleaving of arrivals, grants, timeouts, cancellations and releases on a route, the free slots
  and the requests that own one always add up to the configured number in flight, and the pending count is exactly the
  number of requests that wait under a guard, never above its bound, so that lowering it never wraps below zero.\<close>

theorem route_limits_hold:
  assumes "(route_step queue)\<^sup>*\<^sup>* (route_new limit) w"
  shows "route_slots w + length (filter owns_slot (tasks w)) = limit \<and>
    pending w = length (filter is_pending (tasks w)) \<and> pending w \<le> queue"
proof -
  have "route_ok limit queue w"
    using assms by (induction rule: rtranclp_induct) (auto intro: route_step_ok route_ok_new)
  then show ?thesis by (simp add: route_ok_def)
qed

theorem route_limits_hold_witness:
  "route_slots \<lparr>route_slots = 0, pending = 1, tasks = [Running, Waiting]\<rparr> + length (filter owns_slot [Running, Waiting]) = 1 \<and>
   (1::nat) = length (filter is_pending [Running, Waiting]) \<and> (1::nat) \<le> 1"
proof -
  have a: "route_step 1 (route_new 1) \<lparr>route_slots = 0, pending = 0, tasks = [Running]\<rparr>"
    using route_step.acquired [of "route_new 1" 1] by (simp add: route_new_def)
  have b: "route_step 1 \<lparr>route_slots = 0, pending = 0, tasks = [Running]\<rparr> \<lparr>route_slots = 0, pending = 0, tasks = [Running, Trying]\<rparr>"
    using route_step.no_permits [of "\<lparr>route_slots = 0, pending = 0, tasks = [Running]\<rparr>" 1] by simp
  have c: "route_step 1 \<lparr>route_slots = 0, pending = 0, tasks = [Running, Trying]\<rparr> \<lparr>route_slots = 0, pending = 1, tasks = [Running, Waiting]\<rparr>"
    using route_step.queued [of 1 "\<lparr>route_slots = 0, pending = 0, tasks = [Running, Trying]\<rparr>" 1] by simp
  have "(route_step 1)\<^sup>*\<^sup>* (route_new 1) \<lparr>route_slots = 0, pending = 1, tasks = [Running, Waiting]\<rparr>"
    using a b c by (meson converse_rtranclp_into_rtranclp rtranclp.rtrancl_refl)
  from route_limits_hold [OF this] show ?thesis by simp
qed

theorem backend_limits_hold_witness:
  "backend_runs two_probes (Some 4) (fold (play two_probes) two_rounds (world_new (Some 4) two_probes 0)) \<and>
   (case slots (backend (fold (play two_probes) two_rounds (world_new (Some 4) two_probes 0))) of
      None \<Rightarrow> False
    | Some free \<Rightarrow> free + permits_out (admissions (fold (play two_probes) two_rounds (world_new (Some 4) two_probes 0))) = 4)"
  using play_runs [of two_probes "Some 4" two_rounds 0] backend_limits_hold [OF play_runs [of two_probes "Some 4" two_rounds 0]]
  by (auto split: option.splits)

theorem circuit_opens_on_evidence_witness:
  "phase (observe two_probes [(0, True), (1, False)] circuit_new) = Open"
proof -
  have threshold: "failure_threshold two_probes = Some 1" by (simp add: two_probes_def)
  have "history_opens two_probes (take (Suc 1) (map snd [(0::nat, True), (1, False)]))"
    by (simp add: history_opens_def threshold)
  then have "\<exists>k<length [(0::nat, True), (1, False)]. history_opens two_probes (take (Suc k) (map snd [(0::nat, True), (1, False)]))"
    by (intro exI [of _ 1]) simp
  moreover have "validate_protection overload_default two_probes = None"
    by (simp add: validate_protection_def outside_def overload_default_def two_probes_def breaker_default_def breaker_enabled_def)
  ultimately show ?thesis
    using circuit_opens_on_evidence [of overload_default two_probes "[(0, True), (1, False)]"] by simp
qed

theorem open_circuit_recovers_witness:
  "(good_probe two_probes 9 ^^ 2) (circuit_new\<lparr>phase := Open, open_until := Some 5\<rparr>) = circuit_new\<lparr>half_open_successes := 2\<rparr>"
  using open_circuit_recovers [of "circuit_new\<lparr>phase := Open, open_until := Some 5\<rparr>" 5 1 9 2 two_probes]
  by (simp add: two_probes_def circuit_new_def)

end
