(* ===== verification/Spec2Isabelle.thy ===== *)
theory Spec2Isabelle
  imports Router Fastcgi Client_Hello Proxy_Protocol Lexer Conditions File_Cache Accept Retry_Expr Format Adapter_Pass Overload
begin

text \<open>
  \<^bold>\<open>Pingclair, a web server and reverse proxy configured by Caddyfiles.\<close> All paths below are under \<open>src/\<close>.

  A configuration text is cut into tokens, the tokens into server blocks and segments, and these into a tree of
  directives, which a first pass rewrites by expanding imports and named routes. A request is then routed by its path
  and its matchers to a handler: the file server, a FastCGI responder, or a proxied backend behind retries and overload
  protection. Connections may come in through a PROXY protocol listener, and TLS connections are classified by their
  ClientHello before they are decrypted. The theories follow these parts.

  \<^bold>\<open>Shared groundwork.\<close>
  \<^item> \<open>Prelude\<close>: byte strings and the operations of Rust's \<open>str\<close> and slices on them, decimal numbers, generic list lemmas.
    \<open>Utf8\<close>: validity, decoding and lossy conversion of UTF-8.
  \<^item> \<open>Byte_Source\<close>: early return (\<open>try_bind\<close>) and the locale \<open>byte_source\<close> of readers that hand out one byte at a time,
    interpreted by the ClientHello cursor and by the PROXY protocol stream.
  \<^item> \<open>Star_Scan\<close>: the locale \<open>star_scanner\<close> of single-star backtracking, interpreted by the segment scan of path patterns
    and by the matcher of file globs; it shows that such a scan returns and decides the declarative relation.
  \<^item> \<open>Ordered_Map\<close>: the locale \<open>ordered_map\<close> of \<open>BTreeMap\<close>, interpreted on sorted association lists.
  \<^item> \<open>Net_Addr\<close>: the textual forms of IP addresses.

  \<^bold>\<open>Reading a configuration\<close> (\<open>pingclair-config/src/caddyfile/\<close>).
  \<^item> \<open>Lexer\<close> (\<open>parser/lexer.rs\<close>): \<open>tokenize\<close> and every token form. Each token's span is the text it was read from, printed
    tokens are read back, and a heredoc with an empty body panics.
  \<^item> \<open>Server_Block\<close> (\<open>parser/server_block.rs\<close>): \<open>parse_server_blocks\<close>; no token that means something is lost or moved.
  \<^item> \<open>Dispenser\<close> (\<open>parser/dispenser.rs\<close>): the cursor of a segment, where it stands after each operation.
  \<^item> \<open>Segment_Tree\<close> (\<open>parser/caddy_ast.rs\<close>, \<open>segment_tree.rs\<close>, \<open>parser.rs\<close>): \<open>parse\<close>. A written tree is read back, the
    arguments of a directive agree with its tokens, and tokens after a closing brace are dropped.
  \<^item> \<open>Format\<close> (\<open>format.rs\<close>): \<open>format\<close>. Formatting keeps the tree of a configuration and moves nothing but white space.
  \<^item> \<open>Imports\<close> (\<open>adapter/imports.rs\<close>): \<open>expand\<close>. Expansion ends, what it leaves is final, a reported cycle is one, and
    arguments land where the imported text asks for them.
  \<^item> \<open>Adapter_Pass\<close> (\<open>adapter/mod.rs\<close>, \<open>registry.rs\<close>): the first pass of \<open>adapt_from\<close> as \<open>adapt_pass\<close>. The pass as a
    whole ends, and an unbraced site is gathered without loss.
  \<^item> \<open>Retry_Expr\<close> (\<open>adapter/retry_expr.rs\<close>): the expression language of retry conditions; printed expressions are read
    back. Its locales \<open>returning_parser\<close> and \<open>branch_parser\<close> are interpreted on the parsers of the grammar.

  \<^bold>\<open>Routing a request\<close> (\<open>pingclair-core/src/\<close>).
  \<^item> \<open>Percent\<close> (\<open>percent.rs\<close>): percent-decoding and \<open>resolve_under_root\<close>; a resolved path never leaves its root, and an
    encoded name resolves to the name itself.
  \<^item> \<open>Path_Pattern\<close>, \<open>File_Glob\<close>, \<open>Route_Candidates\<close> (\<open>server/path_pattern.rs\<close>, \<open>file_glob.rs\<close>, \<open>route_candidates.rs\<close>): the
    pattern languages against their reference relations, the bounded directory walk, the candidate table.
  \<^item> \<open>Ip_Ranges\<close>, \<open>File_Matcher\<close>, \<open>Matcher\<close> (\<open>config/ip_ranges.rs\<close>, \<open>server/router.rs\<close>, \<open>matcher_tree.rs\<close>): the conditions
    of a route; the compiled matcher refines the configured one, effects on the request included.
  \<^item> \<open>Router\<close> (\<open>server/router.rs\<close>): with its pre-filter the router answers as a linear search for the first match does.

  \<^bold>\<open>Serving files\<close> (\<open>pingclair-static/src/file_server/\<close>).
  \<^item> \<open>Conditions\<close> (\<open>preconditions.rs\<close>, \<open>validators.rs\<close>, \<open>serve.rs\<close>): preconditions in the order of RFC 9110, entity tags that
    tell representations apart, and byte ranges.
  \<^item> \<open>File_Cache\<close> (\<open>cache.rs\<close>, \<open>budget.rs\<close>): the body caches of several routes over shared budgets, as the step relation
    \<open>cache_step\<close>; budgets are never exceeded and the least recently used body is evicted.
  \<^item> \<open>Accept\<close> (\<open>negotiate.rs\<close>): the media range that decides between HTML and Markdown.

  \<^bold>\<open>Talking to backends and clients.\<close>
  \<^item> \<open>Fastcgi\<close> (\<open>pingclair-fastcgi/src/lib.rs\<close>): framing, parameters and responses over an explicit stream; a response
    arrives whole, and parameters are sent as whole pairs.
  \<^item> \<open>Retry\<close> (\<open>pingclair-proxy/src/retry.rs\<close>): retry policies, their validation and evaluation.
  \<^item> \<open>Overload\<close> (\<open>pingclair-proxy/src/overload.rs\<close>): route and backend admission as the step relations \<open>route_step\<close> and
    \<open>backend_step\<close>, and the circuit breaker; limits hold in every interleaving, a circuit opens exactly on its evidence
    and recovers.
  \<^item> \<open>Proxy_Protocol\<close> (\<open>pingclair-proxy/src/proxy_protocol.rs\<close>): header readers, the registry of claims and the ingress as
    \<open>ingress_step\<close>; only configured peers are believed.
  \<^item> \<open>Client_Hello\<close> (\<open>pingclair-l4/src/hello.rs\<close>): classification of a prefix of a connection, whatever its fragmentation.

  \<^bold>\<open>How code becomes definitions.\<close> Text that the code treats as bytes is \<open>bytes\<close>; configuration text is \<open>chars\<close>, a list
  of code points. Structs are records, enums are datatypes, an error or a panic is a constructor of a result type.
  Shared state and its interleavings are inductive step relations in which every atomic access is a step. Third-party
  code (the regular expression engine, the radix tree, the network and header libraries), the filesystem, the clock and
  the environment are parameters; what is relied on of them is a named predicate such as \<open>matchit_contract\<close>.

  \<^bold>\<open>Bounds and fuel.\<close> Loops are total functions with a measure wherever they always end. Fuel occurs in four places,
  and each time a lemma says how much is always enough: the directory walk (\<open>walk_enough\<close>), the branches of a retry
  expression (the length of the text, \<open>parse_never_out_of_fuel\<close>), nested imports (more than there are names of snippets
  and readable files, \<open>expand_ends\<close>), and invocations (the number of named routes, \<open>expand_named_routes_return\<close>). Depth
  limits of the code are the code's own constants. Numbers are natural numbers where the code saturates or validation
  keeps them small, and machine words where they wrap.

  \<^bold>\<open>Not modelled.\<close> The request path inside the proxy framework (\<open>pingclair-proxy/src/server.rs\<close>, \<open>quic.rs\<close>,
  \<open>http_policy.rs\<close>), which is callbacks of third-party libraries; the second pass of the adapter and most of
  \<open>compiler.rs\<close> and \<open>types.rs\<close>, which copy some fifty directives field by field, so that statements about them would
  repeat the code; rate limits and content-coding qualities, which are floating-point numbers, and the encoders
  themselves; load balancing and health checks, whose selectors belong to the framework apart from the least-connections
  counters, the passive failure marks and the refresh of a pool; TLS, ACME, certificate storage, the admin interface, logging, plugins and the command line, which are input and output; and the vendored framework.
\<close>

end
